(* ===== verification/Prelude.thy ===== *)
theory Prelude
  imports Main "HOL-Library.Word"
begin

section \<open>Shared types, byte strings and the result monad\<close>

text \<open>
  The types, byte-level helpers and the error-carrying state transformer that every component
  of the RingSwarm model shares.  Nothing here models a particular file of the repository: it is
  the vocabulary (fixed-width integers, little-endian byte images, reads and writes of a byte
  array at an offset) in which the other theories are written.
\<close>

named_theorems act_simps \<open>equations that run the state transformers\<close>
named_theorems buf_simps \<open>what buffer operations do on a well-formed buffer\<close>

type_synonym u8 = "8 word"
type_synonym u16 = "16 word"
type_synonym u32 = "32 word"
type_synonym u64 = "64 word"
type_synonym bytes = "u8 list"

subsection \<open>Little-endian images\<close>

primrec le_bytes :: "nat \<Rightarrow> nat \<Rightarrow> bytes" where
  "le_bytes 0 x = []"
| "le_bytes (Suc n) x = of_nat (x mod 256) # le_bytes n (x div 256)"

primrec le_value :: "bytes \<Rightarrow> nat" where
  "le_value [] = 0"
| "le_value (b # bs) = unat b + 256 * le_value bs"

lemma length_le_bytes [simp]: "length (le_bytes n x) = n"
  by (induction n arbitrary: x) simp_all

lemma le_bytes_numeral:
  "le_bytes (numeral k) x = of_nat (x mod 256) # le_bytes (pred_numeral k) (x div 256)"
  by (simp only: numeral_eq_Suc le_bytes.simps)

lemma unat_u8_lt [simp]: "unat (b :: u8) < 256"
  using unsigned_less [where w = b] by simp

lemma unat_of_nat_mod_256 [simp]: "unat (of_nat (x mod 256) :: u8) = x mod 256"
  by (simp add: unat_of_nat)

lemma le_value_le_bytes: "le_value (le_bytes n x) = x mod 256 ^ n"
proof (induction n arbitrary: x)
  case 0
  then show ?case by simp
next
  case (Suc n)
  then show ?case by (simp add: mod_mult2_eq algebra_simps)
qed

lemma le_value_bound: "le_value bs < 256 ^ length bs"
proof (induction bs)
  case Nil
  then show ?case by simp
next
  case (Cons b bs)
  have "unat b + 256 * le_value bs < 256 + 256 * le_value bs" by simp
  also have "\<dots> \<le> 256 * 256 ^ length bs" using Cons.IH by simp
  finally show ?case by simp
qed

lemma le_bytes_le_value [simp]: "le_bytes (length bs) (le_value bs) = bs"
  by (induction bs) (simp_all add: div_add1_eq mod_add_eq)

definition sizeof :: "'a::len word itself \<Rightarrow> nat" where
  "sizeof _ = LENGTH('a) div 8"

lemma sizeof_words [simp]:
  "sizeof TYPE(8 word) = 1" "sizeof TYPE(16 word) = 2"
  "sizeof TYPE(32 word) = 4" "sizeof TYPE(64 word) = 8"
  by (simp_all add: sizeof_def)

definition int_bytes :: "'a::len word \<Rightarrow> bytes" where
  "int_bytes v = le_bytes (sizeof TYPE('a word)) (unat v)"

definition bytes_int :: "bytes \<Rightarrow> 'a::len word" where
  "bytes_int bs = of_nat (le_value bs)"

lemma length_int_bytes [simp]: "length (int_bytes (v :: 'a::len word)) = sizeof TYPE('a word)"
  by (simp add: int_bytes_def)

lemma bytes_int_int_bytes:
  assumes "8 dvd LENGTH('a::len)"
  shows "bytes_int (int_bytes v) = (v :: 'a word)"
proof -
  obtain k where k: "LENGTH('a) = 8 * k" using assms by (auto elim: dvdE)
  then have "(256 :: nat) ^ sizeof TYPE('a word) = 2 ^ LENGTH('a)"
    by (simp add: sizeof_def power_mult)
  then show ?thesis
    by (simp add: bytes_int_def int_bytes_def le_value_le_bytes)
qed

subsection \<open>Reading and writing part of a byte array\<close>

definition peek :: "nat \<Rightarrow> nat \<Rightarrow> 'b list \<Rightarrow> 'b list" where
  "peek off n xs = take n (drop off xs)"

definition poke :: "nat \<Rightarrow> 'b list \<Rightarrow> 'b list \<Rightarrow> 'b list" where
  "poke off bs xs = take off xs @ bs @ drop (off + length bs) xs"

lemma length_peek [simp]: "off + n \<le> length xs \<Longrightarrow> length (peek off n xs) = n"
  by (simp add: peek_def)

lemma length_poke [simp]: "off + length bs \<le> length xs \<Longrightarrow> length (poke off bs xs) = length xs"
  by (simp add: poke_def)

lemma peek_0 [simp]: "peek off 0 xs = []"
  by (simp add: peek_def)

lemma poke_Nil [simp]: "poke off [] xs = xs"
  by (simp add: poke_def)

lemma peek_poke_same [simp]:
  "off + length bs \<le> length xs \<Longrightarrow> n = length bs \<Longrightarrow> peek off n (poke off bs xs) = bs"
  by (simp add: peek_def poke_def)

lemma peek_poke_before:
  assumes "i + n \<le> off" "off + length bs \<le> length xs"
  shows "peek i n (poke off bs xs) = peek i n xs"
proof -
  have "take n (drop i (take off xs @ ys)) = take n (drop i xs)" for ys
    using assms by (auto simp: drop_take min_def)
  then show ?thesis unfolding peek_def poke_def by blast
qed

lemma peek_poke_after:
  assumes "off + length bs \<le> i" "off + length bs \<le> length xs"
  shows "peek i n (poke off bs xs) = peek i n xs"
  using assms by (simp add: peek_def poke_def add.commute)

lemma poke_poke_append:
  assumes "off + length as + length bs \<le> length xs"
  shows "poke (off + length as) bs (poke off as xs) = poke off (as @ bs) xs"
  using assms by (simp add: poke_def ac_simps)

lemma peek_append:
  "peek off (m + n) xs = peek off m xs @ peek (off + m) n xs"
  by (simp add: peek_def take_add add.commute)

subsection \<open>32-bit sizes\<close>

lemma unat_sub_fits: "unat off \<le> unat len \<Longrightarrow> unat (len - off :: u32) = unat len - unat off"
  by (simp add: unat_sub word_le_nat_alt)

lemma unat_add_fits:
  assumes "unat (a :: u32) + n \<le> unat (b :: u32)"
  shows "unat (a + of_nat n) = unat a + n"
proof -
  have "unat b < 2 ^ 32" using unsigned_less [where w = b and 'a = nat] by simp
  with assms have "unat a + n < 2 ^ 32" by simp
  then show ?thesis by (simp add: unat_word_ariths unat_of_nat)
qed

subsection \<open>Counting in a list of thread states\<close>

definition num :: "('b \<Rightarrow> bool) \<Rightarrow> 'b list \<Rightarrow> nat" where
  "num P xs = length (filter P xs)"

lemma num_simps [simp]:
  "num P [] = 0" "num P (x # xs) = (if P x then Suc (num P xs) else num P xs)"
  by (simp_all add: num_def)

lemma num_update:
  "i < length xs \<Longrightarrow>
     num P (xs[i := x]) + (if P (xs ! i) then 1 else 0) = num P xs + (if P x then 1 else 0)"
proof (induction xs arbitrary: i)
  case (Cons y xs)
  then show ?case by (cases i) auto
qed simp

lemma num_0_iff: "num P xs = 0 \<longleftrightarrow> (\<forall>i<length xs. \<not> P (xs ! i))"
  by (auto simp: num_def filter_empty_conv all_set_conv_all_nth)

lemma num_pos: "i < length xs \<Longrightarrow> P (xs ! i) \<Longrightarrow> 0 < num P xs"
  using num_0_iff [of P xs] by auto

lemma num_update_out:
  "i < length xs \<Longrightarrow> \<not> P (xs ! i) \<Longrightarrow> num P (xs[i := x]) = num P xs + (if P x then 1 else 0)"
  using num_update [of i xs P x] by simp

lemma num_update_in:
  "i < length xs \<Longrightarrow> P (xs ! i) \<Longrightarrow> num P (xs[i := x]) = num P xs - (if P x then 0 else 1)"
  using num_update [of i xs P x] by (simp split: if_splits)

lemma num_mono: "(\<And>x. P x \<Longrightarrow> Q x) \<Longrightarrow> num P xs \<le> num Q xs"
  by (induction xs) auto

lemma num_disj:
  "(\<And>x. \<not> (P x \<and> Q x)) \<Longrightarrow> num (\<lambda>x. P x \<or> Q x) xs = num P xs + num Q xs"
  by (induction xs) auto

subsection \<open>Taking the last element\<close>

lemma butlast_distinct:
  assumes "xs \<noteq> []" "distinct xs"
  shows "distinct (butlast xs)" "set (butlast xs) = set xs - {last xs}"
  using assms by (induction xs rule: rev_induct) auto

end
