(* ===== verification/Errors.thy ===== *)
theory Errors
  imports Prelude
begin

section \<open>Exceptions, assertions and undefined behaviour\<close>

text \<open>
  The exception classes of \<open>core/RingSwarmException.h\<close>, \<open>transport/*Exception.h\<close>,
  \<open>proto/*Exception.h\<close> and \<open>crypto/CryptoException.h\<close> with their inheritance, the
  assertion macro of \<open>Assert.h\<close>, and the state transformer in which the operations of the
  model run.  An operation ends with a value, or with one of three kinds of failure: a C++
  exception, a failed assertion (the process aborts) or undefined behaviour.  A failed operation
  still returns the state it left behind, since the code does not roll back.
\<close>

subsection \<open>Exception classes\<close>

datatype exn_class =
    RingSwarmException
  | TransportException
  | ClosedTransportException
  | DataSerialisationException
  | ProtocolException
  | TooLargeMessageException
  | UnknownResponseException
  | CryptoException

fun base_class :: "exn_class \<Rightarrow> exn_class option" where
  "base_class RingSwarmException = None"
| "base_class TransportException = Some RingSwarmException"
| "base_class ClosedTransportException = Some TransportException"
| "base_class DataSerialisationException = Some RingSwarmException"
| "base_class ProtocolException = Some RingSwarmException"
| "base_class TooLargeMessageException = Some ProtocolException"
| "base_class UnknownResponseException = Some ProtocolException"
| "base_class CryptoException = Some RingSwarmException"

fun class_depth :: "exn_class \<Rightarrow> nat" where
  "class_depth RingSwarmException = 0"
| "class_depth ClosedTransportException = 2"
| "class_depth TooLargeMessageException = 2"
| "class_depth UnknownResponseException = 2"
| "class_depth _ = 1"

lemma base_class_depth: "base_class c = Some b \<Longrightarrow> class_depth b < class_depth c"
  by (cases c) auto

function derives :: "exn_class \<Rightarrow> exn_class \<Rightarrow> bool" where
  "derives c d = (c = d \<or> (case base_class c of None \<Rightarrow> False | Some b \<Rightarrow> derives b d))"
  by pat_completeness auto
termination
  by (relation "measure (\<lambda>(c, d). class_depth c)") (auto simp: base_class_depth)

declare derives.simps [simp del]

text \<open>An exception object: its dynamic class and the private \<open>reason\<close> string.\<close>

record exn =
  exn_class :: exn_class
  reason :: string

definition what :: "exn \<Rightarrow> string" where
  "what e = reason e"

definition throw_default :: "exn_class \<Rightarrow> exn" where
  "throw_default c = \<lparr>exn_class = c, reason = []\<rparr>"

text \<open>A handler \<open>catch (const C &)\<close> catches an exception whose class is or derives from C.\<close>

definition catches :: "exn_class \<Rightarrow> exn \<Rightarrow> bool" where
  "catches c e = derives (exn_class e) c"

lemma derives_ringswarm: "derives c RingSwarmException"
  by (cases c) (simp_all add: derives.simps)

lemma derives_refl [simp]: "derives c c"
  by (simp add: derives.simps)

lemma derives_trans:
  assumes "derives a b" "derives b c"
  shows "derives a c"
  using assms
proof (induction a b rule: derives.induct)
  case (1 a b)
  show ?case
  proof (cases "a = b")
    case True
    with "1.prems"(2) show ?thesis by simp
  next
    case False
    with "1.prems"(1) obtain p where "base_class a = Some p" "derives p b"
      by (subst (asm) derives.simps) (auto split: option.splits)
    with "1.IH" "1.prems"(2) have "derives p c" by blast
    with \<open>base_class a = Some p\<close> show ?thesis by (subst derives.simps) simp
  qed
qed

lemma derives_leaf:
  "derives c ClosedTransportException = (c = ClosedTransportException)"
  by (cases c) (simp_all add: derives.simps)

subsection \<open>Failures\<close>

datatype fault =
    NullDereference
  | OutOfBounds
  | UseAfterErase
  | NullCoroutine
  | ResumeDone
  | ResumeRunning
  | SignedOverflow
  | RelockMutex
  | UnlockUnowned

text \<open>Exceptions of the standard library, which are no \<open>RingSwarmException\<close>.\<close>

datatype std_exn = BadAlloc | LengthError

datatype err =
    Throw exn
  | ThrowStd std_exn
  | AssertFailed string
  | UB fault

fun is_throw :: "exn_class \<Rightarrow> err \<Rightarrow> bool" where
  "is_throw c (Throw e) = (exn_class e = c)"
| "is_throw c _ = False"

abbreviation raise :: "exn_class \<Rightarrow> err" where
  "raise c \<equiv> Throw (throw_default c)"

subsection \<open>State transformers with failure\<close>

type_synonym ('s, 'a) act = "'s \<Rightarrow> (err + 'a) \<times> 's"

definition ret :: "'a \<Rightarrow> ('s, 'a) act" where
  "ret x s = (Inr x, s)"

definition fail :: "err \<Rightarrow> ('s, 'a) act" where
  "fail e s = (Inl e, s)"

definition andthen :: "('s, 'a) act \<Rightarrow> ('a \<Rightarrow> ('s, 'b) act) \<Rightarrow> ('s, 'b) act" where
  "andthen m f s = (case m s of (Inl e, t) \<Rightarrow> (Inl e, t) | (Inr x, t) \<Rightarrow> f x t)"

definition modify :: "('s \<Rightarrow> 's) \<Rightarrow> ('s, unit) act" where
  "modify f s = (Inr (), f s)"

text \<open>\<open>Assert(expr, msg)\<close>: aborts when the condition is false.\<close>

definition assert_that :: "bool \<Rightarrow> string \<Rightarrow> ('s, unit) act" where
  "assert_that c msg s = (if c then (Inr (), s) else (Inl (AssertFailed msg), s))"

lemma ret_run [act_simps]: "ret x s = (Inr x, s)"
  by (simp add: ret_def)

lemma fail_run [act_simps]: "fail e s = (Inl e, s)"
  by (simp add: fail_def)

lemma modify_run [act_simps]: "modify f s = (Inr (), f s)"
  by (simp add: modify_def)

lemma andthen_Inr [act_simps]: "m s = (Inr x, t) \<Longrightarrow> andthen m f s = f x t"
  by (simp add: andthen_def)

lemma andthen_Inl [act_simps]: "m s = (Inl e, t) \<Longrightarrow> andthen m f s = (Inl e, t)"
  by (simp add: andthen_def)

lemma assert_that_run [act_simps]:
  "assert_that c msg s = (if c then (Inr (), s) else (Inl (AssertFailed msg), s))"
  by (simp add: assert_that_def)

lemma andthen_ret [simp]: "andthen m ret = m"
  by (rule ext) (auto simp: andthen_def ret_def split: prod.splits sum.splits)

lemma ret_andthen [simp]: "andthen (ret x) f = f x"
  by (rule ext) (simp add: andthen_def ret_def)

lemma andthen_assoc: "andthen (andthen m f) g = andthen m (\<lambda>x. andthen (f x) g)"
  by (rule ext) (auto simp: andthen_def split: prod.splits sum.splits)

text \<open>
  An invariant kept by both halves is kept by the sequence, whatever the outcome.
\<close>

lemma andthen_invariant:
  assumes "andthen m f s = (r, u)"
    and "\<And>e t. m s = (Inl e, t) \<Longrightarrow> P t"
    and "\<And>x t. m s = (Inr x, t) \<Longrightarrow> f x t = (r, u) \<Longrightarrow> P u"
  shows "P u"
  using assms by (auto simp: andthen_def split: prod.splits sum.splits)

end
