(* ===== verification/Ordered_Maps.thy ===== *)
theory Ordered_Maps
  imports Prelude
begin

section \<open>Ordered maps\<close>

text \<open>
  \<open>std::map\<close> as the code uses it (\<open>ClientTransport::pendingRequests\<close>,
  \<open>ServerHandler::pendingResponses\<close>, \<open>Buffer::readMap\<close>): an association list in strictly
  ascending key order, which is also the order in which a range-based \<open>for\<close> visits it.  The
  interface the clients rely on is the locale \<open>std_map\<close>; the association list interprets it.
\<close>

locale std_map =
  fixes mempty :: 'm
    and mput :: "'k \<Rightarrow> 'v \<Rightarrow> 'm \<Rightarrow> 'm"
    and merase :: "'k \<Rightarrow> 'm \<Rightarrow> 'm"
    and mfind :: "'m \<Rightarrow> 'k \<Rightarrow> 'v option"
    and msize :: "'m \<Rightarrow> nat"
    and mwf :: "'m \<Rightarrow> bool"
  assumes wf_empty: "mwf mempty"
    and wf_put: "mwf m \<Longrightarrow> mwf (mput k v m)"
    and wf_erase: "mwf m \<Longrightarrow> mwf (merase k m)"
    and find_empty: "mfind mempty = Map.empty"
    and find_put: "mwf m \<Longrightarrow> mfind (mput k v m) = (mfind m)(k \<mapsto> v)"
    and find_erase: "mwf m \<Longrightarrow> mfind (merase k m) = (mfind m)(k := None)"
    and size_dom: "mwf m \<Longrightarrow> finite (dom (mfind m)) \<and> msize m = card (dom (mfind m))"
begin

lemma size_empty: "msize mempty = 0"
  using size_dom [OF wf_empty] by (simp add: find_empty)

lemma size_put_fresh:
  assumes "mwf m" "mfind m k = None"
  shows "msize (mput k v m) = Suc (msize m)"
proof -
  have "dom (mfind (mput k v m)) = insert k (dom (mfind m))" "k \<notin> dom (mfind m)"
    using assms by (auto simp: find_put)
  then show ?thesis using size_dom [OF assms(1)] size_dom [OF wf_put [OF assms(1)]] by simp
qed

lemma size_put_present:
  assumes "mwf m" "mfind m k = Some w"
  shows "msize (mput k v m) = msize m"
proof -
  have "dom (mfind (mput k v m)) = dom (mfind m)"
    using assms by (auto simp: find_put)
  then show ?thesis using size_dom [OF assms(1)] size_dom [OF wf_put [OF assms(1)]] by simp
qed

lemma size_erase_present:
  assumes "mwf m" "mfind m k = Some v"
  shows "Suc (msize (merase k m)) = msize m"
proof -
  have "dom (mfind (merase k m)) = dom (mfind m) - {k}" "k \<in> dom (mfind m)"
    using assms by (auto simp: find_erase)
  then show ?thesis
    using size_dom [OF assms(1)] size_dom [OF wf_erase [OF assms(1)]]
    by (metis card.remove)
qed

lemma size_zero_iff: "mwf m \<Longrightarrow> msize m = 0 \<longleftrightarrow> mfind m = Map.empty"
  using size_dom by (metis card_eq_0_iff dom_eq_empty_conv)

lemma size_one_key:
  assumes "mwf m" "msize m = 1" "mfind m k = Some v" "mfind m j = Some w"
  shows "j = k"
proof -
  have "card (dom (mfind m)) = 1" using assms(1,2) size_dom by simp
  then obtain x where "dom (mfind m) = {x}" by (auto simp: card_1_singleton_iff)
  with assms(3,4) show ?thesis by (metis domI singletonD)
qed

lemma put_erase_find:
  "mwf m \<Longrightarrow> mfind m k = None \<Longrightarrow> mfind (merase k (mput k v m)) = mfind m"
  by (auto simp: find_put find_erase wf_put)

text \<open>A map with fewer entries than a set of candidate keys misses one of them.\<close>

lemma free_key:
  assumes "mwf m" "finite K" "msize m < card K"
  shows "\<exists>k\<in>K. mfind m k = None"
proof (rule ccontr)
  assume "\<not> ?thesis"
  then have "K \<subseteq> dom (mfind m)" by auto
  then have "card K \<le> msize m" using size_dom [OF assms(1)] card_mono by metis
  with assms(3) show False by simp
qed

end

subsection \<open>The sorted association list\<close>

type_synonym ('k, 'v) omap = "('k \<times> 'v) list"

fun om_put :: "'k::linorder \<Rightarrow> 'v \<Rightarrow> ('k, 'v) omap \<Rightarrow> ('k, 'v) omap" where
  "om_put k v [] = [(k, v)]"
| "om_put k v (e # m) =
     (if k = fst e then (k, v) # m
      else if k < fst e then (k, v) # e # m
      else e # om_put k v m)"

definition om_erase :: "'k::linorder \<Rightarrow> ('k, 'v) omap \<Rightarrow> ('k, 'v) omap" where
  "om_erase k m = filter (\<lambda>e. fst e \<noteq> k) m"

definition om_wf :: "('k::linorder, 'v) omap \<Rightarrow> bool" where
  "om_wf m = sorted_wrt (<) (map fst m)"

lemma om_wf_simps [simp]:
  "om_wf []"
  "om_wf (e # m) = ((\<forall>x\<in>set m. fst e < fst x) \<and> om_wf m)"
  by (auto simp: om_wf_def)

lemma keys_om_put: "fst ` set (om_put k v m) = insert k (fst ` set m)"
  by (induction m) auto

lemma om_wf_put [simp]: "om_wf m \<Longrightarrow> om_wf (om_put k v m)"
proof (induction m)
  case Nil
  then show ?case by simp
next
  case (Cons e m)
  have "\<forall>x\<in>set (om_put k v m). fst e < fst x" if "fst e < k"
  proof
    fix x assume "x \<in> set (om_put k v m)"
    then have "fst x \<in> insert k (fst ` set m)" using keys_om_put [of k v m] by blast
    with that Cons.prems show "fst e < fst x" by auto
  qed
  with Cons show ?case by (auto dest: less_trans)
qed

lemma om_wf_erase [simp]: "om_wf m \<Longrightarrow> om_wf (om_erase k m)"
  by (induction m) (auto simp: om_erase_def)

lemma map_of_om_put [simp]: "map_of (om_put k v m) = (map_of m)(k \<mapsto> v)"
  if "om_wf m"
  using that
proof (induction m)
  case Nil
  then show ?case by simp
next
  case (Cons e m)
  have "k \<notin> fst ` set m" if "k < fst e"
    using Cons.prems that by (auto dest: less_trans)
  then have "map_of m k = None" if "k < fst e"
    using that by (simp add: map_of_eq_None_iff)
  with Cons show ?case by (cases e) (auto simp: fun_eq_iff)
qed

lemma map_of_om_erase [simp]: "map_of (om_erase k m) = (map_of m)(k := None)"
  by (induction m) (auto simp: om_erase_def fun_eq_iff)

lemma om_wf_distinct: "om_wf m \<Longrightarrow> distinct (map fst m)"
  by (induction m) auto

lemma om_length: "om_wf m \<Longrightarrow> length m = card (dom (map_of m))"
  by (metis om_wf_distinct distinct_card dom_map_of_conv_image_fst length_map set_map)

text \<open>Two ordered maps with the same lookups are the same list.\<close>

lemma om_ext:
  assumes "om_wf m" "om_wf n" "map_of m = map_of n"
  shows "m = n"
proof -
  have sets: "set m = set n"
    using assms om_wf_distinct by (metis map_of_inject_set)
  have "sorted (map fst m)" "sorted (map fst n)"
    using assms(1,2) by (auto simp: om_wf_def strict_sorted_iff)
  moreover have "set (map fst m) = set (map fst n)" using sets by simp
  ultimately have keys: "map fst m = map fst n"
    using assms(1,2) om_wf_distinct sorted_distinct_set_unique by metis
  have "map snd m = map (\<lambda>k. the (map_of m k)) (map fst m)"
    using om_wf_distinct [OF assms(1)] by auto
  also have "\<dots> = map (\<lambda>k. the (map_of n k)) (map fst n)" using keys assms(3) by simp
  also have "\<dots> = map snd n" using om_wf_distinct [OF assms(2)] by auto
  finally show ?thesis using keys by (metis zip_map_fst_snd)
qed

interpretation om: std_map "[]" om_put om_erase map_of length om_wf
  by unfold_locales (auto simp: om_length finite_dom_map_of)

text \<open>The value stored under a key, changed in place through a reference to the map node.\<close>

definition om_adjust :: "'k::linorder \<Rightarrow> ('v \<Rightarrow> 'v) \<Rightarrow> ('k, 'v) omap \<Rightarrow> ('k, 'v) omap" where
  "om_adjust k f m = map (\<lambda>e. if fst e = k then (fst e, f (snd e)) else e) m"

lemma map_fst_om_adjust [simp]: "map fst (om_adjust k f m) = map fst m"
  by (simp add: om_adjust_def)

lemma om_wf_adjust [simp]: "om_wf (om_adjust k f m) = om_wf m"
  unfolding om_wf_def by simp

lemma length_om_adjust [simp]: "length (om_adjust k f m) = length m"
  by (simp add: om_adjust_def)

lemma om_adjust_Nil_iff [simp]: "om_adjust k f m = [] \<longleftrightarrow> m = []"
  by (simp add: om_adjust_def)

lemma map_of_om_adjust [simp]:
  "map_of (om_adjust k f m) = (map_of m)(k := map_option f (map_of m k))"
  by (induction m) (auto simp: om_adjust_def fun_eq_iff)

text \<open>Inserting the entries of an ordered map in ascending order rebuilds it.\<close>

definition om_build :: "('k::linorder, 'v) omap \<Rightarrow> ('k \<times> 'v) list \<Rightarrow> ('k, 'v) omap" where
  "om_build m es = foldl (\<lambda>m e. om_put (fst e) (snd e) m) m es"

lemma om_build_simps [simp]:
  "om_build m [] = m"
  "om_build m (e # es) = om_build (om_put (fst e) (snd e) m) es"
  by (simp_all add: om_build_def)

lemma om_put_last: "om_wf (m @ [e]) \<Longrightarrow> om_put (fst e) (snd e) m = m @ [e]"
proof (induction m)
  case (Cons d m)
  then have "fst d < fst e" "om_wf (m @ [e])" by auto
  with Cons.IH show ?case by auto
qed simp

lemma om_wf_append_left: "om_wf (m @ n) \<Longrightarrow> om_wf m"
  by (auto simp: om_wf_def sorted_wrt_append)

lemma om_build_sorted: "om_wf (m @ es) \<Longrightarrow> om_build m es = m @ es"
proof (induction es arbitrary: m)
  case (Cons e es)
  then have "om_put (fst e) (snd e) m = m @ [e]"
    by (intro om_put_last om_wf_append_left [of "m @ [e]" es]) simp
  with Cons show ?case by simp
qed simp

end
