(* ===== verification/Ids.thy ===== *)
theory Ids
  imports Errors "HOL-Library.List_Lexorder"
begin

unbundle bit_operations_syntax

section \<open>Identifiers\<close>

text \<open>
  \<open>core/Id.h\<close> and \<open>core/Id.cpp\<close>: the 32-byte identifier, its comparison operators over
  \<open>memcmp\<close>, and its hexadecimal form.  The struct is a type of its own (byte strings of length
  32); \<open>operator<\<close> makes it a linear order, and the hexadecimal form keeps that order.  The
  functions that return a \<open>std::shared_ptr\<close> return an option, \<open>None\<close> for the null pointer.
\<close>

typedef id = "{h :: bytes. length h = 32}"
  morphisms hash mk_id
  by (rule exI [of _ "replicate 32 0"]) simp

setup_lifting type_definition_id

lemma length_hash [simp]: "length (hash a) = 32"
  using hash [of a] by simp

lemma hash_mk_id [simp]: "length h = 32 \<Longrightarrow> hash (mk_id h) = h"
  by (simp add: mk_id_inverse)

lemma mk_id_hash [simp]: "mk_id (hash a) = a"
  by (simp add: hash_inverse)

lemma hash_eq_iff: "hash a = hash b \<longleftrightarrow> a = b"
  by (simp add: hash_inject)

subsection \<open>memcmp\<close>

fun memcmp :: "bytes \<Rightarrow> bytes \<Rightarrow> nat \<Rightarrow> int" where
  "memcmp (x # xs) (y # ys) (Suc n) =
     (if x = y then memcmp xs ys n else if x < y then - 1 else 1)"
| "memcmp _ _ _ = 0"

lemma memcmp_flip: "memcmp ys xs n = - memcmp xs ys n"
  by (induction xs ys n rule: memcmp.induct) auto

lemma memcmp_eq_0: "length xs = length ys \<Longrightarrow> memcmp xs ys (length xs) = 0 \<longleftrightarrow> xs = ys"
  by (induction xs ys rule: list_induct2) simp_all

lemma memcmp_less_iff:
  "length xs = length ys \<Longrightarrow> memcmp xs ys (length xs) < 0 \<longleftrightarrow> xs < ys"
  by (induction xs ys rule: list_induct2) (simp_all add: Cons_less_Cons)

subsection \<open>Comparison operators\<close>

definition id_eq :: "id \<Rightarrow> id \<Rightarrow> bool" where
  "id_eq a b = (memcmp (hash a) (hash b) 32 = 0)"

definition id_neq :: "id \<Rightarrow> id \<Rightarrow> bool" where
  "id_neq a b = (\<not> id_eq b a)"

definition id_lt :: "id \<Rightarrow> id \<Rightarrow> bool" where
  "id_lt a b = (memcmp (hash a) (hash b) 32 < 0)"

definition id_comparator :: "id \<Rightarrow> id \<Rightarrow> bool" where
  "id_comparator lhs rhs = (memcmp (hash lhs) (hash rhs) 32 < 0)"

lemma id_eq_iff [simp]: "id_eq a b \<longleftrightarrow> a = b"
  using memcmp_eq_0 [of "hash a" "hash b"] by (simp add: id_eq_def hash_eq_iff)

lemma id_lt_iff: "id_lt a b \<longleftrightarrow> hash a < hash b"
  using memcmp_less_iff [of "hash a" "hash b"] by (simp add: id_lt_def)

instantiation id :: linorder
begin

definition less_id :: "id \<Rightarrow> id \<Rightarrow> bool" where
  "less_id = id_lt"

definition less_eq_id :: "id \<Rightarrow> id \<Rightarrow> bool" where
  "less_eq_id a b = (\<not> id_lt b a)"

instance
proof
  fix a b c :: id
  show "(a < b) = (a \<le> b \<and> \<not> b \<le> a)"
    by (auto simp: less_id_def less_eq_id_def id_lt_iff)
  show "a \<le> a" by (simp add: less_eq_id_def id_lt_iff)
  show "a \<le> c" if "a \<le> b" "b \<le> c"
    using that by (auto simp: less_eq_id_def id_lt_iff not_less)
  show "a = b" if "a \<le> b" "b \<le> a"
    using that by (auto simp: less_eq_id_def id_lt_iff not_less hash_eq_iff [symmetric])
  show "a \<le> b \<or> b \<le> a" by (auto simp: less_eq_id_def id_lt_iff)
qed

end

subsection \<open>Hexadecimal form\<close>

text \<open>\<open>char\<close> is signed on the platforms the build targets: the tests compare \<open>sint\<close> values.\<close>

definition int_to_hex_fix :: "u8 \<Rightarrow> u8" where
  "int_to_hex_fix c = (if sint c \<le> 9 then c + 48 else c - 10 + 97)"

definition hex_char_to_int :: "u8 \<Rightarrow> u8" where
  "hex_char_to_int c = (if sint c \<le> 57 then c - 48 else c - 97 + 10)"

definition get_hex_representation :: "id \<Rightarrow> bytes" where
  "get_hex_representation a =
     concat (map (\<lambda>i. [int_to_hex_fix (drop_bit 4 (hash a ! i)),
                       int_to_hex_fix (hash a ! i AND 15)]) [0..<32])"

definition from_hex_representation :: "bytes \<Rightarrow> id option" where
  "from_hex_representation hex = None"

definition get_biggest_id :: "id option" where
  "get_biggest_id = from_hex_representation (replicate 64 102)"

text \<open>\<open>fromBlob\<close> copies 32 bytes to \<open>id->hash\<close> through the pointer it has just declared.\<close>

definition from_blob :: "bytes \<Rightarrow> err + id option" where
  "from_blob blob =
     (let id = (None :: id option) in
      case id of
        None \<Rightarrow> Inl (UB NullDereference)
      | Some _ \<Rightarrow>
          if length blob < 32 then Inl (UB OutOfBounds) else Inr (Some (mk_id (take 32 blob))))"

lemma from_blob_faults: "from_blob blob = Inl (UB NullDereference)"
  by (simp add: from_blob_def)

subsection \<open>Nibbles\<close>

text \<open>The conversions on the sixteen nibble values, by enumeration.\<close>

definition nibbles :: "u8 list" where
  "nibbles = map of_nat [0..<16]"

lemma nibbles_unfold:
  "nibbles = [0, 1, 2, 3, 4, 5, 6, 7, 8, 9, 10, 11, 12, 13, 14, 15]"
  by (simp add: nibbles_def upt_rec)

lemma in_nibbles: "unat c < 16 \<Longrightarrow> c \<in> set nibbles"
  by (auto simp: nibbles_def intro: image_eqI [where x = "unat c"])

lemma unat_high: "unat (drop_bit 4 (b :: u8)) = unat b div 16"
  by (simp only: unat_drop_bit_eq) (simp add: drop_bit_eq_div)

lemma low_nibble_take_bit: "(b :: u8) AND 15 = take_bit 4 b"
  by (simp add: take_bit_eq_mask mask_eq_exp_minus_1)

lemma unat_low: "unat ((b :: u8) AND 15) = unat b mod 16"
proof -
  have "unat (b AND 15) = take_bit 4 (unat b)"
    unfolding low_nibble_take_bit by (rule unsigned_take_bit_eq)
  then show ?thesis by (simp add: take_bit_eq_mod)
qed

lemma nibble_high: "drop_bit 4 (b :: u8) \<in> set nibbles"
  using unat_u8_lt [of b] by (intro in_nibbles) (simp add: unat_high div_less_iff_less_mult)

lemma nibble_low: "(b :: u8) AND 15 \<in> set nibbles"
  by (intro in_nibbles) (simp add: unat_low)

lemma hex_char_roundtrip: "c \<in> set nibbles \<Longrightarrow> hex_char_to_int (int_to_hex_fix c) = c"
  by (auto simp: nibbles_unfold int_to_hex_fix_def hex_char_to_int_def)

lemma unat_hex_char:
  "c \<in> set nibbles \<Longrightarrow>
     unat (int_to_hex_fix c) = (if unat c \<le> 9 then unat c + 48 else unat c + 87)"
  by (auto simp: nibbles_unfold int_to_hex_fix_def)

lemma hex_char_less:
  "c \<in> set nibbles \<Longrightarrow> d \<in> set nibbles \<Longrightarrow> int_to_hex_fix c < int_to_hex_fix d \<longleftrightarrow> c < d"
  by (simp add: word_less_nat_alt unat_hex_char)

lemma hex_char_eq:
  "c \<in> set nibbles \<Longrightarrow> d \<in> set nibbles \<Longrightarrow> int_to_hex_fix c = int_to_hex_fix d \<longleftrightarrow> c = d"
  by (metis hex_char_roundtrip)

lemma byte_of_nibbles: "push_bit 4 (drop_bit 4 b) OR (b AND 15) = (b :: u8)"
proof -
  have "push_bit 4 (drop_bit 4 b) OR take_bit 4 b = push_bit 4 (drop_bit 4 b) + take_bit 4 b"
    by (rule disjunctive_add [symmetric]) (simp add: bit_simps)
  then show ?thesis unfolding low_nibble_take_bit by (simp add: bits_ident)
qed

lemma byte_less_nibbles:
  "(b :: u8) < c \<longleftrightarrow>
     drop_bit 4 b < drop_bit 4 c \<or> drop_bit 4 b = drop_bit 4 c \<and> (b AND 15) < (c AND 15)"
proof -
  have "x < y \<longleftrightarrow> x div 16 < y div 16 \<or> x div 16 = y div 16 \<and> x mod 16 < y mod 16" for x y :: nat
    using div_mult_mod_eq [of x 16] div_mult_mod_eq [of y 16]
      mod_less_divisor [of 16 x] mod_less_divisor [of 16 y]
    by (cases "x div 16" "y div 16" rule: linorder_cases) linarith+
  from this [of "unat b" "unat c"] show ?thesis
    by (simp only: word_less_nat_alt word_unat_eq_iff unat_low unat_high)
qed

subsection \<open>The hexadecimal form, byte by byte\<close>

definition hex_pair :: "u8 \<Rightarrow> bytes" where
  "hex_pair b = [int_to_hex_fix (drop_bit 4 b), int_to_hex_fix (b AND 15)]"

lemma hex_pairs: "get_hex_representation a = concat (map hex_pair (hash a))"
proof -
  have "map (\<lambda>i. hex_pair (hash a ! i)) [0..<32] = map hex_pair (hash a)"
    by (rule nth_equalityI) simp_all
  then show ?thesis unfolding get_hex_representation_def by (simp add: hex_pair_def)
qed

lemma length_hex_pairs: "length (concat (map hex_pair xs)) = 2 * length xs"
  by (induction xs) (simp_all add: hex_pair_def)

lemma nth_hex_pairs:
  "i < length xs \<Longrightarrow>
     concat (map hex_pair xs) ! (2 * i) = int_to_hex_fix (drop_bit 4 (xs ! i)) \<and>
     concat (map hex_pair xs) ! (2 * i + 1) = int_to_hex_fix (xs ! i AND 15)"
proof (induction xs arbitrary: i)
  case (Cons x xs)
  then show ?case by (cases i) (auto simp: hex_pair_def)
qed simp

lemma hex_pairs_less:
  "length xs = length ys \<Longrightarrow>
     concat (map hex_pair xs) < concat (map hex_pair ys) \<longleftrightarrow> xs < ys"
proof (induction xs ys rule: list_induct2)
  case (Cons x xs y ys)
  have "x = y \<longleftrightarrow> drop_bit 4 x = drop_bit 4 y \<and> x AND 15 = y AND 15"
    by (metis byte_of_nibbles)
  with Cons show ?case
    by (auto simp: hex_pair_def Cons_less_Cons hex_char_less hex_char_eq nibble_high nibble_low
        byte_less_nibbles [of x y])
qed simp

subsection \<open>Properties\<close>

text \<open>
  The hexadecimal form loses nothing.  It has 64 characters, and converting the characters of
  each pair back with \<open>hexCharToInt\<close> and joining the nibbles gives the bytes of the hash.
\<close>

lemma hex_representation_decodes:
  "length (get_hex_representation a) = 64 \<and>
   map (\<lambda>i. push_bit 4 (hex_char_to_int (get_hex_representation a ! (2 * i)))
            OR hex_char_to_int (get_hex_representation a ! (2 * i + 1))) [0..<32] = hash a"
proof
  show "length (get_hex_representation a) = 64"
    by (simp add: hex_pairs length_hex_pairs)
  show "map (\<lambda>i. push_bit 4 (hex_char_to_int (get_hex_representation a ! (2 * i)))
            OR hex_char_to_int (get_hex_representation a ! (2 * i + 1))) [0..<32] = hash a"
  proof (rule nth_equalityI)
    fix i assume "i < length (map (\<lambda>i. push_bit 4 (hex_char_to_int (get_hex_representation a ! (2 * i)))
            OR hex_char_to_int (get_hex_representation a ! (2 * i + 1))) [0..<32])"
    then have "i < length (hash a)" by simp
    from nth_hex_pairs [OF this] this
    show "map (\<lambda>i. push_bit 4 (hex_char_to_int (get_hex_representation a ! (2 * i)))
            OR hex_char_to_int (get_hex_representation a ! (2 * i + 1))) [0..<32] ! i = hash a ! i"
      by (simp add: hex_pairs hex_char_roundtrip nibble_high nibble_low byte_of_nibbles)
  qed simp
qed

text \<open>
  \<open>operator<\<close> on identifiers, which compares the hashes with \<open>memcmp\<close>, is a strict total
  order, agrees with \<open>operator==\<close>, and orders identifiers as their hexadecimal forms are ordered
  as strings.
\<close>

lemma id_order:
  "(id_lt a b \<or> id_eq a b \<or> id_lt b a) \<and> \<not> (id_lt a b \<and> id_lt b a) \<and>
   id_eq a b = (\<not> id_lt a b \<and> \<not> id_lt b a) \<and> id_comparator a b = id_lt a b \<and>
   id_lt a b = (get_hex_representation a < get_hex_representation b)"
proof -
  have "id_lt a b = (get_hex_representation a < get_hex_representation b)"
    using hex_pairs_less [of "hash a" "hash b"] by (simp add: hex_pairs id_lt_iff)
  moreover have "a = b \<longleftrightarrow> hash a = hash b" by (simp add: hash_eq_iff)
  ultimately show ?thesis
    by (auto simp: id_lt_iff id_comparator_def id_lt_def [symmetric])
qed

end
