(* ===== verification/Buffers.thy ===== *)
theory Buffers
  imports Errors Ids Ordered_Maps
begin

section \<open>Serialisation buffers\<close>

text \<open>
  \<open>transport/Buffer.h\<close> and \<open>transport/Buffer.cpp\<close>: a heap block, its length and a cursor,
  with the templated \<open>read\<close> and \<open>write\<close> operations.  The block is \<open>None\<close> for the null
  pointer.  A store or load outside the block, or through the null pointer, is undefined
  behaviour and ends the operation with \<open>UB\<close>; the bounds checks of the code are those it makes,
  in 32-bit unsigned arithmetic (\<open>len - offset\<close> wraps when the cursor is past the end).
  Integers are stored in the byte order of the little-endian hosts the build targets.
\<close>

record buffer =
  bdata :: "bytes option"
  blen :: u32
  boffset :: u32

subsection \<open>Construction and moves\<close>

definition buffer_default :: buffer where
  "buffer_default = \<lparr>bdata = None, blen = 0, boffset = 0\<rparr>"

text \<open>\<open>new uint8_t[len]\<close> leaves the block indeterminate: \<open>fresh\<close> supplies its bytes.\<close>

definition buffer_alloc :: "(nat \<Rightarrow> u8) \<Rightarrow> u32 \<Rightarrow> u32 \<Rightarrow> buffer" where
  "buffer_alloc fresh len offset =
     \<lparr>bdata = (if 0 < len then Some (map fresh [0..<unat len]) else None),
      blen = len, boffset = offset\<rparr>"

definition buffer_of_ptr :: "bytes \<Rightarrow> u32 \<Rightarrow> buffer" where
  "buffer_of_ptr block len = \<lparr>bdata = Some block, blen = len, boffset = 0\<rparr>"

definition buffer_of_vector :: "bytes \<Rightarrow> buffer" where
  "buffer_of_vector initValue = \<lparr>bdata = Some initValue, blen = 0, boffset = 0\<rparr>"

text \<open>Move construction and assignment: the new owner and what is left in the source.\<close>

definition buffer_move :: "buffer \<Rightarrow> buffer \<times> buffer" where
  "buffer_move src =
     (\<lparr>bdata = bdata src, blen = blen src, boffset = boffset src\<rparr>, src\<lparr>bdata := None\<rparr>)"

definition buffer_assign :: "buffer \<Rightarrow> buffer \<Rightarrow> buffer \<times> buffer" where
  "buffer_assign dst src =
     (dst\<lparr>bdata := bdata src, boffset := boffset src, blen := blen src\<rparr>, src\<lparr>bdata := None\<rparr>)"

subsection \<open>Memory accesses at the cursor\<close>

definition mem_store :: "bytes \<Rightarrow> (buffer, unit) act" where
  "mem_store bs b =
     (if bs = [] then (Inr (), b)
      else case bdata b of
          None \<Rightarrow> (Inl (UB NullDereference), b)
        | Some m \<Rightarrow>
            if unat (boffset b) + length bs \<le> length m
            then (Inr (), b\<lparr>bdata := Some (poke (unat (boffset b)) bs m)\<rparr>)
            else (Inl (UB OutOfBounds), b))"

definition mem_load :: "nat \<Rightarrow> (buffer, bytes) act" where
  "mem_load n b =
     (if n = 0 then (Inr [], b)
      else case bdata b of
          None \<Rightarrow> (Inl (UB NullDereference), b)
        | Some m \<Rightarrow>
            if unat (boffset b) + n \<le> length m
            then (Inr (peek (unat (boffset b)) n m), b)
            else (Inl (UB OutOfBounds), b))"

definition advance :: "nat \<Rightarrow> buffer \<Rightarrow> buffer" where
  "advance n b = b\<lparr>boffset := boffset b + of_nat n\<rparr>"

text \<open>The check in front of every access: \<open>if (len - offset < n) throw\<close>, \<open>n\<close> a \<open>size_t\<close>.\<close>

definition need :: "nat \<Rightarrow> (buffer, unit) act" where
  "need n b =
     (if unat (blen b - boffset b) < n
      then (Inl (raise DataSerialisationException), b) else (Inr (), b))"

subsection \<open>Scalar reads and writes\<close>

definition write_int :: "'a::len word \<Rightarrow> (buffer, unit) act" where
  "write_int val =
     andthen (need (sizeof TYPE('a word))) (\<lambda>_.
     andthen (mem_store (int_bytes val)) (\<lambda>_.
     modify (advance (sizeof TYPE('a word)))))"

definition read_int :: "(buffer, 'a::len word) act" where
  "read_int =
     andthen (need (sizeof TYPE('a word))) (\<lambda>_.
     andthen (mem_load (sizeof TYPE('a word))) (\<lambda>bs.
     andthen (modify (advance (sizeof TYPE('a word)))) (\<lambda>_.
     ret (bytes_int bs))))"

text \<open>\<open>writeData(data, len)\<close> copies \<open>len\<close> bytes of the source, which must hold that many.\<close>

definition write_data :: "bytes \<Rightarrow> u32 \<Rightarrow> (buffer, unit) act" where
  "write_data data len =
     andthen (need (unat len)) (\<lambda>_.
     andthen (if unat len \<le> length data then mem_store (take (unat len) data)
              else fail (UB OutOfBounds)) (\<lambda>_.
     modify (advance (unat len))))"

definition read_data :: "u32 \<Rightarrow> (buffer, bytes) act" where
  "read_data len =
     andthen (need (unat len)) (\<lambda>_.
     andthen (mem_load (unat len)) (\<lambda>bs.
     andthen (modify (advance (unat len))) (\<lambda>_.
     ret bs)))"

definition write_id :: "id \<Rightarrow> (buffer, unit) act" where
  "write_id i =
     andthen (need 32) (\<lambda>_.
     andthen (mem_store (hash i)) (\<lambda>_.
     modify (advance 32)))"

definition read_id :: "(buffer, id) act" where
  "read_id =
     andthen (need 32) (\<lambda>_.
     andthen (mem_load 32) (\<lambda>bs.
     andthen (modify (advance 32)) (\<lambda>_.
     ret (mk_id bs))))"

text \<open>\<open>crypto::Signature\<close> is an array of 72 bytes, \<open>core::PublicKey\<close> a vector of bytes.\<close>

definition write_signature :: "bytes \<Rightarrow> (buffer, unit) act" where
  "write_signature sign = write_data sign 72"

definition read_signature :: "(buffer, bytes) act" where
  "read_signature = read_data 72"

definition write_public_key :: "bytes \<Rightarrow> (buffer, unit) act" where
  "write_public_key key = write_data key (of_nat (length key))"

definition read_public_key :: "(buffer, bytes) act" where
  "read_public_key = (let key = ([] :: bytes) in read_data (of_nat (length key)))"

text \<open>
  \<open>write(std::string &)\<close> checks the room for the length and the characters together, in 64-bit
  arithmetic, then writes the 32-bit length and copies the characters.
\<close>

definition write_string :: "bytes \<Rightarrow> (buffer, unit) act" where
  "write_string str =
     andthen (need (length str + 4)) (\<lambda>_.
     andthen (write_int (of_nat (length str) :: u32)) (\<lambda>_.
     andthen (mem_store str) (\<lambda>_.
     modify (advance (length str)))))"

definition read_string :: "(buffer, bytes) act" where
  "read_string =
     andthen read_int (\<lambda>size :: u32.
     andthen (need (unat size)) (\<lambda>_.
     andthen (mem_load (unat size)) (\<lambda>bs.
     andthen (modify (advance (unat size))) (\<lambda>_.
     ret bs))))"

subsection \<open>Sequences and maps\<close>

primrec write_each :: "('a \<Rightarrow> (buffer, unit) act) \<Rightarrow> 'a list \<Rightarrow> (buffer, unit) act" where
  "write_each wr [] = ret ()"
| "write_each wr (x # xs) = andthen (wr x) (\<lambda>_. write_each wr xs)"

definition write_vec :: "('a \<Rightarrow> (buffer, unit) act) \<Rightarrow> 'a list \<Rightarrow> (buffer, unit) act" where
  "write_vec wr vec =
     andthen (write_int (of_nat (length vec) :: u32)) (\<lambda>_. write_each wr vec)"

text \<open>
  \<open>for (int i = 0; i < size; ++i)\<close>: the loop of \<open>readVec\<close> with \<open>k\<close> rounds left.  The counter
  is a signed 32-bit integer, so counting past \<open>2^31 - 1\<close> overflows.
\<close>

definition count_up :: "nat \<Rightarrow> ('s, unit) act" where
  "count_up i = (if Suc i = 2 ^ 31 then fail (UB SignedOverflow) else ret ())"

primrec read_each :: "(buffer, 'a) act \<Rightarrow> nat \<Rightarrow> nat \<Rightarrow> 'a list \<Rightarrow> (buffer, 'a list) act" where
  "read_each rd 0 i vec = ret vec"
| "read_each rd (Suc k) i vec =
     andthen rd (\<lambda>x. andthen (count_up i) (\<lambda>_. read_each rd k (Suc i) (vec @ [x])))"

text \<open>The size and the loop, without the reservation.\<close>

definition read_counted :: "(buffer, 'a) act \<Rightarrow> (buffer, 'a list) act" where
  "read_counted rd = andthen read_int (\<lambda>size :: u32. read_each rd (unat size) 0 [])"

text \<open>
  \<open>vec.reserve(size)\<close> asks for the memory of as many elements as the bytes claim.  Whether there is room
  for \<open>n\<close> elements is up to the standard library: \<open>reserve n\<close> is the exception it throws, if it does.
\<close>

definition reserve_room :: "(nat \<Rightarrow> std_exn option) \<Rightarrow> nat \<Rightarrow> ('s, unit) act" where
  "reserve_room reserve n = (case reserve n of None \<Rightarrow> ret () | Some x \<Rightarrow> fail (ThrowStd x))"

definition read_vec :: "(nat \<Rightarrow> std_exn option) \<Rightarrow> (buffer, 'a) act \<Rightarrow> (buffer, 'a list) act" where
  "read_vec reserve rd =
     andthen read_int (\<lambda>size :: u32.
     andthen (reserve_room reserve (unat size)) (\<lambda>_. read_each rd (unat size) 0 []))"

definition write_pair ::
  "('k \<Rightarrow> (buffer, unit) act) \<Rightarrow> ('v \<Rightarrow> (buffer, unit) act) \<Rightarrow> 'k \<times> 'v \<Rightarrow> (buffer, unit) act" where
  "write_pair wk wv e = andthen (wk (fst e)) (\<lambda>_. wv (snd e))"

definition read_pair :: "(buffer, 'k) act \<Rightarrow> (buffer, 'v) act \<Rightarrow> (buffer, 'k \<times> 'v) act" where
  "read_pair rk rv = andthen rk (\<lambda>k. andthen rv (\<lambda>v. ret (k, v)))"

definition write_map ::
  "('k::linorder \<Rightarrow> (buffer, unit) act) \<Rightarrow> ('v \<Rightarrow> (buffer, unit) act)
     \<Rightarrow> ('k, 'v) omap \<Rightarrow> (buffer, unit) act" where
  "write_map wk wv m =
     andthen (write_int (of_nat (length m) :: u32)) (\<lambda>_. write_each (write_pair wk wv) m)"

primrec read_map_each ::
  "(buffer, 'k::linorder) act \<Rightarrow> (buffer, 'v) act \<Rightarrow> nat \<Rightarrow> nat \<Rightarrow> ('k, 'v) omap
     \<Rightarrow> (buffer, ('k, 'v) omap) act" where
  "read_map_each rk rv 0 i m = ret m"
| "read_map_each rk rv (Suc n) i m =
     andthen rk (\<lambda>k. andthen rv (\<lambda>v. andthen (count_up i) (\<lambda>_.
       read_map_each rk rv n (Suc i) (om_put k v m))))"

definition read_map ::
  "(buffer, 'k::linorder) act \<Rightarrow> (buffer, 'v) act \<Rightarrow> (buffer, ('k, 'v) omap) act" where
  "read_map rk rv = andthen read_int (\<lambda>size :: u32. read_map_each rk rv (unat size) 0 [])"

subsection \<open>Whole-buffer operations\<close>

definition to_blob :: "buffer \<Rightarrow> err + bytes" where
  "to_blob b =
     (if blen b = 0 then Inr []
      else case bdata b of
          None \<Rightarrow> Inl (UB NullDereference)
        | Some m \<Rightarrow>
            if unat (blen b) \<le> length m then Inr (take (unat (blen b)) m)
            else Inl (UB OutOfBounds))"

definition assert_fully_used :: "(buffer, unit) act" where
  "assert_fully_used b =
     (if boffset b \<noteq> blen b then (Inl (raise DataSerialisationException), b) else (Inr (), b))"

subsection \<open>Size computation\<close>

definition calc_size_int :: "'a::len word itself \<Rightarrow> u32" where
  "calc_size_int t = of_nat (sizeof t)"

definition calc_size_id :: u32 where
  "calc_size_id = 32"

definition calc_size_public_key :: u32 where
  "calc_size_public_key = 33"

definition calc_size_node :: u32 where
  "calc_size_node = calc_size_public_key"

definition calc_size_string :: "bytes \<Rightarrow> u32" where
  "calc_size_string s = calc_size_int TYPE(32 word) + of_nat (length s)"


subsection \<open>Well-formed buffers\<close>

text \<open>
  The class invariant: the cursor is within the length and the block has that length (a null
  block goes with length 0).  \<open>fits\<close>, \<open>put\<close> and \<open>view\<close> are the abstract cursor operations the
  code's checked accesses implement.
\<close>

definition content :: "buffer \<Rightarrow> bytes" where
  "content b = (case bdata b of None \<Rightarrow> [] | Some m \<Rightarrow> m)"

definition buf_ok :: "buffer \<Rightarrow> bool" where
  "buf_ok b \<longleftrightarrow>
     unat (boffset b) \<le> unat (blen b) \<and> length (content b) = unat (blen b)"

definition fits :: "buffer \<Rightarrow> nat \<Rightarrow> bool" where
  "fits b n \<longleftrightarrow> unat (boffset b) + n \<le> unat (blen b)"

definition put :: "bytes \<Rightarrow> buffer \<Rightarrow> buffer" where
  "put bs b = advance (length bs)
     (b\<lparr>bdata := map_option (poke (unat (boffset b)) bs) (bdata b)\<rparr>)"

definition view :: "nat \<Rightarrow> buffer \<Rightarrow> bytes" where
  "view n b = peek (unat (boffset b)) n (content b)"

definition rewind :: "u32 \<Rightarrow> buffer \<Rightarrow> buffer" where
  "rewind off b = b\<lparr>boffset := off\<rparr>"

lemma advance_simps [simp]:
  "bdata (advance n b) = bdata b" "blen (advance n b) = blen b"
  "content (advance n b) = content b" "advance 0 b = b"
  by (simp_all add: advance_def content_def)

lemma map_option_poke_Nil [simp]: "map_option (poke off []) m = m"
  by (cases m) simp_all

lemma put_simps [simp]: "blen (put bs b) = blen b" "put [] b = b"
  by (simp_all add: put_def)

lemma rewind_simps [simp]:
  "blen (rewind off b) = blen b" "boffset (rewind off b) = off"
  "content (rewind off b) = content b"
  by (simp_all add: rewind_def content_def)

lemma pos_advance: "fits b n \<Longrightarrow> unat (boffset (advance n b)) = unat (boffset b) + n"
  by (simp add: fits_def advance_def unat_add_fits)

lemma pos_put: "fits b (length bs) \<Longrightarrow> unat (boffset (put bs b)) = unat (boffset b) + length bs"
  by (simp add: fits_def put_def advance_def unat_add_fits)

lemma buf_ok_advance [simp]: "buf_ok b \<Longrightarrow> fits b n \<Longrightarrow> buf_ok (advance n b)"
  using pos_advance [of b n] by (auto simp: buf_ok_def fits_def)

lemma length_content: "buf_ok b \<Longrightarrow> length (content b) = unat (blen b)"
  by (simp add: buf_ok_def)

lemma null_fits: "buf_ok b \<Longrightarrow> fits b n \<Longrightarrow> bdata b = None \<Longrightarrow> n = 0"
  by (simp add: buf_ok_def fits_def content_def)

lemma content_put:
  assumes "buf_ok b" "fits b (length bs)"
  shows "content (put bs b) = poke (unat (boffset b)) bs (content b)"
proof (cases "bdata b")
  case None
  with null_fits [OF assms] have "bs = []" by simp
  then show ?thesis by simp
qed (simp add: put_def content_def advance_def)

lemma buf_ok_put [simp]:
  assumes "buf_ok b" "fits b (length bs)"
  shows "buf_ok (put bs b)"
  using assms pos_put [of b bs] content_put [OF assms] by (simp add: buf_ok_def fits_def)

lemma fits_advance: "fits b (m + n) \<Longrightarrow> fits (advance m b) n"
  using pos_advance [of b m] by (simp add: fits_def)

lemma fits_advance_iff: "fits b m \<Longrightarrow> fits (advance m b) n \<longleftrightarrow> fits b (m + n)"
  using pos_advance [of b m] by (simp add: fits_def add.assoc)

lemma fits_put_iff: "fits b (length bs) \<Longrightarrow> fits (put bs b) n \<longleftrightarrow> fits b (length bs + n)"
  using pos_put [of b bs] by (simp add: fits_def add.assoc)

lemma fits_le: "fits b n \<Longrightarrow> m \<le> n \<Longrightarrow> fits b m"
  by (simp add: fits_def)

lemma fits_0 [simp]: "buf_ok b \<Longrightarrow> fits b 0"
  by (simp add: fits_def buf_ok_def)

lemma fits_rewind_put: "fits (rewind (boffset b) (put bs b)) n \<longleftrightarrow> fits b n"
  by (simp add: fits_def rewind_def)

lemma buf_ok_rewind_put:
  "buf_ok b \<Longrightarrow> fits b (length bs) \<Longrightarrow> buf_ok (rewind (boffset b) (put bs b))"
  using buf_ok_put [of b bs] by (auto simp: buf_ok_def)

lemma advance_advance: "advance n (advance m b) = advance (m + n) b"
  by (simp add: advance_def add.assoc)

lemma put_put:
  assumes "buf_ok b" "fits b (length as + length bs)"
  shows "put bs (put as b) = put (as @ bs) b"
proof -
  have pos: "unat (boffset (put as b)) = unat (boffset b) + length as"
    by (rule pos_put) (use assms in \<open>simp add: fits_def\<close>)
  have "poke (unat (boffset b) + length as) bs (poke (unat (boffset b)) as m) =
      poke (unat (boffset b)) (as @ bs) m" if "bdata b = Some m" for m
    by (rule poke_poke_append) (use assms that in \<open>simp add: buf_ok_def fits_def content_def\<close>)
  with pos show ?thesis
    by (cases "bdata b") (simp_all add: put_def advance_def add.assoc)
qed

lemma view_rewind_put:
  assumes "buf_ok b" "fits b (length bs)"
  shows "view (length bs) (rewind (boffset b) (put bs b)) = bs"
  using assms content_put [OF assms] by (simp add: view_def length_content fits_def)

lemma view_append: "fits b (m + n) \<Longrightarrow> view (m + n) b = view m b @ view n (advance m b)"
  using pos_advance [of b m] by (simp add: view_def peek_append fits_def)

lemma length_view: "buf_ok b \<Longrightarrow> fits b n \<Longrightarrow> length (view n b) = n"
  by (simp add: view_def length_content fits_def)

lemma view_split:
  assumes "buf_ok b" "fits b (length as + length bs)" "view (length as + length bs) b = as @ bs"
  shows "view (length as) b = as \<and> view (length bs) (advance (length as) b) = bs"
proof -
  have "length (view (length as) b) = length as"
    using assms by (intro length_view) (auto intro: fits_le)
  with assms view_append [of b "length as" "length bs"] show ?thesis by simp
qed

lemma advance_rewind_put: "advance (length bs) (rewind (boffset b) (put bs b)) = put bs b"
  by (simp add: put_def advance_def rewind_def)

subsection \<open>Checked accesses on a well-formed buffer\<close>

lemma need_ok [buf_simps]:
  "buf_ok b \<Longrightarrow>
     need n b = (if fits b n then (Inr (), b) else (Inl (raise DataSerialisationException), b))"
  by (auto simp: need_def fits_def buf_ok_def unat_sub_fits)

lemma mem_store_ok [buf_simps]:
  "buf_ok b \<Longrightarrow> fits b (length bs) \<Longrightarrow>
     mem_store bs b = (Inr (), b\<lparr>bdata := map_option (poke (unat (boffset b)) bs) (bdata b)\<rparr>)"
  using null_fits [of b "length bs"]
  by (auto simp: mem_store_def fits_def buf_ok_def content_def split: option.splits)

lemma mem_load_ok [buf_simps]:
  "buf_ok b \<Longrightarrow> fits b n \<Longrightarrow> mem_load n b = (Inr (view n b), b)"
  using null_fits [of b n]
  by (auto simp: mem_load_def fits_def buf_ok_def view_def content_def split: option.splits)

definition checked_put :: "bytes \<Rightarrow> (buffer, unit) act" where
  "checked_put bs =
     andthen (need (length bs)) (\<lambda>_. andthen (mem_store bs) (\<lambda>_. modify (advance (length bs))))"

definition checked_take :: "nat \<Rightarrow> (buffer, bytes) act" where
  "checked_take n =
     andthen (need n) (\<lambda>_. andthen (mem_load n) (\<lambda>bs.
     andthen (modify (advance n)) (\<lambda>_. ret bs)))"

lemma checked_put_ok [buf_simps]:
  "buf_ok b \<Longrightarrow>
     checked_put bs b =
       (if fits b (length bs) then (Inr (), put bs b)
        else (Inl (raise DataSerialisationException), b))"
  by (simp add: checked_put_def buf_simps act_simps put_def)

lemma checked_take_ok [buf_simps]:
  "buf_ok b \<Longrightarrow>
     checked_take n b =
       (if fits b n then (Inr (view n b), advance n b)
        else (Inl (raise DataSerialisationException), b))"
  by (simp add: checked_take_def buf_simps act_simps)

text \<open>The operations of the code as checked accesses.\<close>

lemma write_int_put: "write_int v = checked_put (int_bytes v)"
  by (simp add: write_int_def checked_put_def)

lemma read_int_take:
  "read_int = andthen (checked_take (sizeof TYPE('a::len word))) (\<lambda>bs. ret (bytes_int bs :: 'a word))"
  by (simp add: read_int_def checked_take_def andthen_assoc)

end
