(* ===== verification/Buffer_Ownership.thy ===== *)
theory Buffer_Ownership
  imports Buffers
begin

section \<open>Who frees the block of a buffer\<close>

text \<open>
  The heap blocks behind \<open>Buffer\<close> objects: which constructors of \<open>transport/Buffer.cpp\<close> allocate one,
  how moves and assignments pass it on, and what the destructor frees; with \<open>Transport::readBuffer\<close>,
  which allocates a block and only after a read that may throw makes a \<open>Buffer\<close> of it.  Objects are
  program variables (numbered); \<open>None\<close>: the variable is not alive, \<open>Some None\<close>: \<open>data\<close> is null.
\<close>

record buffer_heap =
  blocks :: "nat set"                        \<comment> \<open>allocated and not yet freed\<close>
  bufs :: "nat \<Rightarrow> nat option option"
  lost :: "nat set"                          \<comment> \<open>history: blocks whose last pointer was overwritten\<close>

definition no_buffers :: buffer_heap where
  "no_buffers = \<lparr>blocks = {}, bufs = (\<lambda>_. None), lost = {}\<rparr>"

text \<open>\<open>delete[] data\<close>; of a block that is not allocated it is undefined.\<close>

definition delete_block :: "nat option \<Rightarrow> (buffer_heap, unit) act" where
  "delete_block d s =
     (case d of
        None \<Rightarrow> (Inr (), s)
      | Some p \<Rightarrow> if p \<in> blocks s then (Inr (), s\<lparr>blocks := blocks s - {p}\<rparr>) else (Inl (UB UseAfterErase), s))"

definition buffer_construct :: "nat \<Rightarrow> nat \<Rightarrow> u32 \<Rightarrow> (buffer_heap, unit) act" where
  "buffer_construct x p len =
     modify (\<lambda>s. if 0 < len then s\<lparr>blocks := insert p (blocks s), bufs := (bufs s)(x := Some (Some p))\<rparr>
                 else s\<lparr>bufs := (bufs s)(x := Some None)\<rparr>)"

definition buffer_construct_move :: "nat \<Rightarrow> nat \<Rightarrow> (buffer_heap, unit) act" where
  "buffer_construct_move x y = modify (\<lambda>s. s\<lparr>bufs := (bufs s)(x := bufs s y, y := Some None)\<rparr>)"

text \<open>The assignment overwrites \<open>data\<close> without freeing it, also when it assigns an object to itself.\<close>

definition pointed :: "nat option option \<Rightarrow> nat set" where
  "pointed b = (case b of Some (Some p) \<Rightarrow> {p} | _ \<Rightarrow> {})"

definition buffer_move_assign :: "nat \<Rightarrow> nat \<Rightarrow> (buffer_heap, unit) act" where
  "buffer_move_assign x y =
     modify (\<lambda>s. s\<lparr>bufs := ((bufs s)(x := bufs s y))(y := Some None), lost := lost s \<union> pointed (bufs s x)\<rparr>)"

definition buffer_destroy :: "nat \<Rightarrow> (buffer_heap, unit) act" where
  "buffer_destroy x s =
     andthen (delete_block (the (bufs s x))) (\<lambda>_. modify (\<lambda>s. s\<lparr>bufs := (bufs s)(x := None)\<rparr>)) s"

text \<open>\<open>threw\<close>: the read threw, and the raw pointer goes out of scope.\<close>

definition read_buffer_block :: "nat \<Rightarrow> nat \<Rightarrow> bool \<Rightarrow> (buffer_heap, unit) act" where
  "read_buffer_block x p threw =
     modify (\<lambda>s. if threw then s\<lparr>blocks := insert p (blocks s), lost := insert p (lost s)\<rparr>
                 else s\<lparr>blocks := insert p (blocks s), bufs := (bufs s)(x := Some (Some p))\<rparr>)"

datatype buffer_op =
    Construct nat nat u32
  | ConstructMove nat nat
  | MoveAssign nat nat
  | ReadBuffer nat nat bool
  | Destroy nat

text \<open>Variables are constructed once, only live ones are used, and \<open>new\<close> gives a fresh address.\<close>

fun buffer_do :: "buffer_op \<Rightarrow> buffer_heap \<Rightarrow> ((err + unit) \<times> buffer_heap) option" where
  "buffer_do (Construct x p len) s =
     (if bufs s x = None \<and> p \<notin> blocks s then Some (buffer_construct x p len s) else None)"
| "buffer_do (ConstructMove x y) s =
     (if bufs s x = None \<and> bufs s y \<noteq> None then Some (buffer_construct_move x y s) else None)"
| "buffer_do (MoveAssign x y) s =
     (if bufs s x \<noteq> None \<and> bufs s y \<noteq> None then Some (buffer_move_assign x y s) else None)"
| "buffer_do (ReadBuffer x p threw) s =
     (if bufs s x = None \<and> p \<notin> blocks s then Some (read_buffer_block x p threw s) else None)"
| "buffer_do (Destroy x) s = (if bufs s x \<noteq> None then Some (buffer_destroy x s) else None)"

inductive buffer_reach :: "buffer_heap \<Rightarrow> bool" where
  init: "buffer_reach no_buffers"
| step: "buffer_reach s \<Longrightarrow> buffer_do e s = Some (r, t) \<Longrightarrow> buffer_reach t"

subsection \<open>Every block has one owner or is lost\<close>

definition blocks_owned :: "buffer_heap \<Rightarrow> bool" where
  "blocks_owned s \<longleftrightarrow>
     blocks s = lost s \<union> (\<Union>x. pointed (bufs s x)) \<and>
     (\<forall>x. pointed (bufs s x) \<inter> lost s = {}) \<and>
     (\<forall>x y. x \<noteq> y \<longrightarrow> pointed (bufs s x) \<inter> pointed (bufs s y) = {})"

lemma pointed_simps [simp]: "pointed None = {}" "pointed (Some None) = {}" "pointed (Some (Some p)) = {p}"
  by (simp_all add: pointed_def)

lemma pointed_upd: "(\<Union>z. pointed ((f(x := v)) z)) = pointed v \<union> (\<Union>z\<in>-{x}. pointed (f z))"
  by (auto split: if_splits)

text \<open>The blocks a step leaves behind.\<close>

fun newly_lost :: "buffer_op \<Rightarrow> buffer_heap \<Rightarrow> nat set" where
  "newly_lost (MoveAssign x y) s = pointed (bufs s x)"
| "newly_lost (ReadBuffer x p threw) s = (if threw then {p} else {})"
| "newly_lost _ s = {}"

lemma owned_new:
  assumes "blocks_owned s" "bufs s x = None" "p \<notin> blocks s"
  shows "blocks_owned (s\<lparr>blocks := insert p (blocks s), bufs := (bufs s)(x := Some (Some p))\<rparr>)"
proof -
  have x: "pointed (bufs s x) = {}" by (simp add: assms(2))
  with assms(1,3) show ?thesis unfolding blocks_owned_def by (fastforce split: if_splits)
qed

lemma owned_pass:
  assumes "blocks_owned s"
  shows "blocks_owned (s\<lparr>bufs := ((bufs s)(x := bufs s y))(y := Some None), lost := lost s \<union> pointed (bufs s x)\<rparr>)"
proof (cases "x = y")
  case True
  with assms show ?thesis unfolding blocks_owned_def by (fastforce split: if_splits)
next
  case False
  with assms show ?thesis unfolding blocks_owned_def disjoint_iff
    by (auto split: if_splits) metis+
qed

lemma owned_delete:
  assumes "blocks_owned s" "bufs s x = Some (Some p)"
  shows "p \<in> blocks s \<and> blocks_owned (s\<lparr>blocks := blocks s - {p}, bufs := (bufs s)(x := None)\<rparr>)"
proof
  have px: "pointed (bufs s x) = {p}" by (simp add: assms(2))
  with assms(1) show "p \<in> blocks s" unfolding blocks_owned_def by blast
  from assms(1) px show "blocks_owned (s\<lparr>blocks := blocks s - {p}, bufs := (bufs s)(x := None)\<rparr>)"
    unfolding blocks_owned_def by (fastforce split: if_splits)
qed

lemma owned_null:
  assumes "blocks_owned s" "pointed (bufs s x) = {}" "pointed v = {}"
  shows "blocks_owned (s\<lparr>bufs := (bufs s)(x := v)\<rparr>)"
  using assms unfolding blocks_owned_def by (fastforce split: if_splits)

lemma owned_lost:
  assumes "blocks_owned s" "p \<notin> blocks s"
  shows "blocks_owned (s\<lparr>blocks := insert p (blocks s), lost := insert p (lost s)\<rparr>)"
  using assms unfolding blocks_owned_def by auto

lemma buffer_step:
  assumes "blocks_owned s" "buffer_do e s = Some (r, t)"
  shows "r = Inr () \<and> blocks_owned t \<and> lost t = lost s \<union> newly_lost e s"
proof (cases e)
  case (Construct x p len)
  with assms owned_new [of s x p] owned_null [of s x "Some None"] show ?thesis
    by (auto simp: buffer_construct_def modify_run split: if_splits)
next
  case (ConstructMove x y)
  with assms owned_pass [of s x y] show ?thesis
    by (auto simp: buffer_construct_move_def modify_run split: if_splits)
next
  case (MoveAssign x y)
  with assms owned_pass [of s x y] show ?thesis
    by (auto simp: buffer_move_assign_def modify_run split: if_splits)
next
  case (ReadBuffer x p threw)
  with assms owned_new [of s x p] owned_lost [of s p] show ?thesis
    by (auto simp: read_buffer_block_def modify_run split: if_splits)
next
  case (Destroy x)
  with assms(2) obtain d where d: "bufs s x = Some d" "buffer_destroy x s = (r, t)"
    by (auto split: if_splits)
  show ?thesis
  proof (cases d)
    case None
    with d Destroy owned_null [OF assms(1), of x None] show ?thesis
      by (auto simp: buffer_destroy_def delete_block_def andthen_def modify_run)
  next
    case (Some p)
    with d Destroy owned_delete [OF assms(1), of x p] show ?thesis
      by (auto simp: buffer_destroy_def delete_block_def andthen_def modify_run)
  qed
qed

lemma blocks_owned_reach: "buffer_reach s \<Longrightarrow> blocks_owned s"
proof (induction rule: buffer_reach.induct)
  case (step s e r t)
  then show ?case using buffer_step by blast
qed (simp add: blocks_owned_def no_buffers_def)

subsection \<open>Properties\<close>

text \<open>
  No block is freed twice, and which are never freed.  Whatever is constructed, moved, assigned, read
  into and destroyed, no destructor frees a block that is not allocated; a block is lost exactly when an
  assignment overwrites the pointer of its target, or \<open>readBuffer\<close> is left by an exception; and when
  all objects are gone, the blocks still allocated are the lost ones.
\<close>

lemma buffer_blocks_freed:
  assumes "buffer_reach s" "buffer_do e s = Some (r, t)"
  shows "r = Inr () \<and> lost t = lost s \<union> newly_lost e s \<and> ((\<forall>x. bufs t x = None) \<longrightarrow> blocks t = lost t)"
  using buffer_step [OF blocks_owned_reach [OF assms(1)] assms(2)] by (auto simp: blocks_owned_def)

text \<open>A request buffer that is assigned a second time, and both objects destroyed.\<close>

lemma buffer_blocks_freed_witness:
  "\<exists>s t. buffer_reach s \<and> buffer_do (Destroy 1) s = Some (Inr (), t) \<and> blocks t = {10}"
proof -
  have step: "buffer_reach t" if "buffer_reach s" "buffer_do e s = Some (r, t)" for s e r t
    using that by (rule buffer_reach.step)
  let ?b = "\<lparr>blocks = {10, 11}, bufs = (\<lambda>_. None)(0 := Some None, 1 := Some None), lost = {10}\<rparr>"
  have "buffer_reach \<lparr>blocks = {10}, bufs = (\<lambda>_. None)(0 := Some (Some 10)), lost = {}\<rparr>"
    by (rule step [OF buffer_reach.init, of "Construct 0 10 4" "Inr ()"])
      (simp add: no_buffers_def buffer_construct_def modify_run)
  from step [OF this, of "Construct 1 11 4" "Inr ()"]
  have "buffer_reach \<lparr>blocks = {11, 10}, bufs = (\<lambda>_. None)(0 := Some (Some 10), 1 := Some (Some 11)), lost = {}\<rparr>"
    by (simp add: buffer_construct_def modify_run)
  from step [OF this, of "MoveAssign 0 1" "Inr ()"]
  have "buffer_reach \<lparr>blocks = {11, 10}, bufs = (\<lambda>_. None)(0 := Some (Some 11), 1 := Some None), lost = {10}\<rparr>"
    by (simp add: buffer_move_assign_def modify_run fun_upd_twist)
  from step [OF this, of "Destroy 0" "Inr ()"]
  have r: "buffer_reach \<lparr>blocks = {10}, bufs = (\<lambda>_. None)(1 := Some None), lost = {10}\<rparr>" (is "buffer_reach ?s")
    by (simp add: buffer_destroy_def delete_block_def andthen_def modify_run fun_upd_twist insert_Diff_if)
  have d: "buffer_do (Destroy 1) ?s = Some (Inr (), ?s\<lparr>bufs := \<lambda>_. None\<rparr>)"
    by (simp add: buffer_destroy_def delete_block_def andthen_def modify_run)
  with buffer_blocks_freed [OF r d] r show ?thesis by auto
qed

end
