(* ===== verification/Codecs.thy ===== *)
theory Codecs
  imports Buffers
begin

section \<open>Reads that invert writes\<close>

text \<open>
  What a pair of \<open>Buffer::write<T>\<close> and \<open>Buffer::read<T>\<close> promises, as the locale \<open>codec\<close>: the
  write stores the encoding when it fits and throws when it does not, the read gives the value
  back, and on any bytes at all the read stays inside the block.  Vectors and maps are lifted
  from an element codec once, inside the locale; the code's own operations interpret it.
\<close>

lemma write_data_put: "unat len = length data \<Longrightarrow> write_data data len = checked_put data"
  by (simp add: write_data_def checked_put_def)

lemma read_data_take: "read_data len = checked_take (unat len)"
  by (simp add: read_data_def checked_take_def)

lemma write_id_put: "write_id i = checked_put (hash i)"
  by (simp add: write_id_def checked_put_def)

lemma read_id_take: "read_id = andthen (checked_take 32) (\<lambda>bs. ret (mk_id bs))"
  by (simp add: read_id_def checked_take_def andthen_assoc)

lemma read_string_take:
  "read_string = andthen read_int (\<lambda>size :: u32. checked_take (unat size))"
  by (simp add: read_string_def checked_take_def)

text \<open>Outcome of a read on arbitrary bytes: a value with progress, or the exception.\<close>

definition safe_read :: "buffer \<Rightarrow> (err + 'a) \<times> buffer \<Rightarrow> bool" where
  "safe_read b r \<longleftrightarrow>
     buf_ok (snd r) \<and> blen (snd r) = blen b \<and> content (snd r) = content b \<and>
     (case fst r of
        Inl e \<Rightarrow> e = raise DataSerialisationException \<and> boffset b \<le> boffset (snd r)
      | Inr _ \<Rightarrow> boffset b < boffset (snd r))"

lemma safe_read_take:
  assumes "buf_ok b" "0 < n"
  shows "safe_read b (checked_take n b)"
  using assms pos_advance [of b n]
  by (auto simp: safe_read_def buf_simps word_less_nat_alt)

lemma safe_read_bind:
  assumes "safe_read b (m b)"
    and "\<And>x t. m b = (Inr x, t) \<Longrightarrow> buf_ok t \<Longrightarrow> blen t = blen b \<Longrightarrow> content t = content b \<Longrightarrow>
           boffset b < boffset t \<Longrightarrow> safe_read t (f x t) \<or> f x t = (Inr y, t)"
  shows "safe_read b (andthen m f b)"
  using assms
  by (fastforce simp: safe_read_def andthen_def split: prod.splits sum.splits)

locale codec =
  fixes wr :: "'a \<Rightarrow> (buffer, unit) act"
    and rd :: "(buffer, 'a) act"
    and enc :: "'a \<Rightarrow> bytes"
    and okv :: "'a \<Rightarrow> bool"
  assumes wr_fits: "buf_ok b \<Longrightarrow> okv x \<Longrightarrow> fits b (length (enc x)) \<Longrightarrow>
      wr x b = (Inr (), put (enc x) b)"
    and wr_full: "buf_ok b \<Longrightarrow> okv x \<Longrightarrow> \<not> fits b (length (enc x)) \<Longrightarrow>
      \<exists>t. wr x b = (Inl (raise DataSerialisationException), t) \<and> buf_ok t"
    and rd_back: "buf_ok b \<Longrightarrow> okv x \<Longrightarrow> fits b (length (enc x)) \<Longrightarrow>
      view (length (enc x)) b = enc x \<Longrightarrow> rd b = (Inr x, advance (length (enc x)) b)"
    and rd_safe: "buf_ok b \<Longrightarrow> unat (blen b) < 2 ^ 31 \<Longrightarrow> safe_read b (rd b)"
begin

text \<open>Writing a value and reading it back from where it was written.\<close>

lemma roundtrip:
  assumes "buf_ok b" "okv x" "fits b (length (enc x))"
  shows "wr x b = (Inr (), put (enc x) b) \<and>
    rd (rewind (boffset b) (put (enc x) b)) = (Inr x, put (enc x) b)"
  using assms rd_back [of "rewind (boffset b) (put (enc x) b)" x]
  by (simp add: wr_fits buf_ok_rewind_put fits_rewind_put view_rewind_put advance_rewind_put)

lemma write_each_fits:
  assumes "buf_ok b" "\<forall>x\<in>set xs. okv x" "fits b (length (concat (map enc xs)))"
  shows "write_each wr xs b = (Inr (), put (concat (map enc xs)) b)"
  using assms
proof (induction xs arbitrary: b)
  case Nil
  then show ?case by (simp add: act_simps)
next
  case (Cons x xs)
  have f: "fits b (length (enc x))"
    by (rule fits_le [OF Cons.prems(3)]) simp
  have "write_each wr xs (put (enc x) b) =
      (Inr (), put (concat (map enc xs)) (put (enc x) b))"
    using Cons f by (intro Cons.IH) (simp_all add: fits_put_iff)
  with Cons.prems f show ?case
    by (simp add: act_simps wr_fits put_put)
qed

lemma write_each_full:
  assumes "buf_ok b" "\<forall>x\<in>set xs. okv x" "\<not> fits b (length (concat (map enc xs)))"
  shows "\<exists>t. write_each wr xs b = (Inl (raise DataSerialisationException), t) \<and> buf_ok t"
  using assms
proof (induction xs arbitrary: b)
  case Nil
  then show ?case by simp
next
  case (Cons x xs)
  show ?case
  proof (cases "fits b (length (enc x))")
    case True
    then have "\<exists>t. write_each wr xs (put (enc x) b) =
        (Inl (raise DataSerialisationException), t) \<and> buf_ok t"
      using Cons by (intro Cons.IH) (simp_all add: fits_put_iff)
    with True Cons.prems show ?thesis by (auto simp: act_simps wr_fits)
  next
    case False
    with Cons.prems wr_full [of b x] show ?thesis by (auto simp: act_simps)
  qed
qed

lemma read_each_back:
  assumes "buf_ok b" "\<forall>x\<in>set xs. okv x" "fits b (length (concat (map enc xs)))"
    and "view (length (concat (map enc xs))) b = concat (map enc xs)"
    and "i + length xs < 2 ^ 31"
  shows "read_each rd (length xs) i acc b =
    (Inr (acc @ xs), advance (length (concat (map enc xs))) b)"
  using assms
proof (induction xs arbitrary: b i acc)
  case Nil
  then show ?case by (simp add: act_simps)
next
  case (Cons x xs)
  let ?n = "length (enc x)" and ?m = "length (concat (map enc xs))"
  have f: "fits b ?n" by (rule fits_le [OF Cons.prems(3)]) simp
  have v: "view ?n b = enc x" "view ?m (advance ?n b) = concat (map enc xs)"
    using view_split [of b "enc x" "concat (map enc xs)"] Cons.prems by simp_all
  have "read_each rd (length xs) (Suc i) (acc @ [x]) (advance ?n b) =
      (Inr ((acc @ [x]) @ xs), advance ?m (advance ?n b))"
    using Cons.prems f v by (intro Cons.IH) (simp_all add: fits_advance_iff)
  moreover have "rd b = (Inr x, advance ?n b)"
    using Cons.prems f v by (intro rd_back) simp_all
  moreover have "count_up i (advance ?n b) = (Inr (), advance ?n b)"
    using Cons.prems(5) by (simp add: count_up_def act_simps)
  ultimately show ?case
    by (simp add: andthen_Inr advance_advance)
qed

lemma read_each_safe:
  assumes "buf_ok b" "unat (blen b) < 2 ^ 31" "i \<le> unat (boffset b)"
  shows "safe_read b (read_each rd k i acc b) \<or> (\<exists>xs. read_each rd k i acc b = (Inr xs, b))"
  using assms
proof (induction k arbitrary: b i acc)
  case 0
  then show ?case by (simp add: act_simps)
next
  case (Suc k)
  have "safe_read b (andthen rd
     (\<lambda>x. andthen (count_up i) (\<lambda>_. read_each rd k (Suc i) (acc @ [x]))) b)"
  proof (cases "rd b")
    case (Pair r t)
    with rd_safe Suc.prems have s: "safe_read b (r, t)" by metis
    show ?thesis
    proof (cases r)
      case (Inl e)
      with Pair s show ?thesis by (simp add: andthen_Inl [of rd] safe_read_def)
    next
      case (Inr x)
      with s have t: "buf_ok t" "blen t = blen b" "boffset b < boffset t" "content t = content b"
        by (simp_all add: safe_read_def)
      then have "Suc i \<le> unat (boffset t)" using Suc.prems(3) by (simp add: word_less_nat_alt)
      moreover from this have "Suc i < 2 ^ 31" using t Suc.prems(2) by (simp add: buf_ok_def)
      ultimately show ?thesis
        using Suc.IH [of t "Suc i" "acc @ [x]"] t Suc.prems(2) Pair Inr
        by (auto simp: act_simps count_up_def safe_read_def split: sum.splits)
    qed
  qed
  then show ?case by simp
qed

end

subsection \<open>Integers, identifiers and signatures\<close>

text \<open>A fixed-width value: a checked store of \<open>n\<close> bytes against a checked load of as many.\<close>

lemma codec_fixed:
  assumes n: "0 < n"
    and enc: "\<And>x. okv x \<Longrightarrow> length (enc x) = n \<and> dec (enc x) = x \<and> wr x = checked_put (enc x)"
    and rd: "rd = andthen (checked_take n) (\<lambda>bs. ret (dec bs))"
  shows "codec wr rd enc okv"
proof
  fix b x
  assume b: "buf_ok b"
  show "safe_read b (rd b)"
    using safe_read_take [OF b n] b
    by (cases "fits b n") (simp_all add: rd andthen_def buf_simps ret_def safe_read_def)
  assume x: "okv x"
  show "wr x b = (Inr (), put (enc x) b)" if "fits b (length (enc x))"
    using that b x enc by (simp add: buf_simps)
  show "\<exists>t. wr x b = (Inl (raise DataSerialisationException), t) \<and> buf_ok t"
    if "\<not> fits b (length (enc x))"
    using that b x enc by (simp add: buf_simps)
  show "rd b = (Inr x, advance (length (enc x)) b)"
    if "fits b (length (enc x))" "view (length (enc x)) b = enc x"
    using that b enc [OF x] by (simp add: rd andthen_def buf_simps ret_def)
qed

lemma codec_int:
  assumes "8 dvd LENGTH('a::len)"
  shows "codec write_int (read_int :: (buffer, 'a word) act) int_bytes (\<lambda>_. True)"
proof (rule codec_fixed [OF _ _ read_int_take])
  have "0 < LENGTH('a)" by simp
  with assms show "0 < sizeof TYPE('a word)"
    by (auto simp: sizeof_def dest: dvd_imp_le)
qed (use assms in \<open>simp_all add: bytes_int_int_bytes write_int_put\<close>)

interpretation u8c: codec write_int "read_int :: (buffer, u8) act" int_bytes "\<lambda>_. True"
  by (rule codec_int) simp

interpretation u16c: codec write_int "read_int :: (buffer, u16) act" int_bytes "\<lambda>_. True"
  by (rule codec_int) simp

interpretation u32c: codec write_int "read_int :: (buffer, u32) act" int_bytes "\<lambda>_. True"
  by (rule codec_int) simp

interpretation u64c: codec write_int "read_int :: (buffer, u64) act" int_bytes "\<lambda>_. True"
  by (rule codec_int) simp

interpretation idc: codec write_id read_id hash "\<lambda>_. True"
  by (rule codec_fixed [OF _ _ read_id_take]) (simp_all add: write_id_put)

interpretation sigc: codec write_signature read_signature "\<lambda>s. s" "\<lambda>s. length s = 72"
  by (rule codec_fixed [where n = 72 and dec = "\<lambda>bs. bs"])
    (simp_all add: write_signature_def read_signature_def write_data_put read_data_take)

subsection \<open>Strings\<close>

lemma write_string_ok:
  assumes "buf_ok b"
  shows "write_string str b =
    (if fits b (length str + 4)
     then (Inr (), put (int_bytes (of_nat (length str) :: u32) @ str) b)
     else (Inl (raise DataSerialisationException), b))"
proof (cases "fits b (length str + 4)")
  case True
  let ?h = "int_bytes (of_nat (length str) :: u32)"
  have f: "fits b (length ?h)" "fits b 4" using True by (auto intro: fits_le)
  then have g: "fits (put ?h b) (length str)"
    using True by (simp add: fits_put_iff add.commute)
  have "write_int (of_nat (length str) :: u32) b = (Inr (), put ?h b)"
    using assms f by (simp add: u32c.wr_fits)
  moreover have "buf_ok (put ?h b)" using assms f by simp
  ultimately have "write_string str b = (Inr (), put str (put ?h b))"
    using True g assms
    by (simp add: write_string_def need_ok andthen_Inr mem_store_ok modify_run put_def [of str])
  with True assms show ?thesis by (simp add: put_put add.commute)
next
  case False
  with assms show ?thesis by (simp add: write_string_def need_ok andthen_def)
qed

lemma safe_read_after:
  assumes "safe_read b (m b)"
    and "\<And>x t. m b = (Inr x, t) \<Longrightarrow> buf_ok t \<Longrightarrow> blen t = blen b \<Longrightarrow>
           safe_read t (f x t) \<or> (\<exists>y. f x t = (Inr y, t))"
  shows "safe_read b (andthen m f b)"
proof (cases "m b")
  case (Pair r t)
  show ?thesis
  proof (cases r)
    case (Inl e)
    with assms(1) Pair show ?thesis by (simp add: andthen_Inl safe_read_def)
  next
    case (Inr x)
    with assms(1) Pair have t: "buf_ok t" "blen t = blen b" "content t = content b" "boffset b < boffset t"
      by (simp_all add: safe_read_def)
    with assms(2) [of x t] Pair Inr show ?thesis
      by (auto simp: andthen_Inr safe_read_def split: sum.splits)
  qed
qed

interpretation strc: codec write_string read_string
  "\<lambda>s. int_bytes (of_nat (length s) :: u32) @ s" "\<lambda>s. length s < 2 ^ 32"
proof
  fix b :: buffer and x :: bytes
  let ?h = "int_bytes (of_nat (length x) :: u32)"
  assume b: "buf_ok b"
  show "safe_read b (read_string b)" if "unat (blen b) < 2 ^ 31"
    unfolding read_string_take
  proof (rule safe_read_after)
    show "safe_read b (read_int b :: (err + u32) \<times> buffer)" using b that by (rule u32c.rd_safe)
    fix n :: u32 and t assume t: "buf_ok t"
    show "safe_read t (checked_take (unat n) t) \<or> (\<exists>y. checked_take (unat n) t = (Inr y, t))"
      using safe_read_take [OF t, of "unat n"] t
      by (cases "unat n = 0") (simp_all add: checked_take_ok)
  qed
  assume x: "length x < 2 ^ 32"
  show "write_string x b = (Inr (), put (?h @ x) b)" if "fits b (length (?h @ x))"
    using that b by (simp add: write_string_ok add.commute)
  show "\<exists>t. write_string x b = (Inl (raise DataSerialisationException), t) \<and> buf_ok t"
    if "\<not> fits b (length (?h @ x))"
    using that b by (simp add: write_string_ok add.commute)
  assume f: "fits b (length (?h @ x))" and v: "view (length (?h @ x)) b = ?h @ x"
  have f4: "fits b (length ?h)" by (rule fits_le [OF f]) simp
  have w: "view (length ?h) b = ?h" "view (length x) (advance (length ?h) b) = x"
    using view_split [of b ?h x] b f v by simp_all
  have "read_int b = (Inr (of_nat (length x) :: u32), advance (length ?h) b)"
    using b f4 w by (intro u32c.rd_back) simp_all
  moreover have "unat (of_nat (length x) :: u32) = length x"
    using x by (simp add: unat_of_nat)
  ultimately show "read_string b = (Inr x, advance (length (?h @ x)) b)"
    using b f f4 w
    by (simp add: read_string_take andthen_Inr checked_take_ok fits_advance_iff advance_advance)
qed

subsection \<open>Vectors\<close>

definition vec_bytes :: "('a \<Rightarrow> bytes) \<Rightarrow> 'a list \<Rightarrow> bytes" where
  "vec_bytes enc xs = int_bytes (of_nat (length xs) :: u32) @ concat (map enc xs)"

context codec
begin

lemma write_vec_fits:
  assumes "buf_ok b" "\<forall>x\<in>set xs. okv x" "fits b (length (vec_bytes enc xs))"
  shows "write_vec wr xs b = (Inr (), put (vec_bytes enc xs) b)"
proof -
  let ?h = "int_bytes (of_nat (length xs) :: u32)"
  have f: "fits b (length ?h)" "fits (put ?h b) (length (concat (map enc xs)))"
    using assms(3) fits_le [OF assms(3), of "length ?h"] by (simp_all add: vec_bytes_def fits_put_iff)
  then have "write_vec wr xs b = (Inr (), put (concat (map enc xs)) (put ?h b))"
    using assms by (simp add: write_vec_def andthen_Inr u32c.wr_fits write_each_fits)
  with assms show ?thesis by (simp add: put_put vec_bytes_def)
qed

lemma write_vec_full:
  assumes "buf_ok b" "\<forall>x\<in>set xs. okv x" "\<not> fits b (length (vec_bytes enc xs))"
  shows "\<exists>t. write_vec wr xs b = (Inl (raise DataSerialisationException), t) \<and> buf_ok t"
proof (cases "fits b (length (int_bytes (of_nat (length xs) :: u32)))")
  case True
  let ?h = "int_bytes (of_nat (length xs) :: u32)"
  have "\<not> fits (put ?h b) (length (concat (map enc xs)))"
    using True assms(3) by (simp add: fits_put_iff vec_bytes_def)
  with True assms write_each_full [of "put ?h b" xs] show ?thesis
    by (simp add: write_vec_def andthen_Inr u32c.wr_fits)
next
  case False
  with assms(1) u32c.wr_full [of b "of_nat (length xs)"] show ?thesis
    by (auto simp: write_vec_def andthen_Inl)
qed

lemma read_counted_back:
  assumes "buf_ok b" "length xs < 2 ^ 31" "\<forall>x\<in>set xs. okv x"
    and f: "fits b (length (vec_bytes enc xs))"
    and v: "view (length (vec_bytes enc xs)) b = vec_bytes enc xs"
  shows "read_counted rd b = (Inr xs, advance (length (vec_bytes enc xs)) b)"
proof -
  let ?h = "int_bytes (of_nat (length xs) :: u32)" and ?m = "length (concat (map enc xs))"
  have f4: "fits b (length ?h)" by (rule fits_le [OF f]) (simp add: vec_bytes_def)
  have w: "view (length ?h) b = ?h" "view ?m (advance (length ?h) b) = concat (map enc xs)"
    using view_split [of b ?h "concat (map enc xs)"] assms by (simp_all add: vec_bytes_def)
  have "read_int b = (Inr (of_nat (length xs) :: u32), advance (length ?h) b)"
    using assms(1) f4 w by (intro u32c.rd_back) simp_all
  moreover have "unat (of_nat (length xs) :: u32) = length xs"
    using assms(2) by (simp add: unat_of_nat)
  moreover have "read_each rd (length xs) 0 [] (advance (length ?h) b) =
      (Inr ([] @ xs), advance ?m (advance (length ?h) b))"
    using assms f4 w by (intro read_each_back) (simp_all add: fits_advance_iff vec_bytes_def)
  ultimately show ?thesis
    by (simp add: read_counted_def andthen_Inr advance_advance vec_bytes_def)
qed

lemma read_counted_safe:
  assumes "buf_ok b" "unat (blen b) < 2 ^ 31"
  shows "safe_read b (read_counted rd b)"
  unfolding read_counted_def
proof (rule safe_read_after)
  show "safe_read b (read_int b :: (err + u32) \<times> buffer)" using assms by (rule u32c.rd_safe)
  fix n :: u32 and t assume "buf_ok t" "blen t = blen b"
  with assms show "safe_read t (read_each rd (unat n) 0 [] t) \<or>
      (\<exists>y. read_each rd (unat n) 0 [] t = (Inr y, t))"
    by (intro read_each_safe) simp_all
qed

lemma codec_vec:
  "codec (write_vec wr) (read_counted rd) (vec_bytes enc)
     (\<lambda>xs. length xs < 2 ^ 31 \<and> (\<forall>x\<in>set xs. okv x))"
  by unfold_locales (simp_all add: write_vec_fits write_vec_full read_counted_back read_counted_safe)

end

interpretation idvec: codec "write_vec write_id" "read_counted read_id" "vec_bytes hash"
  "\<lambda>xs. length xs < 2 ^ 31 \<and> (\<forall>x\<in>set xs. True)"
  by (rule idc.codec_vec)

text \<open>
  \<open>readVec\<close> itself: it goes on like \<open>read_counted\<close> when the room can be reserved, and throws behind the count
  when it cannot.
\<close>

definition count_at :: "buffer \<Rightarrow> nat" where
  "count_at b = unat (bytes_int (view 4 b) :: u32)"

lemma read_count:
  assumes "buf_ok b"
  shows "(read_int b :: (err + u32) \<times> buffer) =
    (if fits b 4 then (Inr (bytes_int (view 4 b)), advance 4 b) else (Inl (raise DataSerialisationException), b))"
  using assms by (simp add: read_int_take andthen_def checked_take_ok ret_def sizeof_def)

lemma read_vec_cases:
  assumes "buf_ok b"
  shows "read_vec reserve rd b =
    (if fits b 4 \<and> reserve (count_at b) \<noteq> None
     then (Inl (ThrowStd (the (reserve (count_at b)))), advance 4 b) else read_counted rd b)"
  using read_count [OF assms]
  by (auto simp: read_vec_def read_counted_def andthen_def reserve_room_def ret_def fail_def count_at_def
      split: option.splits)

subsection \<open>Maps\<close>

text \<open>
  A map is written as the vector of its entries, in key order; reading inserts the entries one by
  one.  The contract of the key codec and of the value codec gives one for the entries.
\<close>

locale codec_pair = key: codec wk rk ek ok + val: codec wv rv ev ov
  for wk :: "'k::linorder \<Rightarrow> (buffer, unit) act" and rk ek ok
    and wv :: "'v \<Rightarrow> (buffer, unit) act" and rv ev ov
begin

lemma codec_entry:
  "codec (write_pair wk wv) (read_pair rk rv) (\<lambda>e. ek (fst e) @ ev (snd e))
     (\<lambda>e. ok (fst e) \<and> ov (snd e))"
proof
  fix b :: buffer and e :: "'k \<times> 'v"
  assume b: "buf_ok b"
  show "safe_read b (read_pair rk rv b)" if "unat (blen b) < 2 ^ 31"
    unfolding read_pair_def
  proof (rule safe_read_after)
    show "safe_read b (rk b)" using b that by (rule key.rd_safe)
    fix k t assume "buf_ok t" "blen t = blen b"
    with that have "safe_read t (andthen rv (\<lambda>v. ret (k, v)) t)"
      by (intro safe_read_after) (simp_all add: val.rd_safe ret_run)
    then show "safe_read t (andthen rv (\<lambda>v. ret (k, v)) t) \<or>
      (\<exists>y. andthen rv (\<lambda>v. ret (k, v)) t = (Inr y, t))" ..
  qed
  assume e: "ok (fst e) \<and> ov (snd e)"
  let ?k = "ek (fst e)" and ?v = "ev (snd e)"
  show "write_pair wk wv e b = (Inr (), put (?k @ ?v) b)" if "fits b (length (?k @ ?v))"
  proof -
    have "fits b (length ?k)" "fits (put ?k b) (length ?v)"
      using that fits_le [OF that, of "length ?k"] by (simp_all add: fits_put_iff)
    with b e that show ?thesis
      by (simp add: write_pair_def andthen_Inr key.wr_fits val.wr_fits put_put)
  qed
  show "\<exists>t. write_pair wk wv e b = (Inl (raise DataSerialisationException), t) \<and> buf_ok t"
    if "\<not> fits b (length (?k @ ?v))"
  proof (cases "fits b (length ?k)")
    case True
    with that b e val.wr_full [of "put ?k b" "snd e"] show ?thesis
      by (auto simp: write_pair_def andthen_Inr key.wr_fits fits_put_iff)
  next
    case False
    with b e key.wr_full [of b "fst e"] show ?thesis by (auto simp: write_pair_def andthen_Inl)
  qed
  assume f: "fits b (length (?k @ ?v))" and v: "view (length (?k @ ?v)) b = ?k @ ?v"
  have fk: "fits b (length ?k)" by (rule fits_le [OF f]) simp
  have "view (length ?k) b = ?k" "view (length ?v) (advance (length ?k) b) = ?v"
    using view_split [of b ?k ?v] b f v by simp_all
  then have "rk b = (Inr (fst e), advance (length ?k) b)"
    "rv (advance (length ?k) b) = (Inr (snd e), advance (length ?v) (advance (length ?k) b))"
    using b e f fk by (simp_all add: key.rd_back val.rd_back fits_advance_iff)
  then show "read_pair rk rv b = (Inr e, advance (length (?k @ ?v)) b)"
    by (simp add: read_pair_def andthen_Inr advance_advance ret_run)
qed

sublocale entry: codec "write_pair wk wv" "read_pair rk rv" "\<lambda>e. ek (fst e) @ ev (snd e)"
  "\<lambda>e. ok (fst e) \<and> ov (snd e)"
  by (rule codec_entry)

end

text \<open>The accumulator of the reading loops.\<close>

lemma read_each_acc:
  "read_each rd n i (acc @ xs) = andthen (read_each rd n i xs) (\<lambda>ys. ret (acc @ ys))"
proof (induction n arbitrary: i xs)
  case (Suc n)
  from Suc [of _ "xs @ [x]" for x] show ?case
    by (simp add: andthen_assoc)
qed simp

lemma read_map_each_build:
  "read_map_each rk rv n i m =
     andthen (read_each (read_pair rk rv) n i []) (\<lambda>es. ret (om_build m es))"
proof (induction n arbitrary: i m)
  case (Suc n)
  have "read_each (read_pair rk rv) n (Suc i) [e] =
      andthen (read_each (read_pair rk rv) n (Suc i) []) (\<lambda>es. ret (e # es))" for e
    using read_each_acc [of "read_pair rk rv" n "Suc i" "[e]" "[]"] by simp
  with Suc show ?case by (simp add: read_pair_def andthen_assoc)
qed simp

lemma read_map_build:
  "read_map rk rv = andthen (read_counted (read_pair rk rv)) (\<lambda>es. ret (om_build [] es))"
  by (simp add: read_map_def read_counted_def read_map_each_build andthen_assoc)

lemma write_map_vec: "write_map wk wv m = write_vec (write_pair wk wv) m"
  by (simp add: write_map_def write_vec_def)

context codec_pair
begin

abbreviation entry_bytes :: "'k \<times> 'v \<Rightarrow> bytes" where
  "entry_bytes e \<equiv> ek (fst e) @ ev (snd e)"

lemma codec_map:
  "codec (write_map wk wv) (read_map rk rv) (vec_bytes entry_bytes)
     (\<lambda>m. om_wf m \<and> length m < 2 ^ 31 \<and> (\<forall>e\<in>set m. ok (fst e) \<and> ov (snd e)))"
proof
  fix b :: buffer and m :: "('k, 'v) omap"
  assume b: "buf_ok b"
  show "safe_read b (read_map rk rv b)" if "unat (blen b) < 2 ^ 31"
    unfolding read_map_build
    using b that by (intro safe_read_after) (simp_all add: entry.read_counted_safe ret_run)
  assume m: "om_wf m \<and> length m < 2 ^ 31 \<and> (\<forall>e\<in>set m. ok (fst e) \<and> ov (snd e))"
  show "write_map wk wv m b = (Inr (), put (vec_bytes entry_bytes m) b)"
    if "fits b (length (vec_bytes entry_bytes m))"
    using that b m by (simp add: write_map_vec entry.write_vec_fits)
  show "\<exists>t. write_map wk wv m b = (Inl (raise DataSerialisationException), t) \<and> buf_ok t"
    if "\<not> fits b (length (vec_bytes entry_bytes m))"
    using that b m by (simp add: write_map_vec entry.write_vec_full)
  show "read_map rk rv b = (Inr m, advance (length (vec_bytes entry_bytes m)) b)"
    if "fits b (length (vec_bytes entry_bytes m))"
      "view (length (vec_bytes entry_bytes m)) b = vec_bytes entry_bytes m"
    using entry.read_counted_back [of b m] om_build_sorted [of "[]" m] that b m
    by (simp add: read_map_build andthen_Inr ret_run)
qed

end

interpretation tagmap: codec_pair
  write_int "read_int :: (buffer, u16) act" int_bytes "\<lambda>_. True"
  write_int "read_int :: (buffer, u32) act" int_bytes "\<lambda>_. True"
  by unfold_locales

subsection \<open>Properties\<close>

text \<open>
  For every unsigned integer type, writing a value where it fits and reading it back from the
  same place gives the value, and the write changes no byte outside the ones it covers.
\<close>

lemma buffer_int_roundtrip:
  fixes v :: "'a::len word"
  assumes "8 dvd LENGTH('a)" "buf_ok b" "fits b (sizeof TYPE('a word))"
  shows "\<exists>t. write_int v b = (Inr (), t) \<and> read_int (rewind (boffset b) t) = (Inr v, t) \<and>
    buf_ok t \<and> unat (boffset t) = unat (boffset b) + sizeof TYPE('a word) \<and>
    content t = poke (unat (boffset b)) (int_bytes v) (content b)"
  using codec.roundtrip [OF codec_int [OF assms(1)], of b v] assms(2,3)
    buf_ok_put [of b "int_bytes v"] pos_put [of b "int_bytes v"] content_put [of b "int_bytes v"]
  by (intro exI [of _ "put (int_bytes v) b"]) simp

lemma buffer_int_roundtrip_witness:
  "fst (read_int (rewind 0 (snd (write_int (0xDEADBEEF :: u32) (buffer_alloc (\<lambda>_. 0) 8 0)))))
     = Inr (0xDEADBEEF :: u32)"
proof -
  have "buf_ok (buffer_alloc (\<lambda>_. 0) 8 0)" "fits (buffer_alloc (\<lambda>_. 0) 8 0) (sizeof TYPE(32 word))"
    by (simp_all add: buf_ok_def buffer_alloc_def content_def fits_def)
  then obtain t where "write_int (0xDEADBEEF :: u32) (buffer_alloc (\<lambda>_. 0) 8 0) = (Inr (), t)"
      "read_int (rewind (boffset (buffer_alloc (\<lambda>_. 0) 8 0)) t) = (Inr (0xDEADBEEF :: u32), t)"
    using buffer_int_roundtrip [of "buffer_alloc (\<lambda>_. 0) 8 0" "0xDEADBEEF :: u32"] by auto
  then show ?thesis by (simp add: buffer_alloc_def)
qed

text \<open>
  A write that does not fit throws \<open>DataSerialisationException\<close> and never writes past the end
  of the block: a vector of identifiers leaves a well-formed buffer.
\<close>

lemma buffer_write_full:
  assumes "buf_ok b" "length is < 2 ^ 31" "\<not> fits b (length (vec_bytes hash is))"
  shows "\<exists>t. write_vec write_id is b = (Inl (raise DataSerialisationException), t) \<and> buf_ok t"
  using idvec.wr_full [OF assms(1) _ assms(3)] assms(2) by simp

lemma buffer_write_full_witness:
  "\<exists>t. write_vec write_id [mk_id (replicate 32 7)] (buffer_alloc (\<lambda>_. 0) 12 0) =
     (Inl (raise DataSerialisationException), t) \<and> buf_ok t"
  by (rule buffer_write_full)
    (simp_all add: buf_ok_def buffer_alloc_def content_def fits_def vec_bytes_def)

text \<open>
  \<open>Buffer::read<std::shared_ptr<PublicKey>>\<close> asks a new, hence empty, key for its size and so
  reads no byte: on a well-formed buffer the key it returns is empty and the cursor does not move,
  whatever was written there, although \<open>write\<close> stored the key's bytes and \<open>calcSize\<close> counts 33.
\<close>

lemma read_public_key_empty:
  assumes "buf_ok b"
  shows "read_public_key b = (Inr [], b) \<and> calc_size_public_key = 33 \<and>
    (fits b (length key) \<and> length key < 2 ^ 32 \<longrightarrow> write_public_key key b = (Inr (), put key b))"
  using assms
  by (simp add: read_public_key_def read_data_take checked_take_ok view_def calc_size_public_key_def
      write_public_key_def write_data_put unat_of_nat checked_put_ok)

lemma read_public_key_empty_witness:
  "read_public_key (buffer_of_ptr [2, 3, 4] 3) = (Inr [], buffer_of_ptr [2, 3, 4] 3)"
  using read_public_key_empty [of "buffer_of_ptr [2, 3, 4] 3"]
  by (simp add: buf_ok_def buffer_of_ptr_def content_def)

text \<open>
  A buffer built from a vector keeps the bytes but records length 0, so every read of at least
  one byte and every write of at least one byte throws \<open>DataSerialisationException\<close>, and
  \<open>toBlob\<close> gives an empty vector.
\<close>

lemma buffer_of_vector_unreadable:
  "fst ((read_int :: (buffer, u8) act) (buffer_of_vector bs)) = Inl (raise DataSerialisationException) \<and>
   fst (write_int (x :: u8) (buffer_of_vector bs)) = Inl (raise DataSerialisationException) \<and>
   to_blob (buffer_of_vector bs) = Inr []"
  by (simp add: read_int_def write_int_def buffer_of_vector_def need_def to_blob_def andthen_def)

end
