(* ===== verification/Message_Types.thy ===== *)
theory Message_Types
  imports Codecs
begin

section \<open>Typed messages\<close>

text \<open>
  The overloads and templates of \<open>transport/Buffer.h\<close> select the read and the write of a value by
  its C++ type.  The types of single values are a datatype \<open>wire_type\<close> (integers, identifiers, signatures,
  strings); \<open>buf_type\<close> adds the containers that \<open>readVec\<close> and \<open>readMap\<close> can be instantiated with: their
  elements are single values, since the templates call \<open>read<T>\<close>, which does not exist for containers.
  A vector or a map of strings can be read but not written (\<open>write<T>\<close> takes strings by reference only).
  Maps have integers as keys here; a map whose keys are pointers (\<open>std::shared_ptr<Id>\<close>) is ordered by
  addresses, and is not modelled.  The file shows that reading is type-safe on bytes from anywhere and
  inverts writing.
\<close>

datatype wire_type = TU8 | TU16 | TU32 | TU64 | TId | TSignature | TString

datatype wire_val =
    is_V8: V8 (v8: u8) | is_V16: V16 (v16: u16) | is_V32: V32 (v32: u32) | is_V64: V64 (v64: u64)
  | is_VId: VId (vid: id) | is_VSignature: VSignature (vsignature: bytes)
  | is_VString: VString (vstring: bytes)

datatype key_type = KU8 | KU16 | KU32 | KU64

datatype buf_type = Single wire_type | VecOf wire_type | MapOf key_type wire_type

datatype buf_val =
    is_SingleV: SingleV (single: wire_val)
  | is_VecV: VecV (elems: "wire_val list")
  | is_MapV: MapV (entries: "(nat \<times> wire_val) list")

text \<open>
  What a C++ object of the type can hold: a signature has 72 bytes, a map is sorted by key without
  repetition, and the counters of the loops bound the containers.
\<close>

primrec has_type :: "wire_type \<Rightarrow> wire_val \<Rightarrow> bool" where
  "has_type TU8 v = is_V8 v"
| "has_type TU16 v = is_V16 v"
| "has_type TU32 v = is_V32 v"
| "has_type TU64 v = is_V64 v"
| "has_type TId v = is_VId v"
| "has_type TSignature v = (is_VSignature v \<and> length (vsignature v) = 72)"
| "has_type TString v = (is_VString v \<and> length (vstring v) < 2 ^ 32)"

primrec is_key :: "key_type \<Rightarrow> nat \<Rightarrow> bool" where
  "is_key KU8 k = (k < 2 ^ 8)" | "is_key KU16 k = (k < 2 ^ 16)"
| "is_key KU32 k = (k < 2 ^ 32)" | "is_key KU64 k = (k < 2 ^ 64)"

primrec of_buf_type :: "buf_type \<Rightarrow> buf_val \<Rightarrow> bool" where
  "of_buf_type (Single t) v = (is_SingleV v \<and> has_type t (single v))"
| "of_buf_type (VecOf t) v =
     (is_VecV v \<and> length (elems v) < 2 ^ 31 \<and> (\<forall>x\<in>set (elems v). has_type t x))"
| "of_buf_type (MapOf k t) v =
     (is_MapV v \<and> om_wf (entries v) \<and> length (entries v) < 2 ^ 31 \<and>
      (\<forall>e\<in>set (entries v). is_key k (fst e) \<and> has_type t (snd e)))"

primrec writable :: "buf_type \<Rightarrow> bool" where
  "writable (Single t) = True"
| "writable (VecOf t) = (t \<noteq> TString)"
| "writable (MapOf k t) = (t \<noteq> TString)"

primrec write_as :: "wire_type \<Rightarrow> wire_val \<Rightarrow> (buffer, unit) act" where
  "write_as TU8 v = write_int (v8 v)"
| "write_as TU16 v = write_int (v16 v)"
| "write_as TU32 v = write_int (v32 v)"
| "write_as TU64 v = write_int (v64 v)"
| "write_as TId v = write_id (vid v)"
| "write_as TSignature v = write_signature (vsignature v)"
| "write_as TString v = write_string (vstring v)"

primrec write_key :: "key_type \<Rightarrow> nat \<Rightarrow> (buffer, unit) act" where
  "write_key KU8 k = write_int (of_nat k :: u8)"
| "write_key KU16 k = write_int (of_nat k :: u16)"
| "write_key KU32 k = write_int (of_nat k :: u32)"
| "write_key KU64 k = write_int (of_nat k :: u64)"

primrec write_value :: "buf_type \<Rightarrow> buf_val \<Rightarrow> (buffer, unit) act" where
  "write_value (Single t) v = write_as t (single v)"
| "write_value (VecOf t) v = write_vec (write_as t) (elems v)"
| "write_value (MapOf k t) v = write_map (write_key k) (write_as t) (entries v)"

primrec read_as :: "wire_type \<Rightarrow> (buffer, wire_val) act" where
  "read_as TU8 = andthen read_int (\<lambda>x. ret (V8 x))"
| "read_as TU16 = andthen read_int (\<lambda>x. ret (V16 x))"
| "read_as TU32 = andthen read_int (\<lambda>x. ret (V32 x))"
| "read_as TU64 = andthen read_int (\<lambda>x. ret (V64 x))"
| "read_as TId = andthen read_id (\<lambda>x. ret (VId x))"
| "read_as TSignature = andthen read_signature (\<lambda>x. ret (VSignature x))"
| "read_as TString = andthen read_string (\<lambda>x. ret (VString x))"

primrec read_key :: "key_type \<Rightarrow> (buffer, nat) act" where
  "read_key KU8 = andthen read_int (\<lambda>x :: u8. ret (unat x))"
| "read_key KU16 = andthen read_int (\<lambda>x :: u16. ret (unat x))"
| "read_key KU32 = andthen read_int (\<lambda>x :: u32. ret (unat x))"
| "read_key KU64 = andthen read_int (\<lambda>x :: u64. ret (unat x))"

fun read_value :: "(nat \<Rightarrow> std_exn option) \<Rightarrow> buf_type \<Rightarrow> (buffer, buf_val) act" where
  "read_value reserve (Single t) = andthen (read_as t) (\<lambda>x. ret (SingleV x))"
| "read_value reserve (VecOf t) = andthen (read_vec reserve (read_as t)) (\<lambda>x. ret (VecV x))"
| "read_value reserve (MapOf k t) = andthen (read_map (read_key k) (read_as t)) (\<lambda>x. ret (MapV x))"

text \<open>The bytes of a value on the wire.\<close>

primrec wire_bytes :: "wire_type \<Rightarrow> wire_val \<Rightarrow> bytes" where
  "wire_bytes TU8 v = int_bytes (v8 v)"
| "wire_bytes TU16 v = int_bytes (v16 v)"
| "wire_bytes TU32 v = int_bytes (v32 v)"
| "wire_bytes TU64 v = int_bytes (v64 v)"
| "wire_bytes TId v = hash (vid v)"
| "wire_bytes TSignature v = vsignature v"
| "wire_bytes TString v = int_bytes (of_nat (length (vstring v)) :: u32) @ vstring v"

primrec key_bytes :: "key_type \<Rightarrow> nat \<Rightarrow> bytes" where
  "key_bytes KU8 k = int_bytes (of_nat k :: u8)"
| "key_bytes KU16 k = int_bytes (of_nat k :: u16)"
| "key_bytes KU32 k = int_bytes (of_nat k :: u32)"
| "key_bytes KU64 k = int_bytes (of_nat k :: u64)"

primrec value_bytes :: "buf_type \<Rightarrow> buf_val \<Rightarrow> bytes" where
  "value_bytes (Single t) v = wire_bytes t (single v)"
| "value_bytes (VecOf t) v = vec_bytes (wire_bytes t) (elems v)"
| "value_bytes (MapOf k t) v = vec_bytes (\<lambda>e. key_bytes k (fst e) @ wire_bytes t (snd e)) (entries v)"

subsection \<open>Codecs whose reads are typed\<close>

text \<open>The contract \<open>codec\<close> with one more promise: what a read returns is a value of the type.\<close>

locale typed_codec = codec wr rd enc okv
  for wr :: "'a \<Rightarrow> (buffer, unit) act" and rd enc okv +
  assumes rd_typed: "buf_ok b \<Longrightarrow> unat (blen b) < 2 ^ 31 \<Longrightarrow> rd b = (Inr x, t) \<Longrightarrow> okv x"
begin

lemma read_step:
  assumes "buf_ok b" "unat (blen b) < 2 ^ 31" "rd b = (Inr x, t)"
  shows "okv x \<and> buf_ok t \<and> blen t = blen b \<and> boffset b < boffset t"
  using rd_safe [OF assms(1,2)] rd_typed [OF assms] assms(3) by (simp add: safe_read_def)

text \<open>A loop returns typed elements only, and no more of them than it advances the cursor.\<close>

lemma read_each_typed:
  assumes "buf_ok b" "unat (blen b) < 2 ^ 31" "\<forall>x\<in>set acc. okv x"
    and "read_each rd k i acc b = (Inr xs, t)"
  shows "(\<forall>x\<in>set xs. okv x) \<and> buf_ok t \<and> blen t = blen b \<and>
    length xs + unat (boffset b) \<le> length acc + unat (boffset t)"
  using assms
proof (induction k arbitrary: b i acc)
  case 0
  then show ?case by (simp add: ret_run)
next
  case (Suc k)
  from Suc.prems(4) obtain x u where x: "rd b = (Inr x, u)"
    by (auto simp: andthen_def split: prod.splits sum.splits)
  with read_step Suc.prems(1,2) have u: "okv x" "buf_ok u" "blen u = blen b" "boffset b < boffset u"
    by blast+
  from Suc.prems(4) x have "read_each rd k (Suc i) (acc @ [x]) u = (Inr xs, t)"
    by (auto simp: act_simps count_up_def split: if_splits)
  with Suc.IH [of u "acc @ [x]" "Suc i"] u Suc.prems(2,3) show ?case
    by (auto simp: word_less_nat_alt)
qed

lemma read_counted_typed:
  assumes "buf_ok b" "unat (blen b) < 2 ^ 31" "read_counted rd b = (Inr xs, t)"
  shows "length xs < 2 ^ 31 \<and> (\<forall>x\<in>set xs. okv x)"
proof -
  from assms(3) obtain n :: u32 and u
    where n: "read_int b = (Inr n, u)" and xs: "read_each rd (unat n) 0 [] u = (Inr xs, t)"
    by (auto simp: read_counted_def andthen_def split: prod.splits sum.splits)
  from u32c.rd_safe [OF assms(1,2)] n have "buf_ok u" "blen u = blen b"
    by (simp_all add: safe_read_def)
  with read_each_typed [OF _ _ _ xs] assms(2)
  have "\<forall>x\<in>set xs. okv x" "buf_ok t" "blen t = blen b" "length xs \<le> unat (boffset t)" by auto
  with assms(2) show ?thesis by (simp add: buf_ok_def)
qed

lemma typed_vec:
  "typed_codec (write_vec wr) (read_counted rd) (vec_bytes enc)
     (\<lambda>xs. length xs < 2 ^ 31 \<and> (\<forall>x\<in>set xs. okv x))"
  by (intro typed_codec.intro codec_vec typed_codec_axioms.intro) (rule read_counted_typed)

text \<open>A value behind a constructor of \<open>wire_val\<close>.\<close>

lemma typed_wrap:
  assumes c: "\<And>x. sel (c x) = x" "\<And>x. isc (c x)" "\<And>v. isc v \<Longrightarrow> c (sel v) = v"
  shows "typed_codec (\<lambda>v. wr (sel v)) (andthen rd (\<lambda>x. ret (c x))) (\<lambda>v. enc (sel v))
    (\<lambda>v. isc v \<and> okv (sel v))"
proof
  fix b v t assume b: "buf_ok b"
  show "safe_read b (andthen rd (\<lambda>x. ret (c x)) b)" if "unat (blen b) < 2 ^ 31"
    using b that by (intro safe_read_after) (simp_all add: rd_safe ret_run)
  show "isc v \<and> okv (sel v)"
    if "unat (blen b) < 2 ^ 31" "andthen rd (\<lambda>x. ret (c x)) b = (Inr v, t)"
    using that b c rd_typed by (auto simp: andthen_def ret_def split: prod.splits sum.splits)
  assume v: "isc v \<and> okv (sel v)"
  then show "wr (sel v) b = (Inr (), put (enc (sel v)) b)" if "fits b (length (enc (sel v)))"
    using that b by (simp add: wr_fits)
  show "\<exists>t. wr (sel v) b = (Inl (raise DataSerialisationException), t) \<and> buf_ok t"
    if "\<not> fits b (length (enc (sel v)))"
    using that b v by (simp add: wr_full)
  show "andthen rd (\<lambda>x. ret (c x)) b = (Inr v, advance (length (enc (sel v))) b)"
    if "fits b (length (enc (sel v)))" "view (length (enc (sel v))) b = enc (sel v)"
    using rd_back [OF b, of "sel v"] that v c(3) [of v] by (simp add: andthen_Inr [of rd] ret_run)
qed

end

text \<open>The codecs of the code's scalar types are typed.\<close>

lemma typed_trivial:
  assumes "codec wr rd enc (\<lambda>_. True)"
  shows "typed_codec wr rd enc (\<lambda>_. True)"
  by (intro typed_codec.intro assms typed_codec_axioms.intro) simp

interpretation u8t: typed_codec write_int "read_int :: (buffer, u8) act" int_bytes "\<lambda>_. True"
  by (rule typed_trivial [OF u8c.codec_axioms])

interpretation u16t: typed_codec write_int "read_int :: (buffer, u16) act" int_bytes "\<lambda>_. True"
  by (rule typed_trivial [OF u16c.codec_axioms])

interpretation u32t: typed_codec write_int "read_int :: (buffer, u32) act" int_bytes "\<lambda>_. True"
  by (rule typed_trivial [OF u32c.codec_axioms])

interpretation u64t: typed_codec write_int "read_int :: (buffer, u64) act" int_bytes "\<lambda>_. True"
  by (rule typed_trivial [OF u64c.codec_axioms])

interpretation idt: typed_codec write_id read_id hash "\<lambda>_. True"
  by (rule typed_trivial [OF idc.codec_axioms])

interpretation sigt: typed_codec write_signature read_signature "\<lambda>s. s" "\<lambda>s. length s = 72"
  by unfold_locales
    (auto simp: read_signature_def read_data_take checked_take_ok length_view split: if_splits)

lemma read_string_length:
  assumes "buf_ok b" "unat (blen b) < 2 ^ 31" "read_string b = (Inr s, t)"
  shows "length s < 2 ^ 32"
proof -
  from assms(3) obtain n :: u32 and u
    where n: "read_int b = (Inr n, u)" and s: "checked_take (unat n) u = (Inr s, t)"
    by (auto simp: read_string_take andthen_def split: prod.splits sum.splits)
  from u32c.rd_safe [OF assms(1,2)] n have "buf_ok u" by (simp add: safe_read_def)
  with s have "length s = unat n" by (auto simp: checked_take_ok length_view split: if_splits)
  then show ?thesis using unsigned_less [of n] by simp
qed

interpretation strt: typed_codec write_string read_string
  "\<lambda>s. int_bytes (of_nat (length s) :: u32) @ s" "\<lambda>s. length s < 2 ^ 32"
  by unfold_locales (rule read_string_length)

subsection \<open>Maps\<close>

lemma set_om_put: "set (om_put k v m) \<subseteq> insert (k, v) (set m)"
  by (induction m) auto

lemma length_om_put: "length (om_put k v m) \<le> Suc (length m)"
  by (induction m) auto

lemma om_build_typed:
  "om_wf m \<Longrightarrow> om_wf (om_build m es) \<and> length (om_build m es) \<le> length m + length es \<and>
     set (om_build m es) \<subseteq> set m \<union> set es"
proof (induction es arbitrary: m)
  case (Cons e es)
  from Cons.IH [of "om_put (fst e) (snd e) m"] Cons.prems
    set_om_put [of "fst e" "snd e" m] length_om_put [of "fst e" "snd e" m]
  show ?case by auto
qed (simp add: om_build_def)

locale typed_codec_pair =
  key: typed_codec wk rk ek ok + val: typed_codec wv rv ev ov
  for wk :: "'k::linorder \<Rightarrow> (buffer, unit) act" and rk ek ok
    and wv :: "'v \<Rightarrow> (buffer, unit) act" and rv ev ov
begin

sublocale pair: codec_pair wk rk ek ok wv rv ev ov
  by unfold_locales

lemma typed_entry:
  "typed_codec (write_pair wk wv) (read_pair rk rv) (\<lambda>e. ek (fst e) @ ev (snd e))
     (\<lambda>e. ok (fst e) \<and> ov (snd e))"
proof (intro typed_codec.intro pair.codec_entry typed_codec_axioms.intro)
  fix b e t
  assume b: "buf_ok b" "unat (blen b) < 2 ^ 31" "read_pair rk rv b = (Inr e, t)"
  then obtain u where "rk b = (Inr (fst e), u)" "rv u = (Inr (snd e), t)"
    by (auto simp: read_pair_def andthen_def ret_def split: prod.splits sum.splits)
  with b key.read_step val.rd_typed show "ok (fst e) \<and> ov (snd e)" by metis
qed

lemma typed_map:
  "typed_codec (write_map wk wv) (read_map rk rv) (vec_bytes pair.entry_bytes)
     (\<lambda>m. om_wf m \<and> length m < 2 ^ 31 \<and> (\<forall>e\<in>set m. ok (fst e) \<and> ov (snd e)))"
proof (intro typed_codec.intro pair.codec_map typed_codec_axioms.intro)
  fix b m t
  assume b: "buf_ok b" "unat (blen b) < 2 ^ 31" "read_map rk rv b = (Inr m, t)"
  then obtain es where "read_counted (read_pair rk rv) b = (Inr es, t)" and m: "m = om_build [] es"
    by (auto simp: read_map_build andthen_def ret_def split: prod.splits sum.splits)
  with typed_codec.read_counted_typed [OF typed_entry] b
  have "length es < 2 ^ 31" "\<forall>e\<in>set es. ok (fst e) \<and> ov (snd e)" by blast+
  with om_build_typed [of "[]" es] m
  show "om_wf m \<and> length m < 2 ^ 31 \<and> (\<forall>e\<in>set m. ok (fst e) \<and> ov (snd e))" by auto
qed

end

subsection \<open>Every wire type has a typed codec\<close>

lemmas wire_eqs = has_type.simps [abs_def] write_as.simps [abs_def] wire_bytes.simps [abs_def]
  is_key.simps [abs_def] write_key.simps [abs_def] key_bytes.simps [abs_def]
  of_buf_type.simps [abs_def] write_value.simps [abs_def] value_bytes.simps [abs_def]

lemma typed_wire: "typed_codec (write_as t) (read_as t) (wire_bytes t) (has_type t)"
proof (cases t)
  case TU8
  then show ?thesis using u8t.typed_wrap [of v8 V8 is_V8] by (simp add: wire_eqs)
next
  case TU16
  then show ?thesis using u16t.typed_wrap [of v16 V16 is_V16] by (simp add: wire_eqs)
next
  case TU32
  then show ?thesis using u32t.typed_wrap [of v32 V32 is_V32] by (simp add: wire_eqs)
next
  case TU64
  then show ?thesis using u64t.typed_wrap [of v64 V64 is_V64] by (simp add: wire_eqs)
next
  case TId
  then show ?thesis using idt.typed_wrap [of vid VId is_VId] by (simp add: wire_eqs)
next
  case TSignature
  then show ?thesis using sigt.typed_wrap [of vsignature VSignature is_VSignature] by (simp add: wire_eqs)
next
  case TString
  then show ?thesis using strt.typed_wrap [of vstring VString is_VString] by (simp add: wire_eqs)
qed

lemma typed_key: "typed_codec (write_key k) (read_key k) (key_bytes k) (is_key k)"
proof (cases k)
  case KU8
  then show ?thesis
    using u8t.typed_wrap [of of_nat unat "\<lambda>n. n < 2 ^ 8"] unsigned_less [where 'a = nat and 'b = 8]
    by (simp add: unat_of_nat wire_eqs)
next
  case KU16
  then show ?thesis
    using u16t.typed_wrap [of of_nat unat "\<lambda>n. n < 2 ^ 16"] unsigned_less [where 'a = nat and 'b = 16]
    by (simp add: unat_of_nat wire_eqs)
next
  case KU32
  then show ?thesis
    using u32t.typed_wrap [of of_nat unat "\<lambda>n. n < 2 ^ 32"] unsigned_less [where 'a = nat and 'b = 32]
    by (simp add: unat_of_nat wire_eqs)
next
  case KU64
  then show ?thesis
    using u64t.typed_wrap [of of_nat unat "\<lambda>n. n < 2 ^ 64"] unsigned_less [where 'a = nat and 'b = 64]
    by (simp add: unat_of_nat wire_eqs)
qed

lemma typed_wire_pair:
  "typed_codec_pair (write_key k) (read_key k) (key_bytes k) (is_key k)
     (write_as t) (read_as t) (wire_bytes t) (has_type t)"
  by (intro typed_codec_pair.intro typed_key typed_wire)

text \<open>
  All types at once, with \<open>read_counted\<close> for \<open>readVec\<close>: the two differ only when the room for a vector cannot
  be reserved.
\<close>

fun read_unreserved :: "buf_type \<Rightarrow> (buffer, buf_val) act" where
  "read_unreserved (VecOf t) = andthen (read_counted (read_as t)) (\<lambda>x. ret (VecV x))"
| "read_unreserved t = read_value (\<lambda>_. None) t"

lemma typed_value: "typed_codec (write_value t) (read_unreserved t) (value_bytes t) (of_buf_type t)"
proof (cases t)
  case (Single u)
  then show ?thesis
    using typed_codec.typed_wrap [OF typed_wire, of single SingleV is_SingleV] by (simp add: wire_eqs)
next
  case (VecOf u)
  then show ?thesis
    using typed_codec.typed_wrap [OF typed_codec.typed_vec [OF typed_wire], of elems VecV is_VecV] by (simp add: wire_eqs)
next
  case (MapOf k u)
  then show ?thesis
    using typed_codec.typed_wrap [OF typed_codec_pair.typed_map [OF typed_wire_pair], of entries MapV is_MapV]
    by (simp add: wire_eqs)
qed

definition no_room :: "(nat \<Rightarrow> std_exn option) \<Rightarrow> buf_type \<Rightarrow> buffer \<Rightarrow> bool" where
  "no_room reserve t b \<longleftrightarrow> (\<exists>u. t = VecOf u) \<and> fits b 4 \<and> reserve (count_at b) \<noteq> None"

lemma read_value_cases:
  assumes "buf_ok b"
  shows "read_value reserve t b =
    (if no_room reserve t b then (Inl (ThrowStd (the (reserve (count_at b)))), advance 4 b)
     else read_unreserved t b)"
proof (cases t)
  case (VecOf u)
  with read_vec_cases [OF assms, of reserve "read_as u"] show ?thesis
    by (auto simp: no_room_def andthen_def)
qed (simp_all add: no_room_def)

subsection \<open>Properties\<close>





end
