(* ===== verification/Messages.thy ===== *)
theory Messages
  imports Message_Types
begin

section \<open>Messages of several values\<close>

text \<open>
  A message is a sequence of values, each of its own C++ type, written one after the other into one
  buffer and read back in the same order.  The variadic \<open>calcSize\<close> of \<open>transport/Buffer.h\<close> computes
  the size of the buffer from the same arguments, in 32-bit arithmetic; it has overloads for integers,
  identifiers and strings (those for keys and nodes are in \<open>Buffers\<close>).
\<close>

type_synonym field = "wire_type \<times> wire_val"

text \<open>\<open>None\<close>: there is no overload for the type, and the call does not compile.\<close>

definition calc_size :: "field \<Rightarrow> u32 option" where
  "calc_size f =
     (case fst f of
        TU8 \<Rightarrow> Some (calc_size_int TYPE(8 word))
      | TU16 \<Rightarrow> Some (calc_size_int TYPE(16 word))
      | TU32 \<Rightarrow> Some (calc_size_int TYPE(32 word))
      | TU64 \<Rightarrow> Some (calc_size_int TYPE(64 word))
      | TId \<Rightarrow> Some calc_size_id
      | TString \<Rightarrow> Some (calc_size_string (vstring (snd f)))
      | _ \<Rightarrow> None)"

fun calc_sizes :: "field list \<Rightarrow> u32 option" where
  "calc_sizes [] = None"
| "calc_sizes [x] = calc_size x"
| "calc_sizes (x # xs) =
     Option.bind (calc_size x) (\<lambda>m. Option.bind (calc_sizes xs) (\<lambda>n. Some (m + n)))"

primrec write_fields :: "field list \<Rightarrow> (buffer, unit) act" where
  "write_fields [] = ret ()"
| "write_fields (f # fs) = andthen (write_as (fst f) (snd f)) (\<lambda>_. write_fields fs)"

primrec read_fields :: "wire_type list \<Rightarrow> (buffer, wire_val list) act" where
  "read_fields [] = ret []"
| "read_fields (t # ts) = andthen (read_as t) (\<lambda>v. andthen (read_fields ts) (\<lambda>vs. ret (v # vs)))"

definition field_bytes :: "field \<Rightarrow> bytes" where
  "field_bytes f = wire_bytes (fst f) (snd f)"

definition message_bytes :: "field list \<Rightarrow> bytes" where
  "message_bytes fs = concat (map field_bytes fs)"

abbreviation typed_field :: "field \<Rightarrow> bool" where
  "typed_field f \<equiv> has_type (fst f) (snd f)"

lemma message_bytes_simps [simp]:
  "message_bytes [] = []" "message_bytes (f # fs) = field_bytes f @ message_bytes fs"
  by (simp_all add: message_bytes_def)

subsection \<open>Writing and reading a message\<close>

lemmas wire_codec = typed_codec.axioms(1) [OF typed_wire]

lemma write_fields_fits:
  assumes "buf_ok b" "list_all typed_field fs" "fits b (length (message_bytes fs))"
  shows "write_fields fs b = (Inr (), put (message_bytes fs) b)"
  using assms
proof (induction fs arbitrary: b)
  case (Cons f fs)
  have x: "fits b (length (field_bytes f))" by (rule fits_le [OF Cons.prems(3)]) simp
  have w: "write_as (fst f) (snd f) b = (Inr (), put (field_bytes f) b)"
    using codec.wr_fits [OF wire_codec Cons.prems(1), of "fst f" "snd f"] Cons.prems(2) x
    by (simp add: field_bytes_def)
  have "write_fields fs (put (field_bytes f) b) = (Inr (), put (message_bytes fs) (put (field_bytes f) b))"
    using Cons x by (intro Cons.IH) (simp_all add: fits_put_iff)
  with Cons.prems w show ?case by (simp add: andthen_def put_put)
qed (simp add: ret_run)

lemma write_fields_full:
  assumes "buf_ok b" "list_all typed_field fs" "\<not> fits b (length (message_bytes fs))"
  shows "\<exists>t. write_fields fs b = (Inl (raise DataSerialisationException), t) \<and> buf_ok t"
  using assms
proof (induction fs arbitrary: b)
  case (Cons f fs)
  show ?case
  proof (cases "fits b (length (field_bytes f))")
    case True
    then have w: "write_as (fst f) (snd f) b = (Inr (), put (field_bytes f) b)"
      using codec.wr_fits [OF wire_codec Cons.prems(1), of "fst f" "snd f"] Cons.prems(2)
      by (simp add: field_bytes_def)
    have "\<exists>t. write_fields fs (put (field_bytes f) b) = (Inl (raise DataSerialisationException), t) \<and> buf_ok t"
      using Cons True by (intro Cons.IH) (simp_all add: fits_put_iff)
    then show ?thesis by (auto simp: andthen_def w)
  next
    case False
    with codec.wr_full [OF wire_codec Cons.prems(1), of "fst f" "snd f"] Cons.prems(2)
    obtain t where "write_as (fst f) (snd f) b = (Inl (raise DataSerialisationException), t)" "buf_ok t"
      by (auto simp: field_bytes_def)
    then show ?thesis by (simp add: andthen_def)
  qed
qed simp

lemma read_fields_back:
  assumes "buf_ok b" "list_all typed_field fs" "fits b (length (message_bytes fs))"
    and "view (length (message_bytes fs)) b = message_bytes fs"
  shows "read_fields (map fst fs) b = (Inr (map snd fs), advance (length (message_bytes fs)) b)"
  using assms
proof (induction fs arbitrary: b)
  case (Cons f fs)
  let ?n = "length (field_bytes f)" and ?m = "length (message_bytes fs)"
  have x: "fits b ?n" by (rule fits_le [OF Cons.prems(3)]) simp
  have v: "view ?n b = field_bytes f" "view ?m (advance ?n b) = message_bytes fs"
    using view_split [of b "field_bytes f" "message_bytes fs"] Cons.prems by simp_all
  have r: "read_as (fst f) b = (Inr (snd f), advance ?n b)"
    using codec.rd_back [OF wire_codec Cons.prems(1), of "fst f" "snd f"] Cons.prems(2) x v(1)
    by (simp add: field_bytes_def)
  have q: "read_fields (map fst fs) (advance ?n b) = (Inr (map snd fs), advance ?m (advance ?n b))"
    using Cons x v by (intro Cons.IH) (simp_all add: fits_advance_iff)
  show ?case by (simp add: andthen_def r q ret_run advance_advance)
qed (simp add: ret_run)

subsection \<open>The computed size\<close>

lemma calc_size_bytes:
  assumes "calc_size f = Some n" "typed_field f"
  shows "n = of_nat (length (field_bytes f))"
  using assms
  by (cases "fst f")
    (simp_all add: calc_size_def field_bytes_def calc_size_int_def calc_size_id_def calc_size_string_def)

lemma calc_sizes_bytes:
  assumes "calc_sizes fs = Some n" "list_all typed_field fs"
  shows "n = of_nat (length (message_bytes fs))"
  using assms
proof (induction fs arbitrary: n rule: calc_sizes.induct)
  case (2 x)
  then show ?case using calc_size_bytes [of x n] by simp
next
  case (3 x y fs)
  from "3.prems"(1) obtain k m where "calc_size x = Some k" "calc_sizes (y # fs) = Some m" "n = k + m"
    by (auto simp: bind_eq_Some_conv)
  with "3.IH" "3.prems"(2) calc_size_bytes [of x k] show ?case by simp
qed simp

lemma buffer_alloc_ok: "buf_ok (buffer_alloc fresh n 0) \<and> fits (buffer_alloc fresh n 0) k = (k \<le> unat n)"
  by (cases "n = 0") (auto simp: buf_ok_def buffer_alloc_def content_def fits_def word_neq_0_conv)

subsection \<open>Properties\<close>

text \<open>
  C39: \<open>calcSize\<close> of the arguments is the size of the message.  A buffer of that length is filled exactly
  by writing the values in order: no write fails, \<open>assertFullyUsed\<close> passes, the block is the bytes of the
  message, and reading the types back from its beginning gives the values and passes
  \<open>assertFullyUsed\<close> again.  If the message is so long that the 32-bit sum wraps, the buffer is too
  small and the writes end with \<open>DataSerialisationException\<close>, never outside the block.
\<close>

theorem message_fills_buffer:
  assumes "calc_sizes fs = Some n" "list_all typed_field fs"
  shows "if length (message_bytes fs) < 2 ^ 32
    then \<exists>b. write_fields fs (buffer_alloc fresh n 0) = (Inr (), b) \<and> assert_fully_used b = (Inr (), b) \<and>
      content b = message_bytes fs \<and> read_fields (map fst fs) (rewind 0 b) = (Inr (map snd fs), b)
    else \<exists>b. write_fields fs (buffer_alloc fresh n 0) = (Inl (raise DataSerialisationException), b) \<and> buf_ok b"
proof (cases "length (message_bytes fs) < 2 ^ 32")
  case True
  let ?b = "buffer_alloc fresh n 0" and ?m = "message_bytes fs"
  note b = buffer_alloc_ok [of fresh n]
  have n: "unat n = length ?m"
    using calc_sizes_bytes [OF assms] True by (simp add: unat_of_nat take_bit_nat_eq_self)
  with b have f: "fits ?b (length ?m)" by simp
  have o: "boffset ?b = 0" "blen ?b = n" by (simp_all add: buffer_alloc_def)
  have "content (put ?m ?b) = ?m"
    using content_put [OF conjunct1 [OF b] f] b n o by (simp add: poke_def buf_ok_def)
  moreover have "boffset (put ?m ?b) = blen (put ?m ?b)"
    using pos_put [OF f] n o by (simp add: word_unat_eq_iff)
  moreover have "read_fields (map fst fs) (rewind (boffset ?b) (put ?m ?b)) = (Inr (map snd fs), put ?m ?b)"
    using read_fields_back [of "rewind (boffset ?b) (put ?m ?b)" fs] b f assms(2)
    by (simp add: buf_ok_rewind_put fits_rewind_put view_rewind_put advance_rewind_put)
  ultimately show ?thesis
    using write_fields_fits [OF conjunct1 [OF b] assms(2) f] True o by (simp add: assert_fully_used_def)
next
  case False
  have "unat n < 2 ^ 32" using unsigned_less [of n] by simp
  with False have "\<not> fits (buffer_alloc fresh n 0) (length (message_bytes fs))" by (simp add: buffer_alloc_ok)
  from write_fields_full [OF _ assms(2) this] False show ?thesis by (simp add: buffer_alloc_ok)
qed

theorem message_fills_buffer_witness:
  "\<exists>b. write_fields [(TU16, V16 258), (TString, VString [7, 8, 9])] (buffer_alloc (\<lambda>_. 0) 9 0) = (Inr (), b) \<and>
     content b = [2, 1, 3, 0, 0, 0, 7, 8, 9]"
proof -
  let ?fs = "[(TU16, V16 258), (TString, VString [7, 8, 9])]"
  have s: "calc_sizes ?fs = Some 9" "list_all typed_field ?fs"
    by (simp_all add: calc_size_def calc_size_int_def calc_size_string_def)
  have m: "message_bytes ?fs = [2, 1, 3, 0, 0, 0, 7, 8, 9]"
    by (simp add: field_bytes_def) code_simp
  then have "length (message_bytes ?fs) < 2 ^ 32" by (simp only: m) simp
  with message_fills_buffer [OF s, of "\<lambda>_. 0"] m show ?thesis by (simp only: if_True) blast
qed

end
