(* ===== verification/Headers.thy ===== *)
theory Headers
  imports Codecs
begin

section \<open>Message headers and message buffers\<close>

text \<open>
  \<open>proto/CommandId.h\<close>, \<open>RequestHeader.h\<close>, \<open>ResponseHeader.h\<close>, \<open>RequestBuffer.h\<close> and
  \<open>ResponseBuffer.h\<close>.  The packed structs are laid out without padding, so a header is its
  fields' little-endian images in order: 7 bytes for a request, 6 for a response.  Code that
  reads a header from a socket or writes one through \<open>getHeader()\<close> goes through these images.
\<close>

subsection \<open>Commands\<close>

text \<open>An \<open>enum\<close> with a fixed underlying type: a byte off the wire may have any value.\<close>

definition CommandId_End :: u8 where "CommandId_End = 0"
definition CommandId_Ping :: u8 where "CommandId_Ping = 1"
definition CommandId_GetNode :: u8 where "CommandId_GetNode = 2"
definition CommandId_COMMAND_COUNT :: u8 where "CommandId_COMMAND_COUNT = 3"

lemmas command_ids = CommandId_End_def CommandId_Ping_def CommandId_GetNode_def
  CommandId_COMMAND_COUNT_def

definition MethodNames :: "string option list" where
  "MethodNames =
     [None, Some ''GetKey'', Some ''GetNearestChunk'', Some ''GetChunkLink'', Some ''GetChunk'',
      Some ''DragIntoKeySwarm'', Some ''NoticeJoinedKeySwarm'', Some ''NoticeJoinedChunkSwarm'',
      Some ''GetKeySwarm'', Some ''GetChunkSwarm'', Some ''NoticeLeavedChunkSwarm'',
      Some ''SubscribeOnChunkChange'', Some ''ChunkChangeEvent'',
      Some ''UnsubscribeOnChunkChange'']"

text \<open>The table of names has entries that no command id reaches, and Ping has another's name.\<close>

lemma method_names_mismatch:
  "length MethodNames = 14" "unat CommandId_COMMAND_COUNT = 3"
  "MethodNames ! unat CommandId_Ping = Some ''GetKey''"
  by (simp_all add: MethodNames_def command_ids)

subsection \<open>Header images\<close>

record request_header =
  requestLength :: u32
  methodId :: u8
  tag :: u16

record response_header =
  responseLen :: u32
  rtag :: u16

definition request_header_size :: nat where "request_header_size = 7"
definition response_header_size :: nat where "response_header_size = 6"

definition request_header_bytes :: "request_header \<Rightarrow> bytes" where
  "request_header_bytes h =
     int_bytes (requestLength h) @ int_bytes (methodId h) @ int_bytes (tag h)"

definition request_header_of :: "bytes \<Rightarrow> request_header" where
  "request_header_of bs =
     \<lparr>requestLength = bytes_int (peek 0 4 bs), methodId = bytes_int (peek 4 1 bs),
      tag = bytes_int (peek 5 2 bs)\<rparr>"

definition response_header_bytes :: "response_header \<Rightarrow> bytes" where
  "response_header_bytes h = int_bytes (responseLen h) @ int_bytes (rtag h)"

definition response_header_of :: "bytes \<Rightarrow> response_header" where
  "response_header_of bs =
     \<lparr>responseLen = bytes_int (peek 0 4 bs), rtag = bytes_int (peek 4 2 bs)\<rparr>"

lemma length_request_header_bytes [simp]: "length (request_header_bytes h) = 7"
  by (simp add: request_header_bytes_def)

lemma length_response_header_bytes [simp]: "length (response_header_bytes h) = 6"
  by (simp add: response_header_bytes_def)

lemma peek_in_append:
  "length xs = off \<Longrightarrow> length ys = n \<Longrightarrow> peek off n (xs @ ys @ zs) = ys"
  by (simp add: peek_def)

lemma request_header_of_bytes [simp]: "request_header_of (request_header_bytes h @ rest) = h"
  using peek_in_append [of "[]" 0 "int_bytes (requestLength h)" 4]
    peek_in_append [of "int_bytes (requestLength h)" 4 "int_bytes (methodId h)" 1]
    peek_in_append [of "int_bytes (requestLength h) @ int_bytes (methodId h)" 5 "int_bytes (tag h)" 2]
  by (simp add: request_header_of_def request_header_bytes_def bytes_int_int_bytes)

lemma response_header_of_bytes [simp]: "response_header_of (response_header_bytes h @ rest) = h"
  using peek_in_append [of "[]" 0 "int_bytes (responseLen h)" 4]
    peek_in_append [of "int_bytes (responseLen h)" 4 "int_bytes (rtag h)" 2]
  by (simp add: response_header_of_def response_header_bytes_def bytes_int_int_bytes)

lemma int_bytes_bytes_int:
  assumes "length bs = sizeof TYPE('a::len word)" "8 dvd LENGTH('a)"
  shows "int_bytes (bytes_int bs :: 'a word) = bs"
proof -
  obtain k where k: "LENGTH('a) = 8 * k" using assms(2) by (auto elim: dvdE)
  have "le_value bs < 256 ^ length bs" by (rule le_value_bound)
  with assms(1) k have "le_value bs < 2 ^ LENGTH('a)" by (simp add: sizeof_def power_mult)
  then have "unat (bytes_int bs :: 'a word) = le_value bs"
    by (simp add: bytes_int_def unat_of_nat)
  with assms(1) show ?thesis by (simp add: int_bytes_def flip: assms(1))
qed

lemma peek_split_at:
  "peek 0 n bs @ peek n m bs = peek 0 (n + m) bs"
  using peek_append [of 0 n m bs] by simp

lemma peek_whole: "length bs = n \<Longrightarrow> peek 0 n bs = bs"
  by (simp add: peek_def)

lemma request_header_bytes_of:
  "length bs = 7 \<Longrightarrow> request_header_bytes (request_header_of bs) = bs"
  using peek_split_at [of 4 bs 1] peek_split_at [of 5 bs 2] peek_whole [of bs 7]
  by (simp add: request_header_bytes_def request_header_of_def int_bytes_bytes_int
      flip: append_assoc)

lemma response_header_bytes_of:
  "length bs = 6 \<Longrightarrow> response_header_bytes (response_header_of bs) = bs"
  using peek_split_at [of 4 bs 2] peek_whole [of bs 6]
  by (simp add: response_header_bytes_def response_header_of_def int_bytes_bytes_int)

subsection \<open>Message buffers\<close>

text \<open>
  \<open>RequestBuffer(uint32_t len)\<close> passes \<open>len + sizeof(RequestHeader)\<close>, a 64-bit sum, to a 32-bit
  parameter, and starts the cursor after the header.
\<close>

definition request_buffer :: "(nat \<Rightarrow> u8) \<Rightarrow> u32 \<Rightarrow> buffer" where
  "request_buffer fresh len =
     buffer_alloc fresh (of_nat (unat len + request_header_size)) (of_nat request_header_size)"

definition response_buffer :: "(nat \<Rightarrow> u8) \<Rightarrow> u32 \<Rightarrow> buffer" where
  "response_buffer fresh len =
     buffer_alloc fresh (of_nat (unat len + response_header_size)) (of_nat response_header_size)"

text \<open>Reading and writing the header through the pointer to the start of the block.\<close>

definition get_header :: "(buffer, request_header) act" where
  "get_header b =
     (case bdata b of
        None \<Rightarrow> (Inl (UB NullDereference), b)
      | Some m \<Rightarrow>
          if length m < request_header_size then (Inl (UB OutOfBounds), b)
          else (Inr (request_header_of m), b))"

definition set_header :: "request_header \<Rightarrow> (buffer, unit) act" where
  "set_header h b =
     (case bdata b of
        None \<Rightarrow> (Inl (UB NullDereference), b)
      | Some m \<Rightarrow>
          if length m < request_header_size then (Inl (UB OutOfBounds), b)
          else (Inr (), b\<lparr>bdata := Some (poke 0 (request_header_bytes h) m)\<rparr>))"

definition set_response_header :: "response_header \<Rightarrow> (buffer, unit) act" where
  "set_response_header h b =
     (case bdata b of
        None \<Rightarrow> (Inl (UB NullDereference), b)
      | Some m \<Rightarrow>
          if length m < response_header_size then (Inl (UB OutOfBounds), b)
          else (Inr (), b\<lparr>bdata := Some (poke 0 (response_header_bytes h) m)\<rparr>))"

lemma unat_of_nat_u32: "n < 2 ^ 32 \<Longrightarrow> unat (of_nat n :: u32) = n"
  by (simp add: unat_of_nat)

lemma of_nat_u32_pos: "0 < n \<Longrightarrow> n < 2 ^ 32 \<Longrightarrow> (0 :: u32) < of_nat n"
  by (simp add: word_less_nat_alt unat_of_nat_u32)

lemma request_buffer_shape:
  assumes "unat len + 7 < 2 ^ 32"
  shows "request_buffer fresh len =
    \<lparr>bdata = Some (map fresh [0..<unat len + 7]), blen = len + 7, boffset = 7\<rparr>"
  using assms of_nat_u32_pos [of "unat len + 7"] unat_of_nat_u32 [of "unat len + 7"]
  by (simp add: request_buffer_def buffer_alloc_def request_header_size_def)

lemma response_buffer_shape:
  assumes "unat len + 6 < 2 ^ 32"
  shows "response_buffer fresh len =
    \<lparr>bdata = Some (map fresh [0..<unat len + 6]), blen = len + 6, boffset = 6\<rparr>"
  using assms of_nat_u32_pos [of "unat len + 6"] unat_of_nat_u32 [of "unat len + 6"]
  by (simp add: response_buffer_def buffer_alloc_def response_header_size_def)

lemma unat_plus_7: "unat (len :: u32) + 7 < 2 ^ 32 \<Longrightarrow> unat (len + 7) = unat len + 7"
  using unat_of_nat_u32 [of "unat len + 7"] by simp

lemma buf_ok_request_buffer:
  "unat len + 7 < 2 ^ 32 \<Longrightarrow> buf_ok (request_buffer fresh len)"
  by (simp add: request_buffer_shape buf_ok_def content_def unat_plus_7)

lemma request_buffer_room:
  "unat len + 7 < 2 ^ 32 \<Longrightarrow> fits (request_buffer fresh len) n \<longleftrightarrow> n \<le> unat len"
  by (simp add: request_buffer_shape fits_def unat_plus_7)

text \<open>The sum wraps for the seven largest lengths: no block at all, and a cursor past the end.\<close>

lemma request_buffer_wraps:
  "request_buffer fresh 0xFFFFFFF9 = \<lparr>bdata = None, blen = 0, boffset = 7\<rparr>"
  by (simp add: request_buffer_def buffer_alloc_def request_header_size_def)

subsection \<open>Properties\<close>

text \<open>
  The wire images of the packed headers are exact: encoding then decoding gives the header back
  whatever follows it, and every 7 (6) bytes are the image of exactly the header they decode to.
\<close>

lemma header_images_roundtrip:
  "request_header_of (request_header_bytes h @ rest) = h \<and>
   response_header_of (response_header_bytes r @ rest) = r \<and>
   (length bs = request_header_size \<longrightarrow> request_header_bytes (request_header_of bs) = bs) \<and>
   (length cs = response_header_size \<longrightarrow> response_header_bytes (response_header_of cs) = cs)"
  by (simp add: request_header_bytes_of response_header_bytes_of request_header_size_def
      response_header_size_def)

lemma header_images_roundtrip_witness:
  "request_header_bytes (request_header_of [1, 0, 0, 0, 2, 3, 0]) = [1, 0, 0, 0, 2, 3, 0]"
  using header_images_roundtrip [of undefined "[]" undefined "[1, 0, 0, 0, 2, 3, 0]" "[]"]
  by (simp add: request_header_size_def)

text \<open>
  A request buffer for a payload whose size leaves room for the 7-byte header within 32 bits is
  well formed with room for exactly that payload, its header can be written and read back, and
  writing the header leaves the payload alone; for the largest lengths the size wraps to a buffer
  without a block, on which writing the header is a null dereference.
\<close>

lemma request_buffer_layout:
  assumes "unat len + request_header_size < 2 ^ 32"
  shows "buf_ok (request_buffer fresh len) \<and>
    fits (request_buffer fresh len) n = (n \<le> unat len) \<and>
    (\<exists>t. set_header h (request_buffer fresh len) = (Inr (), t) \<and> fst (get_header t) = Inr h \<and>
      peek 7 (unat len) (content t) = peek 7 (unat len) (content (request_buffer fresh len))) \<and>
    fst (set_header h (request_buffer fresh 0xFFFFFFF9)) = Inl (UB NullDereference)"
proof -
  have len: "unat len + 7 < 2 ^ 32" using assms by (simp add: request_header_size_def)
  let ?b = "request_buffer fresh len" and ?m = "map fresh [0..<unat len + 7]"
  let ?t = "?b\<lparr>bdata := Some (poke 0 (request_header_bytes h) ?m)\<rparr>"
  have "set_header h ?b = (Inr (), ?t)"
    using len by (simp add: set_header_def request_buffer_shape request_header_size_def)
  moreover have "fst (get_header ?t) = Inr h"
    by (simp add: get_header_def request_header_size_def poke_def)
  moreover have "peek 7 (unat len) (content ?t) = peek 7 (unat len) (content ?b)"
    using len peek_poke_after [of 0 "request_header_bytes h" 7 ?m "unat len"]
    by (simp add: content_def request_buffer_shape)
  ultimately show ?thesis
    using len by (auto simp: buf_ok_request_buffer request_buffer_room request_buffer_wraps set_header_def)
qed

lemma request_buffer_layout_witness:
  "buf_ok (request_buffer (\<lambda>_. 0) 3) \<and> fits (request_buffer (\<lambda>_. 0) 3) 3"
  using request_buffer_layout [of 3 "\<lambda>_. 0" 3] by (simp add: request_header_size_def)

end
