(* ===== verification/Crypto.thy ===== *)
theory Crypto
  imports Ids "HOL-Library.Multiset"
begin

section \<open>The wrappers around OpenSSL\<close>

text \<open>
  \<open>crypto/HashCrypto.cpp\<close>, \<open>KeyPair.cpp\<close>, \<open>SymmetricalCypher.cpp\<close> and \<open>verifyData\<close>, \<open>getId\<close> of
  \<open>core/PublicKey.cpp\<close>.  OpenSSL is a parameter: a record of its functions over a state \<open>'w\<close> of the
  library that the model never looks into.  A function gets the handles of the objects it works on
  (\<open>None\<close> for a null pointer) and answers with its status and the bytes it stored.  The model adds
  which objects are alive, so that a leak is visible: a \<open>std::unique_ptr\<close> frees its object when its
  scope is left, by a return or by an exception; a raw pointer does not.
\<close>

subsection \<open>The library\<close>

datatype res_kind =
  MdCtx | PkeyCtx | Pkey | CipherCtx | NewSignature | NewPublicKey | NewNode

type_synonym resource = "res_kind \<times> nat"

type_synonym 'w status = "'w \<Rightarrow> int \<times> 'w"

record 'w openssl =
  md_ctx_new :: "'w \<Rightarrow> nat option \<times> 'w"
  pkey_ctx_new_from_name :: "string \<Rightarrow> 'w \<Rightarrow> nat option \<times> 'w"
  cipher_ctx_new :: "'w \<Rightarrow> nat option \<times> 'w"
  ec_gen :: "string \<Rightarrow> 'w \<Rightarrow> nat option \<times> 'w"
  operator_new :: "res_kind \<Rightarrow> 'w \<Rightarrow> nat \<times> 'w"
  free_object :: "resource \<Rightarrow> 'w \<Rightarrow> 'w"
  digest_init_ex2 :: "nat option \<Rightarrow> 'w status"
  digest_update :: "nat option \<Rightarrow> bytes \<Rightarrow> 'w status"
  digest_final_ex :: "nat option \<Rightarrow> 'w \<Rightarrow> (int \<times> bytes) \<times> 'w"
  digest_sign_init :: "nat option \<Rightarrow> nat option \<Rightarrow> 'w status"
  digest_sign_update :: "nat option \<Rightarrow> bytes \<Rightarrow> 'w status"
  digest_sign_final :: "nat option \<Rightarrow> nat \<Rightarrow> 'w \<Rightarrow> (int \<times> bytes) \<times> 'w"
  digest_verify_init :: "nat option \<Rightarrow> nat option \<Rightarrow> 'w status"
  digest_verify_update :: "nat option \<Rightarrow> bytes \<Rightarrow> 'w status"
  digest_verify_final :: "nat option \<Rightarrow> bytes \<Rightarrow> 'w status"
  fromdata_init :: "nat option \<Rightarrow> 'w status"
  fromdata :: "nat option \<Rightarrow> string \<Rightarrow> bytes \<Rightarrow> 'w \<Rightarrow> (int \<times> nat option) \<times> 'w"
  get_pub_key :: "nat option \<Rightarrow> nat \<Rightarrow> 'w \<Rightarrow> (int \<times> bytes) \<times> 'w"
  derive_set_peer :: "nat option \<Rightarrow> nat option \<Rightarrow> 'w status"
  derive_size :: "nat option \<Rightarrow> 'w \<Rightarrow> (int \<times> nat) \<times> 'w"
  derive :: "nat option \<Rightarrow> nat \<Rightarrow> 'w \<Rightarrow> (int \<times> bytes) \<times> 'w"
  encrypt_init :: "nat option \<Rightarrow> bytes \<Rightarrow> bytes \<Rightarrow> 'w status"
  decrypt_init :: "nat option \<Rightarrow> bytes \<Rightarrow> bytes \<Rightarrow> 'w status"
  encrypt_update :: "nat option \<Rightarrow> bytes \<Rightarrow> int \<Rightarrow> 'w \<Rightarrow> (int \<times> bytes \<times> u32) \<times> 'w"
  decrypt_update :: "nat option \<Rightarrow> bytes \<Rightarrow> int \<Rightarrow> 'w \<Rightarrow> (int \<times> bytes \<times> u32) \<times> 'w"

record 'w crypto =
  world :: 'w
  live :: "resource multiset"

definition call_lib :: "('w \<Rightarrow> 'a \<times> 'w) \<Rightarrow> ('w crypto, 'a) act" where
  "call_lib f s = (case f (world s) of (x, w) \<Rightarrow> (Inr x, s\<lparr>world := w\<rparr>))"

text \<open>\<open>if (... != 1) throw CryptoException();\<close>\<close>

definition must_be_one :: "int \<Rightarrow> ('s, unit) act" where
  "must_be_one r = (if r \<noteq> 1 then fail (raise CryptoException) else ret ())"

definition must_succeed :: "'w status \<Rightarrow> ('w crypto, unit) act" where
  "must_succeed f = andthen (call_lib f) must_be_one"

text \<open>\<open>if (... == nullptr) throw CryptoException();\<close>\<close>

definition not_null :: "nat option \<Rightarrow> ('s, unit) act" where
  "not_null p = (if p = None then fail (raise CryptoException) else ret ())"

subsection \<open>Ownership\<close>

definition res_of :: "res_kind \<Rightarrow> nat option \<Rightarrow> resource multiset" where
  "res_of k p = (case p of None \<Rightarrow> {#} | Some h \<Rightarrow> {#(k, h)#})"

definition own :: "res_kind \<Rightarrow> nat option \<Rightarrow> ('w crypto, unit) act" where
  "own k p = modify (\<lambda>s. s\<lparr>live := live s + res_of k p\<rparr>)"

definition obtain_ptr :: "res_kind \<Rightarrow> ('w \<Rightarrow> nat option \<times> 'w) \<Rightarrow> ('w crypto, nat option) act" where
  "obtain_ptr k f = andthen (call_lib f) (\<lambda>p. andthen (own k p) (\<lambda>_. ret p))"

definition drop_ptr :: "'w openssl \<Rightarrow> res_kind \<Rightarrow> nat option \<Rightarrow> 'w crypto \<Rightarrow> 'w crypto" where
  "drop_ptr L k p s =
     (case p of None \<Rightarrow> s
      | Some h \<Rightarrow> s\<lparr>world := free_object L (k, h) (world s), live := live s - {#(k, h)#}\<rparr>)"

text \<open>The body of a scope in which a \<open>std::unique_ptr\<close> owns \<open>p\<close>.\<close>

definition unique_ptr ::
    "'w openssl \<Rightarrow> res_kind \<Rightarrow> nat option \<Rightarrow> ('w crypto, 'a) act \<Rightarrow> ('w crypto, 'a) act" where
  "unique_ptr L k p body s = (case body s of (r, t) \<Rightarrow> (r, drop_ptr L k p t))"

text \<open>Members that are already constructed are destroyed when the constructor throws.\<close>

definition member_ptr ::
    "'w openssl \<Rightarrow> res_kind \<Rightarrow> nat option \<Rightarrow> ('w crypto, 'a) act \<Rightarrow> ('w crypto, 'a) act" where
  "member_ptr L k p body s =
     (case body s of (Inl e, t) \<Rightarrow> (Inl e, drop_ptr L k p t) | (Inr x, t) \<Rightarrow> (Inr x, t))"

definition new_object :: "'w openssl \<Rightarrow> res_kind \<Rightarrow> ('w crypto, nat) act" where
  "new_object L k =
     andthen (call_lib (operator_new L k)) (\<lambda>a. andthen (own k (Some a)) (\<lambda>_. ret a))"

text \<open>The bytes the library stores into a block of the program.\<close>

definition store_into :: "bytes \<Rightarrow> bytes \<Rightarrow> ('s, bytes) act" where
  "store_into block out =
     (if length out \<le> length block then ret (poke 0 out block) else fail (UB OutOfBounds))"

lemmas crypto_ops = call_lib_def must_be_one_def must_succeed_def not_null_def own_def obtain_ptr_def
  drop_ptr_def unique_ptr_def member_ptr_def new_object_def store_into_def res_of_def

subsection \<open>Hashing\<close>

definition hash_data :: "'w openssl \<Rightarrow> bytes \<Rightarrow> ('w crypto, id) act" where
  "hash_data L data =
     andthen (obtain_ptr MdCtx (md_ctx_new L)) (\<lambda>ctx. unique_ptr L MdCtx ctx (
     andthen (not_null ctx) (\<lambda>_.
     andthen (must_succeed (digest_init_ex2 L ctx)) (\<lambda>_.
     andthen (must_succeed (digest_update L ctx data)) (\<lambda>_.
     andthen (call_lib (digest_final_ex L ctx)) (\<lambda>(r, out).
     andthen (store_into (replicate 32 0) out) (\<lambda>h.
     andthen (must_be_one r) (\<lambda>_. ret (mk_id h)))))))))"

definition get_id :: "'w openssl \<Rightarrow> bytes \<Rightarrow> ('w crypto, id) act" where
  "get_id L key = hash_data L key"

subsection \<open>Key pairs and signatures\<close>

text \<open>\<open>publicKey\<close> points to a vector (its address and content); \<open>privateKey\<close> may be null.\<close>

record key_pair =
  publicKeyPtr :: nat
  publicKey :: bytes
  privateKey :: "nat option"

definition secp256k1 :: string where "secp256k1 = ''secp256k1''"

definition key_pair_new :: "'w openssl \<Rightarrow> ('w crypto, key_pair) act" where
  "key_pair_new L =
     andthen (new_object L NewPublicKey) (\<lambda>a.
     andthen (obtain_ptr Pkey (ec_gen L secp256k1)) (\<lambda>priv.
     (let key = ([] :: bytes) in
     andthen (call_lib (get_pub_key L priv (length key))) (\<lambda>(r, out).
     andthen (store_into key out) (\<lambda>key'.
     andthen (must_be_one r) (\<lambda>_.
       ret \<lparr>publicKeyPtr = a, publicKey = key', privateKey = priv\<rparr>))))))"

definition key_pair_destroy :: "'w openssl \<Rightarrow> key_pair \<Rightarrow> ('w crypto, unit) act" where
  "key_pair_destroy L kp =
     modify (drop_ptr L Pkey (privateKey kp) \<circ> drop_ptr L NewPublicKey (Some (publicKeyPtr kp)))"

definition signature_size :: nat where "signature_size = 72"

text \<open>\<open>signData\<close> returns a raw pointer: the address and the 72 bytes it points to.\<close>

definition sign_data :: "'w openssl \<Rightarrow> key_pair \<Rightarrow> bytes \<Rightarrow> ('w crypto, nat \<times> bytes) act" where
  "sign_data L kp data =
     andthen (obtain_ptr MdCtx (md_ctx_new L)) (\<lambda>ctx. unique_ptr L MdCtx ctx (
     andthen (not_null ctx) (\<lambda>_.
     andthen (must_succeed (digest_sign_init L ctx (privateKey kp))) (\<lambda>_.
     andthen (must_succeed (digest_sign_update L ctx data)) (\<lambda>_.
     andthen (new_object L NewSignature) (\<lambda>a.
     andthen (call_lib (digest_sign_final L ctx signature_size)) (\<lambda>(r, out).
     andthen (store_into (replicate signature_size 0) out) (\<lambda>sign.
     andthen (must_be_one r) (\<lambda>_. ret (a, sign))))))))))"

subsection \<open>Public keys given as octets\<close>

text \<open>
  The opening of \<open>verifyData\<close> and of the constructor of \<open>SymmetricCypher\<close>: a public key object is
  built from the octets of the key, and lives together with its context to the end of the function.
\<close>

definition with_public_key ::
    "'w openssl \<Rightarrow> bytes \<Rightarrow> (nat option \<Rightarrow> ('w crypto, 'a) act) \<Rightarrow> ('w crypto, 'a) act" where
  "with_public_key L key body =
     andthen (obtain_ptr PkeyCtx (pkey_ctx_new_from_name L ''EC'')) (\<lambda>pc. unique_ptr L PkeyCtx pc (
     andthen (not_null pc) (\<lambda>_.
     andthen (must_succeed (fromdata_init L pc)) (\<lambda>_.
     andthen (call_lib (fromdata L pc secp256k1 key)) (\<lambda>(r, ptr).
     andthen (must_be_one r) (\<lambda>_.
     andthen (own Pkey ptr) (\<lambda>_. unique_ptr L Pkey ptr (body ptr))))))))"

text \<open>
  \<open>verifyData\<close>.  The last call gets \<open>size()\<close>, the size of the key, as the length of the signature.
\<close>

definition verify_data :: "'w openssl \<Rightarrow> bytes \<Rightarrow> bytes \<Rightarrow> bytes \<Rightarrow> ('w crypto, bool) act" where
  "verify_data L key pl sign =
     with_public_key L key (\<lambda>pub.
     andthen (obtain_ptr MdCtx (md_ctx_new L)) (\<lambda>ctx. unique_ptr L MdCtx ctx (
     andthen (must_succeed (digest_verify_init L ctx pub)) (\<lambda>_.
     andthen (must_succeed (digest_verify_update L ctx pl)) (\<lambda>_.
     andthen (if length key \<le> length sign then ret () else fail (UB OutOfBounds)) (\<lambda>_.
     andthen (call_lib (digest_verify_final L ctx (take (length key) sign))) (\<lambda>r.
       ret (r = 1))))))))"

subsection \<open>The symmetric cypher\<close>

record cypher =
  cipher :: "nat option"
  decipher :: "nat option"

definition derive_secret ::
    "'w openssl \<Rightarrow> (nat \<Rightarrow> u8) \<Rightarrow> nat option \<Rightarrow> nat option \<Rightarrow> ('w crypto, bytes) act" where
  "derive_secret L fresh ctx pub =
     andthen (must_succeed (derive_set_peer L ctx pub)) (\<lambda>_.
     andthen (call_lib (derive_size L ctx)) (\<lambda>(r, secretSize).
     andthen (must_be_one r) (\<lambda>_.
     andthen (call_lib (derive L ctx secretSize)) (\<lambda>(r, out).
     andthen (store_into (map fresh [0..<secretSize]) out) (\<lambda>secret.
     andthen (must_be_one r) (\<lambda>_. ret secret))))))"

text \<open>AES-256 reads 32 bytes at the pointer to the key.\<close>

definition aes_key :: "bytes \<Rightarrow> ('s, bytes) act" where
  "aes_key secret = (if 32 \<le> length secret then ret (take 32 secret) else fail (UB OutOfBounds))"

definition init_cyphers ::
    "'w openssl \<Rightarrow> (nat \<Rightarrow> u8) \<Rightarrow> nat option \<Rightarrow> bytes \<Rightarrow> nat option \<Rightarrow> ('w crypto, cypher) act" where
  "init_cyphers L fresh ctx iv pub =
     andthen (derive_secret L fresh ctx pub) (\<lambda>secret.
     andthen (obtain_ptr CipherCtx (cipher_ctx_new L)) (\<lambda>c. member_ptr L CipherCtx c (
     andthen (obtain_ptr CipherCtx (cipher_ctx_new L)) (\<lambda>d. member_ptr L CipherCtx d (
     andthen (aes_key secret) (\<lambda>k.
     andthen (must_succeed (encrypt_init L c k iv)) (\<lambda>_.
     andthen (must_succeed (decrypt_init L d k iv)) (\<lambda>_.
       ret \<lparr>cipher = c, decipher = d\<rparr>))))))))"

definition cypher_new ::
    "'w openssl \<Rightarrow> (nat \<Rightarrow> u8) \<Rightarrow> nat option \<Rightarrow> bytes \<Rightarrow> bytes \<Rightarrow> ('w crypto, cypher) act" where
  "cypher_new L fresh ctx serializedPublicKey iv =
     unique_ptr L PkeyCtx ctx
       (with_public_key L serializedPublicKey (init_cyphers L fresh ctx iv))"

definition cypher_destroy :: "'w openssl \<Rightarrow> cypher \<Rightarrow> ('w crypto, unit) act" where
  "cypher_destroy L c =
     modify (drop_ptr L CipherCtx (cipher c) \<circ> drop_ptr L CipherCtx (decipher c))"

text \<open>
  \<open>encode\<close> and \<open>decode\<close>: \<open>input\<close> is what the source pointer shows, the result what was stored at the
  destination.  The size is passed on as an \<open>int\<close>.
\<close>

definition update_result :: "u32 \<Rightarrow> int \<times> bytes \<times> u32 \<Rightarrow> ('s, bytes) act" where
  "update_result sz x =
     (case x of (r, out, outs) \<Rightarrow>
        andthen (must_be_one r) (\<lambda>_.
          if outs \<noteq> sz then fail (raise CryptoException) else ret out))"

definition encode :: "'w openssl \<Rightarrow> cypher \<Rightarrow> bytes \<Rightarrow> u32 \<Rightarrow> ('w crypto, bytes) act" where
  "encode L c input sz =
     andthen (call_lib (encrypt_update L (cipher c) input (sint sz))) (update_result sz)"

definition decode :: "'w openssl \<Rightarrow> cypher \<Rightarrow> bytes \<Rightarrow> u32 \<Rightarrow> ('w crypto, bytes) act" where
  "decode L c input sz =
     andthen (call_lib (decrypt_update L (decipher c) input (sint sz))) (update_result sz)"

subsection \<open>Who owns what when an operation ends\<close>

text \<open>
  \<open>owns A m Q\<close>: from a state where the operation owns \<open>A\<close> beside what others own, \<open>m\<close> ends either
  with an error and nothing of its own left, or with a result \<open>x\<close> and objects \<open>M\<close> such that \<open>Q x M\<close>.
\<close>

definition owns ::
    "resource multiset \<Rightarrow> ('w crypto, 'a) act \<Rightarrow> ('a \<Rightarrow> resource multiset \<Rightarrow> bool) \<Rightarrow> bool" where
  "owns A m Q \<longleftrightarrow>
     (\<forall>R s r t. m s = (r, t) \<longrightarrow> live s = R + A \<longrightarrow>
        (case r of Inl e \<Rightarrow> live t = R | Inr x \<Rightarrow> (\<exists>M. live t = R + M \<and> Q x M)))"

named_theorems owns_rules \<open>ownership of the steps of an operation\<close>

lemma ownsI:
  assumes "\<And>R s r t. m s = (r, t) \<Longrightarrow> live s = R + A \<Longrightarrow>
     (case r of Inl e \<Rightarrow> live t = R | Inr x \<Rightarrow> (\<exists>M. live t = R + M \<and> Q x M))"
  shows "owns A m Q"
  using assms unfolding owns_def by blast

lemma ownsD:
  assumes "owns A m Q" "m s = (r, t)" "live s = R + A"
  shows "(\<exists>e. r = Inl e \<and> live t = R) \<or> (\<exists>x M. r = Inr x \<and> live t = R + M \<and> Q x M)"
  using assms unfolding owns_def by (cases r) fastforce+

lemma owns_andthen [owns_rules]:
  assumes "owns A m (\<lambda>x M. owns M (f x) Q)"
  shows "owns A (andthen m f) Q"
proof (rule ownsI)
  fix R s r t
  assume run: "andthen m f s = (r, t)" and l: "live s = R + A"
  obtain q u where m: "m s = (q, u)" by fastforce
  from ownsD [OF assms m l] run m ownsD [of _ _ Q u r t R]
  show "case r of Inl e \<Rightarrow> live t = R | Inr x \<Rightarrow> \<exists>M. live t = R + M \<and> Q x M"
    by (fastforce simp: andthen_def split: sum.splits)
qed

lemma owns_ret [owns_rules]: "Q x A \<Longrightarrow> owns A (ret x) Q"
  by (rule ownsI) (auto simp: ret_def)

lemma owns_fail [owns_rules]: "A = {#} \<Longrightarrow> owns A (fail e) Q"
  by (rule ownsI) (auto simp: fail_def)

lemma owns_if [owns_rules]:
  "(c \<Longrightarrow> owns A m Q) \<Longrightarrow> (\<not> c \<Longrightarrow> owns A n Q) \<Longrightarrow> owns A (if c then m else n) Q"
  by simp

lemma owns_call [owns_rules]: "(\<And>x. Q x A) \<Longrightarrow> owns A (call_lib f) Q"
  by (rule ownsI) (auto simp: call_lib_def split: prod.splits)

lemma owns_own [owns_rules]: "Q () (A + res_of k p) \<Longrightarrow> owns A (own k p) Q"
  by (rule ownsI) (auto simp: own_def modify_def add.assoc)

lemma owns_checks [owns_rules]:
  "A = {#} \<Longrightarrow> Q () {#} \<Longrightarrow> owns A (must_be_one r) Q"
  "A = {#} \<Longrightarrow> Q () {#} \<Longrightarrow> owns A (not_null p) Q"
  "A = {#} \<Longrightarrow> Q () {#} \<Longrightarrow> owns A (must_succeed f) Q"
  unfolding must_be_one_def not_null_def must_succeed_def
  by (auto intro!: owns_rules)

lemma owns_store [owns_rules]:
  "A = {#} \<Longrightarrow> (\<And>b. Q b {#}) \<Longrightarrow> owns A (store_into block out) Q"
  "A = {#} \<Longrightarrow> (\<And>b. Q b {#}) \<Longrightarrow> owns A (aes_key secret) Q"
  unfolding store_into_def aes_key_def by (auto intro!: owns_rules)

lemma owns_obtain [owns_rules]:
  "(\<And>p. Q p (A + res_of k p)) \<Longrightarrow> owns A (obtain_ptr k f) Q"
  unfolding obtain_ptr_def by (auto intro!: owns_rules)

lemma live_drop: "live (drop_ptr L k p s) = live s - res_of k p"
  by (cases p) (simp_all add: drop_ptr_def res_of_def)

lemma owns_unique [owns_rules]:
  assumes "A = res_of k p" "owns {#} body Q"
  shows "owns A (unique_ptr L k p body) Q"
proof (rule ownsI)
  fix R s r t
  assume run: "unique_ptr L k p body s = (r, t)" and l: "live s = R + A"
  then obtain u where u: "body s = (r, u)" "t = drop_ptr L k p u"
    by (auto simp: unique_ptr_def split: prod.splits)
  have "live s = (R + A) + {#}" using l by simp
  from ownsD [OF assms(2) u(1) this] u(2) assms(1)
  show "case r of Inl e \<Rightarrow> live t = R | Inr x \<Rightarrow> \<exists>M. live t = R + M \<and> Q x M"
    by (auto simp: live_drop)
qed

lemma owns_member [owns_rules]:
  assumes "A = res_of k p" "owns {#} body (\<lambda>x M. Q x (res_of k p + M))"
  shows "owns A (member_ptr L k p body) Q"
proof (rule ownsI)
  fix R s r t
  assume run: "member_ptr L k p body s = (r, t)" and l: "live s = R + A"
  obtain q u where u: "body s = (q, u)" by fastforce
  have "live s = (R + A) + {#}" using l by simp
  from ownsD [OF assms(2) u this] u run assms(1)
  show "case r of Inl e \<Rightarrow> live t = R | Inr x \<Rightarrow> \<exists>M. live t = R + M \<and> Q x M"
    by (fastforce simp: live_drop member_ptr_def add.assoc split: sum.splits)
qed

lemma owns_split [owns_rules]: "(\<And>a b. owns A (f a b) Q) \<Longrightarrow> owns A (case x of (a, b) \<Rightarrow> f a b) Q"
  by (cases x) simp

lemma owns_hash_data: "owns {#} (hash_data L d) (\<lambda>x M. M = {#})"
  unfolding hash_data_def by (rule owns_rules refl | simp)+

lemma owns_with_public_key:
  assumes "\<And>pub. owns {#} (body pub) Q"
  shows "owns {#} (with_public_key L key body) Q"
  unfolding with_public_key_def by (rule owns_rules refl assms | simp)+

lemma owns_verify_data: "owns {#} (verify_data L key pl sign) (\<lambda>x M. M = {#})"
  unfolding verify_data_def by (rule owns_with_public_key owns_rules refl | simp)+

lemma owns_derive: "(\<And>b. Q b {#}) \<Longrightarrow> owns {#} (derive_secret L fresh ctx pub) Q"
  unfolding derive_secret_def by (rule owns_rules refl | simp)+

lemma owns_cypher_new:
  "owns (res_of PkeyCtx ctx) (cypher_new L fresh ctx key iv)
     (\<lambda>c M. M = res_of CipherCtx (cipher c) + res_of CipherCtx (decipher c))"
  unfolding cypher_new_def init_cyphers_def
  by (rule owns_with_public_key owns_derive owns_rules refl | simp)+

subsection \<open>What the code relies on\<close>

text \<open>
  Documented behaviour of OpenSSL, as hypotheses.  A digest computed without a failing call is the
  hash of the data, 32 bytes for SHA3-256, and nothing more is ever stored.
\<close>

definition digest_law :: "'w openssl \<Rightarrow> (bytes \<Rightarrow> bytes) \<Rightarrow> bool" where
  "digest_law L H \<longleftrightarrow>
     (\<forall>d. length (H d) = 32) \<and>
     (\<forall>c w r out w'. digest_final_ex L c w = ((r, out), w') \<longrightarrow> length out \<le> 32) \<and>
     (\<forall>c d w w1 w2 w3 out.
        digest_init_ex2 L c w = (1, w1) \<longrightarrow> digest_update L c d w1 = (1, w2) \<longrightarrow>
        digest_final_ex L c w2 = ((1, out), w3) \<longrightarrow> out = H d)"

text \<open>No call fails when a digest is computed from a new context to the end.\<close>

definition digest_available :: "'w openssl \<Rightarrow> bool" where
  "digest_available L \<longleftrightarrow>
     (\<forall>w. \<exists>c w0 w1. md_ctx_new L w = (Some c, w0) \<and> digest_init_ex2 L (Some c) w0 = (1, w1) \<and>
        (\<forall>d. \<exists>w2 w3 out. digest_update L (Some c) d w1 = (1, w2) \<and>
           digest_final_ex L (Some c) w2 = ((1, out), w3)))"

text \<open>
  An ECDSA signature is a DER sequence; verification accepts complete encodings only, without
  anything behind them.
\<close>

definition der_complete :: "bytes \<Rightarrow> bool" where
  "der_complete sig \<longleftrightarrow>
     2 \<le> length sig \<and> sig ! 0 = 0x30 \<and> length sig = 2 + unat (sig ! 1)"

definition verify_law :: "'w openssl \<Rightarrow> bool" where
  "verify_law L \<longleftrightarrow> (\<forall>c sig w w'. digest_verify_final L c sig w = (1, w') \<longrightarrow> der_complete sig)"

definition sign_law :: "'w openssl \<Rightarrow> nat \<Rightarrow> bool" where
  "sign_law L lo \<longleftrightarrow>
     (\<forall>c n w w' out. digest_sign_final L c n w = ((1, out), w') \<longrightarrow>
        der_complete out \<and> lo \<le> length out \<and> length out \<le> n)"

text \<open>
  Counter mode.  A cipher context that was initialised has a direction, a key, an initial vector and a
  position in the key stream; one that was not has none of them (\<open>None\<close>).  Nothing is said of updates of
  a context that was not initialised or was initialised for the other direction: they may fail.  An
  update of a context initialised for its direction combines the input with the next bytes of the
  stream and moves on.
\<close>

datatype direction = Encrypting | Decrypting

type_synonym ctr_state = "direction \<times> bytes \<times> bytes \<times> nat"

definition ctr_update ::
    "('w \<Rightarrow> nat \<Rightarrow> ctr_state option) \<Rightarrow> (bytes \<Rightarrow> bytes \<Rightarrow> nat \<Rightarrow> u8) \<Rightarrow> direction \<Rightarrow>
     (nat option \<Rightarrow> bytes \<Rightarrow> int \<Rightarrow> 'w \<Rightarrow> (int \<times> bytes \<times> u32) \<times> 'w) \<Rightarrow> bool" where
  "ctr_update ctr ks d f \<longleftrightarrow>
     (\<forall>h k iv p input w. ctr w h = Some (d, k, iv, p) \<longrightarrow> length input < 2 ^ 31 \<longrightarrow>
        (case f (Some h) input (int (length input)) w of ((r, out, n), w') \<Rightarrow>
           r = 1 \<and> out = map2 (XOR) input (map (ks k iv) [p..<p + length input]) \<and>
           n = of_nat (length input) \<and> ctr w' h = Some (d, k, iv, p + length input)))"

definition ctr_init ::
    "('w \<Rightarrow> nat \<Rightarrow> ctr_state option) \<Rightarrow> direction \<Rightarrow> (nat option \<Rightarrow> bytes \<Rightarrow> bytes \<Rightarrow> 'w status) \<Rightarrow> bool" where
  "ctr_init ctr d f \<longleftrightarrow>
     (\<forall>c k iv w w'. f c k iv w = (1, w') \<longrightarrow>
        (\<exists>h. c = Some h \<and> ctr w' h = Some (d, k, iv, 0) \<and>
          (\<forall>g. g \<noteq> h \<longrightarrow> ctr w' g = ctr w g)))"

text \<open>
  Two contexts created one after the other are different objects, and freeing an object changes no
  other context.
\<close>

definition ctr_mode ::
    "'w openssl \<Rightarrow> ('w \<Rightarrow> nat \<Rightarrow> ctr_state option) \<Rightarrow> (bytes \<Rightarrow> bytes \<Rightarrow> nat \<Rightarrow> u8) \<Rightarrow> bool" where
  "ctr_mode L ctr ks \<longleftrightarrow>
     ctr_init ctr Encrypting (encrypt_init L) \<and> ctr_init ctr Decrypting (decrypt_init L) \<and>
     ctr_update ctr ks Encrypting (encrypt_update L) \<and> ctr_update ctr ks Decrypting (decrypt_update L) \<and>
     (\<forall>w h w1 g w2. cipher_ctx_new L w = (Some h, w1) \<longrightarrow> cipher_ctx_new L w1 = (Some g, w2) \<longrightarrow> g \<noteq> h) \<and>
     (\<forall>x h w. x \<noteq> (CipherCtx, h) \<longrightarrow> ctr (free_object L x w) h = ctr w h)"

definition key_of :: "ctr_state option \<Rightarrow> bytes option" where
  "key_of c = map_option (\<lambda>(d, k, iv, p). k) c"

subsection \<open>A library that satisfies the laws\<close>

text \<open>
  A concrete instance for the examples: objects are numbered; one that was initialised has a direction,
  two byte strings and a counter, and an update in the wrong direction or of an object that was not
  initialised fails, as does the end of a digest that was not begun.  Hashing pads the data to 32 bytes,
  a signature is an encoding of 70 bytes, the key stream adds the position to the first byte of the key.
\<close>

type_synonym sample_world = "nat \<times> (nat \<Rightarrow> ctr_state option)"

definition sample_hash :: "bytes \<Rightarrow> bytes" where
  "sample_hash d = take 32 (d @ replicate 32 0)"

definition sample_ks :: "bytes \<Rightarrow> bytes \<Rightarrow> nat \<Rightarrow> u8" where
  "sample_ks k iv i = hd k + of_nat i"

definition sample_new :: "sample_world \<Rightarrow> nat option \<times> sample_world" where
  "sample_new w = (Some (fst w), (Suc (fst w), snd w))"

definition sample_ctr :: "sample_world \<Rightarrow> nat \<Rightarrow> ctr_state option" where
  "sample_ctr w = snd w"

definition sample_init :: "direction \<Rightarrow> nat option \<Rightarrow> bytes \<Rightarrow> bytes \<Rightarrow> sample_world status" where
  "sample_init d c k iv w =
     (case c of None \<Rightarrow> (0, w) | Some h \<Rightarrow> (1, (fst w, (snd w)(h \<mapsto> (d, k, iv, 0)))))"

definition sample_state :: "nat option \<Rightarrow> sample_world \<Rightarrow> ctr_state option" where
  "sample_state c w = Option.bind c (snd w)"

definition sample_update ::
    "direction \<Rightarrow> nat option \<Rightarrow> bytes \<Rightarrow> int \<Rightarrow> sample_world \<Rightarrow> (int \<times> bytes \<times> u32) \<times> sample_world" where
  "sample_update dir c input n w =
     (case sample_state c w of
        None \<Rightarrow> ((0, [], 0), w)
      | Some (d, k, iv, p) \<Rightarrow>
          if d \<noteq> dir then ((0, [], 0), w)
          else
          ((1, map2 (XOR) input (map (sample_ks k iv) [p..<p + length input]), of_nat (length input)),
           (fst w, (snd w)(the c \<mapsto> (d, k, iv, p + length input)))))"

definition sample_final :: "nat option \<Rightarrow> sample_world \<Rightarrow> (int \<times> bytes) \<times> sample_world" where
  "sample_final c w =
     (case sample_state c w of
        None \<Rightarrow> ((0, []), w)
      | Some (d, k, iv, p) \<Rightarrow> ((1, sample_hash k), w))"

definition sample_signature :: bytes where
  "sample_signature = 0x30 # 68 # replicate 68 7"

definition sample_ssl :: "sample_world openssl" where
  "sample_ssl =
     \<lparr>md_ctx_new = sample_new, pkey_ctx_new_from_name = (\<lambda>_. sample_new),
      cipher_ctx_new = sample_new, ec_gen = (\<lambda>_. sample_new),
      operator_new = (\<lambda>_ w. (fst w, (Suc (fst w), snd w))), free_object = (\<lambda>_ w. w),
      digest_init_ex2 = (\<lambda>c. sample_init Encrypting c [] []),
      digest_update = (\<lambda>c d. sample_init Encrypting c d []),
      digest_final_ex = sample_final,
      digest_sign_init = (\<lambda>_ _ w. (1, w)), digest_sign_update = (\<lambda>_ _ w. (1, w)),
      digest_sign_final = (\<lambda>_ n w. ((if 70 \<le> n then 1 else 0, sample_signature), w)),
      digest_verify_init = (\<lambda>_ _ w. (1, w)), digest_verify_update = (\<lambda>_ _ w. (1, w)),
      digest_verify_final = (\<lambda>_ sig w. (if sig = sample_signature then 1 else 0, w)),
      fromdata_init = (\<lambda>_ w. (1, w)),
      fromdata = (\<lambda>_ _ _ w. ((1, Some (fst w)), (Suc (fst w), snd w))),
      get_pub_key = (\<lambda>_ n w. ((1, []), w)),
      derive_set_peer = (\<lambda>_ _ w. (1, w)), derive_size = (\<lambda>_ w. ((1, 32), w)),
      derive = (\<lambda>_ _ w. ((1, replicate 32 9), w)),
      encrypt_init = sample_init Encrypting, decrypt_init = sample_init Decrypting,
      encrypt_update = sample_update Encrypting, decrypt_update = sample_update Decrypting\<rparr>"

definition sample_start :: "sample_world crypto" where
  "sample_start = \<lparr>world = (0, \<lambda>_. None), live = {#}\<rparr>"

lemmas sample_defs = sample_start_def sample_ssl_def sample_new_def sample_init_def sample_hash_def
  sample_state_def sample_final_def

lemma sample_digest_law: "digest_law sample_ssl sample_hash"
  unfolding digest_law_def
  by (auto simp: sample_defs split: option.splits)

lemma sample_digest_available: "digest_available sample_ssl"
  by (simp add: digest_available_def sample_defs)

lemma sample_verify_law: "verify_law sample_ssl"
  unfolding verify_law_def
  by (auto simp: sample_ssl_def sample_signature_def der_complete_def split: if_splits)

lemma sample_sign_law: "sign_law sample_ssl 70"
  unfolding sign_law_def
  by (auto simp: sample_ssl_def sample_signature_def der_complete_def split: if_splits)

lemma sample_ctr_mode: "ctr_mode sample_ssl sample_ctr sample_ks"
  unfolding ctr_mode_def ctr_init_def ctr_update_def
  by (auto simp: sample_defs sample_ctr_def sample_update_def split: option.splits)

subsection \<open>Results of successful operations\<close>

lemma andthen_InrE:
  assumes "andthen m f s = (Inr y, t)"
  obtains x u where "m s = (Inr x, u)" "f x u = (Inr y, t)"
  using assms by (auto simp: andthen_def split: prod.splits sum.splits)

lemma unique_ptr_InrE:
  assumes "unique_ptr L k p body s = (Inr x, t)"
  obtains u where "body s = (Inr x, u)" "t = drop_ptr L k p u"
  using assms by (auto simp: unique_ptr_def split: prod.splits)

lemma member_ptr_InrE:
  assumes "member_ptr L k p body s = (Inr x, t)"
  obtains "body s = (Inr x, t)"
  using assms by (auto simp: member_ptr_def split: prod.splits sum.splits)

lemma must_succeed_Inr:
  "must_succeed f s = (Inr y, t) \<Longrightarrow> f (world s) = (1, world t)"
  by (auto simp: must_succeed_def andthen_def call_lib_def must_be_one_def fail_def ret_def
      split: prod.splits if_splits)

lemma must_be_one_Inr: "must_be_one r s = (Inr y, t) \<longleftrightarrow> r = 1 \<and> t = s"
  by (auto simp: must_be_one_def fail_def ret_def)

lemma must_be_one_run:
  "must_be_one 1 s = (Inr (), s)" "r \<noteq> 1 \<Longrightarrow> must_be_one r s = (Inl (raise CryptoException), s)"
  by (simp_all add: must_be_one_def fail_def ret_def)

lemma world_drop:
  "ctr_mode L ctr ks \<Longrightarrow> k \<noteq> CipherCtx \<Longrightarrow> ctr (world (drop_ptr L k p s)) h = ctr (world s) h"
  by (cases p) (simp_all add: drop_ptr_def ctr_mode_def)

lemma with_public_key_Inr:
  assumes "with_public_key L key body s = (Inr x, t)"
  obtains pub u v p q where "body pub u = (Inr x, v)"
    "t = drop_ptr L PkeyCtx p (drop_ptr L Pkey q v)"
proof -
  from assms have "\<exists>pub u v p q. body pub u = (Inr x, v) \<and>
      t = drop_ptr L PkeyCtx p (drop_ptr L Pkey q v)"
    unfolding with_public_key_def
    by (elim andthen_InrE unique_ptr_InrE)
      (fastforce split: prod.splits elim!: andthen_InrE unique_ptr_InrE)
  with that show thesis by blast
qed

lemma init_cyphers_Inr:
  assumes "init_cyphers L fresh ctx iv pub s = (Inr c, t)"
  obtains k v x y where "length k = 32" "cipher_ctx_new L v = (cipher c, fst x)"
    "cipher_ctx_new L (fst x) = (decipher c, snd x)"
    "encrypt_init L (cipher c) k iv (snd x) = (1, y)" "decrypt_init L (decipher c) k iv y = (1, world t)"
proof -
  have key: "length k = 32 \<and> x = u" if "aes_key secret u = (Inr k, x)" for secret u k x
    using that by (auto simp: aes_key_def ret_def fail_def split: if_splits)
  have new: "f (world u) = (p, world x)" if "obtain_ptr r f u = (Inr p, x)" for r f u p x
    using that by (auto simp: obtain_ptr_def andthen_def call_lib_def own_def modify_def ret_def split: prod.splits)
  from assms obtain k v w x y where "length k = 32" "cipher_ctx_new L v = (cipher c, w)"
    "cipher_ctx_new L w = (decipher c, x)"
    "encrypt_init L (cipher c) k iv x = (1, y)" "decrypt_init L (decipher c) k iv y = (1, world t)"
    unfolding init_cyphers_def
    by (elim andthen_InrE member_ptr_InrE) (auto simp: ret_def dest!: key must_succeed_Inr new)
  then show thesis by (intro that [of k v "(w, x)" y]) simp_all
qed

lemma cypher_new_keyed:
  assumes law: "ctr_mode L ctr ks" and run: "cypher_new L fresh ctx key iv s = (Inr c, t)"
  shows "\<exists>h g k. cipher c = Some h \<and> decipher c = Some g \<and> length k = 32 \<and>
    ctr (world t) h = Some (Encrypting, k, iv, 0) \<and> ctr (world t) g = Some (Decrypting, k, iv, 0)"
proof -
  obtain u where u: "with_public_key L key (init_cyphers L fresh ctx iv) s = (Inr c, u)"
    and t: "t = drop_ptr L PkeyCtx ctx u"
    using run unfolding cypher_new_def by (elim unique_ptr_InrE)
  from u obtain pub v w p q where v: "init_cyphers L fresh ctx iv pub v = (Inr c, w)"
    and w: "u = drop_ptr L PkeyCtx p (drop_ptr L Pkey q w)"
    by (rule with_public_key_Inr)
  from v obtain k v x y where k: "length k = 32"
    and n: "cipher_ctx_new L v = (cipher c, fst x)" "cipher_ctx_new L (fst x) = (decipher c, snd x)"
    and e: "encrypt_init L (cipher c) k iv (snd x) = (1, y)"
    and d: "decrypt_init L (decipher c) k iv y = (1, world w)"
    by (rule init_cyphers_Inr)
  have same: "ctr (world t) j = ctr (world w) j" for j
    using t w world_drop [OF law, of _ _ _ j] by simp
  from law e obtain h where h: "cipher c = Some h" "ctr y h = Some (Encrypting, k, iv, 0)"
    unfolding ctr_mode_def ctr_init_def by blast
  from law d obtain g where g: "decipher c = Some g" "ctr (world w) g = Some (Decrypting, k, iv, 0)"
    "\<And>j. j \<noteq> g \<Longrightarrow> ctr (world w) j = ctr y j"
    unfolding ctr_mode_def ctr_init_def by blast
  from law n h(1) g(1) have "g \<noteq> h" unfolding ctr_mode_def by metis
  with h g have "ctr (world w) h = Some (Encrypting, k, iv, 0)" by auto
  with h g k same show ?thesis by auto
qed

lemma sint_length: "n < 2 ^ 31 \<Longrightarrow> sint (of_nat n :: u32) = int n"
  by (simp add: signed_of_nat signed_take_bit_int_eq_self)

subsection \<open>Streams of encoded and decoded blocks\<close>

primrec each_block :: "(bytes \<Rightarrow> ('s, bytes) act) \<Rightarrow> bytes list \<Rightarrow> ('s, bytes list) act" where
  "each_block f [] = ret []"
| "each_block f (m # ms) =
     andthen (f m) (\<lambda>x. andthen (each_block f ms) (\<lambda>xs. ret (x # xs)))"

definition encode_all :: "'w openssl \<Rightarrow> cypher \<Rightarrow> bytes list \<Rightarrow> ('w crypto, bytes list) act" where
  "encode_all L c = each_block (\<lambda>m. encode L c m (of_nat (length m)))"

definition decode_all :: "'w openssl \<Rightarrow> cypher \<Rightarrow> bytes list \<Rightarrow> ('w crypto, bytes list) act" where
  "decode_all L c = each_block (\<lambda>m. decode L c m (of_nat (length m)))"

definition masked :: "(nat \<Rightarrow> u8) \<Rightarrow> nat \<Rightarrow> bytes \<Rightarrow> bytes" where
  "masked key p bs = map2 (XOR) bs (map key [p..<p + length bs])"

lemma length_masked [simp]: "length (masked key p bs) = length bs"
  by (simp add: masked_def)

lemma masked_append: "masked key p (as @ bs) = masked key p as @ masked key (p + length as) bs"
proof -
  have "[p..<p + length as + length bs] = [p..<p + length as] @ [p + length as..<p + length as + length bs]"
    by (rule upt_add_eq_append) simp
  then show ?thesis by (simp add: masked_def add.assoc)
qed

lemma masked_masked [simp]: "masked key p (masked key p bs) = bs"
  by (rule nth_equalityI) (simp_all add: masked_def xor.assoc)

lemma update_masked:
  assumes "ctr_update ctr ks d f" "ctr (world s) h = Some (d, k, iv, p)" "length m < 2 ^ 31"
  shows "\<exists>t. andthen (call_lib (f (Some h) m (sint (of_nat (length m) :: u32))))
      (update_result (of_nat (length m))) s = (Inr (masked (ks k iv) p m), t) \<and>
    ctr (world t) h = Some (d, k, iv, p + length m)"
proof -
  obtain r out n w where f: "f (Some h) m (int (length m)) (world s) = ((r, out, n), w)"
    by (metis surjective_pairing)
  with assms have "r = 1" "out = masked (ks k iv) p m" "n = of_nat (length m)"
    "ctr w h = Some (d, k, iv, p + length m)"
    unfolding ctr_update_def masked_def by fastforce+
  with f show ?thesis
    by (simp add: sint_length [OF assms(3)] call_lib_def andthen_def update_result_def
        must_be_one_def ret_def)
qed

lemma each_block_masked:
  assumes law: "ctr_update ctr ks d f"
    and g: "\<And>m. g m = andthen (call_lib (f (Some h) m (sint (of_nat (length m) :: u32))))
      (update_result (of_nat (length m)))"
  shows "ctr (world s) h = Some (d, k, iv, p) \<Longrightarrow> \<forall>m\<in>set ms. length m < 2 ^ 31 \<Longrightarrow>
     \<exists>xs t. each_block g ms s = (Inr xs, t) \<and> concat xs = masked (ks k iv) p (concat ms)"
proof (induction ms arbitrary: s p)
  case Nil
  then show ?case by (simp add: ret_def masked_def)
next
  case (Cons m ms)
  from update_masked [OF law Cons.prems(1), of m] Cons.prems(2) g [of m]
  obtain t where t: "g m s = (Inr (masked (ks k iv) p m), t)"
    "ctr (world t) h = Some (d, k, iv, p + length m)" by auto
  from Cons.IH [OF t(2)] Cons.prems(2) obtain xs u where
    "each_block g ms t = (Inr xs, u)" "concat xs = masked (ks k iv) (p + length m) (concat ms)"
    by auto
  with t(1) show ?case by (simp add: andthen_def ret_def masked_append)
qed

lemma encode_all_masked:
  assumes "ctr_mode L ctr ks" "cipher c = Some h" "ctr (world s) h = Some (Encrypting, k, iv, 0)"
    and "\<forall>m\<in>set ms. length m < 2 ^ 31"
  shows "\<exists>xs t. encode_all L c ms s = (Inr xs, t) \<and> concat xs = masked (ks k iv) 0 (concat ms)"
  unfolding encode_all_def
  using assms by (intro each_block_masked [of ctr ks Encrypting "encrypt_update L"])
    (simp_all add: ctr_mode_def encode_def)

lemma decode_all_masked:
  assumes "ctr_mode L ctr ks" "decipher c = Some h" "ctr (world s) h = Some (Decrypting, k, iv, 0)"
    and "\<forall>m\<in>set ms. length m < 2 ^ 31"
  shows "\<exists>xs t. decode_all L c ms s = (Inr xs, t) \<and> concat xs = masked (ks k iv) 0 (concat ms)"
  unfolding decode_all_def
  using assms by (intro each_block_masked [of ctr ks Decrypting "decrypt_update L"])
    (simp_all add: ctr_mode_def decode_def)

subsection \<open>Digests and keys\<close>

lemma hash_data_result:
  assumes law: "digest_law L H" and run: "hash_data L d s = (r, t)"
  shows "r = Inr (mk_id (H d)) \<or> r = Inl (raise CryptoException)"
proof -
  have len: "length out \<le> 32" if "digest_final_ex L c w = ((q, out), w')" for c w q out w'
    using law that unfolding digest_law_def by blast
  have val: "out = H d \<and> length (H d) = 32"
    if "digest_init_ex2 L c w = (1, w1)" "digest_update L c d w1 = (1, w2)"
      "digest_final_ex L c w2 = ((1, out), w3)" for c w w1 w2 w3 out
    using law that unfolding digest_law_def by blast
  from run show ?thesis
    by (auto simp: hash_data_def unique_ptr_def obtain_ptr_def andthen_def call_lib_def own_def
        modify_def ret_def fail_def not_null_def must_succeed_def must_be_one_def store_into_def
        poke_def split: prod.splits if_splits sum.splits dest: len dest!: val)
qed

lemma hash_data_available:
  assumes law: "digest_law L H" and up: "digest_available L"
  shows "fst (hash_data L d s) = Inr (mk_id (H d))"
proof -
  obtain c w0 w1 w2 w3 out where c: "md_ctx_new L (world s) = (Some c, w0)"
    and i: "digest_init_ex2 L (Some c) w0 = (1, w1)" and u: "digest_update L (Some c) d w1 = (1, w2)"
    and f: "digest_final_ex L (Some c) w2 = ((1, out), w3)"
    using up unfolding digest_available_def by metis
  from law i u f have "out = H d" "length (H d) = 32" unfolding digest_law_def by blast+
  with c i u f show ?thesis
    by (simp add: hash_data_def unique_ptr_def obtain_ptr_def andthen_def call_lib_def own_def
        modify_def ret_def not_null_def must_succeed_def must_be_one_def store_into_def poke_def)
qed

lemma key_pair_public_empty: "key_pair_new L s = (Inr kp, t) \<Longrightarrow> publicKey kp = []"
  unfolding key_pair_new_def Let_def
  by (elim andthen_InrE) (auto simp: store_into_def ret_def fail_def split: prod.splits if_splits
      elim!: andthen_InrE)

lemma new_object_run:
  "\<exists>a t. new_object L k s = (Inr a, t)"
  by (simp add: new_object_def andthen_def call_lib_def own_def modify_def ret_def split: prod.splits)

lemma owns_live:
  assumes "owns {#} m (\<lambda>x M. M = {#})" "m s = (r, t)"
  shows "live t = live s"
  using ownsD [OF assms, of "live s"] by auto

text \<open>
  \<open>hashData\<close> gives the digest of the data or throws \<open>CryptoException\<close>, and gives the digest when
  no library call fails; on every path the digest context is freed.
\<close>

lemma hash_data_digest:
  assumes "digest_law L H" "hash_data L d s = (r, t)"
  shows "(r = Inr (mk_id (H d)) \<or> r = Inl (raise CryptoException)) \<and>
    (digest_available L \<longrightarrow> r = Inr (mk_id (H d))) \<and> live t = live s"
proof -
  have "live t = live s" by (rule owns_live [OF owns_hash_data assms(2)])
  with hash_data_result [OF assms] hash_data_available [OF assms(1), of d s] assms(2)
  show ?thesis by auto
qed

lemma hash_data_digest_witness:
  "fst (hash_data sample_ssl [1, 2] sample_start)
     = Inr (mk_id (sample_hash [1, 2]))"
proof -
  let ?s = "sample_start"
  have "hash_data sample_ssl [1, 2] ?s
      = (fst (hash_data sample_ssl [1, 2] ?s), snd (hash_data sample_ssl [1, 2] ?s))" by simp
  from hash_data_digest [OF sample_digest_law this]
  have "fst (hash_data sample_ssl [1, 2] ?s) \<in>
      {Inr (mk_id (sample_hash [1, 2])), Inl (raise CryptoException)}" by blast
  then show ?thesis
    by (simp add: sample_defs hash_data_def
        unique_ptr_def obtain_ptr_def andthen_def call_lib_def own_def modify_def ret_def
        not_null_def must_succeed_def must_be_one_def store_into_def drop_ptr_def split: sum.splits)
qed

text \<open>
  The public key of a \<open>KeyPair\<close> is empty whatever OpenSSL answers, because the bytes are fetched
  into a vector of size 0; so the id of every key pair is the digest of the empty string.
\<close>

lemma key_pairs_share_id:
  assumes "digest_law L H" "key_pair_new L s = (Inr kp, t)"
    and "get_id L (publicKey kp) u = (Inr i, v)"
  shows "publicKey kp = [] \<and> i = mk_id (H [])"
  using key_pair_public_empty [OF assms(2)] hash_data_result [OF assms(1), of "[]" u] assms(3)
  by (auto simp: get_id_def)

lemma key_pairs_share_id_witness:
  "publicKey \<lparr>publicKeyPtr = 0, publicKey = [], privateKey = Some 1\<rparr> = [] \<and>
   mk_id (sample_hash []) = mk_id (replicate 32 0)"
proof -
  let ?s = "sample_start"
  let ?kp = "\<lparr>publicKeyPtr = 0, publicKey = [], privateKey = Some 1\<rparr>"
  have kp: "key_pair_new sample_ssl ?s = (Inr ?kp, snd (key_pair_new sample_ssl ?s))"
    by (simp add: key_pair_new_def new_object_def obtain_ptr_def sample_defs
        andthen_def call_lib_def own_def modify_def ret_def store_into_def must_be_one_def)
  have "fst (get_id sample_ssl (publicKey ?kp) ?s) = Inr (mk_id (replicate 32 0))"
    by (simp add: get_id_def sample_defs
        hash_data_def unique_ptr_def obtain_ptr_def andthen_def call_lib_def own_def modify_def
        ret_def not_null_def must_succeed_def must_be_one_def store_into_def drop_ptr_def poke_def)
  then have "get_id sample_ssl (publicKey ?kp) ?s
      = (Inr (mk_id (replicate 32 0)), snd (get_id sample_ssl (publicKey ?kp) ?s))"
    by (metis prod.collapse)
  from key_pairs_share_id [OF sample_digest_law kp this] show ?thesis by simp
qed

subsection \<open>Signatures\<close>

lemma sign_data_bytes:
  assumes "sign_data L kp d s = (Inr (a, sign), t)"
  obtains c w out w' where "digest_sign_final L c 72 w = ((1, out), w')"
    "sign = out @ drop (length out) (replicate 72 0)" "length out \<le> 72"
proof -
  from assms have "\<exists>c w out w'. digest_sign_final L c 72 w = ((1, out), w') \<and>
      sign = out @ drop (length out) (replicate 72 0) \<and> length out \<le> 72"
    unfolding sign_data_def signature_size_def
    by (elim andthen_InrE unique_ptr_InrE)
      (auto simp: store_into_def poke_def ret_def fail_def must_be_one_Inr call_lib_def
        split: prod.splits if_splits elim!: andthen_InrE, blast)
  with that show thesis by blast
qed

lemma verify_data_final:
  assumes "verify_data L key pl sign s = (Inr b, t)"
  obtains c w q w' where "digest_verify_final L c (take (length key) sign) w = (q, w')"
    "b \<longleftrightarrow> q = 1" "length key \<le> length sign"
proof -
  from assms have "\<exists>c w q w'. digest_verify_final L c (take (length key) sign) w = (q, w') \<and>
      b = (q = 1) \<and> length key \<le> length sign"
    unfolding verify_data_def
    by (elim with_public_key_Inr andthen_InrE unique_ptr_InrE)
      (auto simp: ret_def fail_def call_lib_def split: prod.splits if_splits)
  with that show thesis by blast
qed

text \<open>
  A signature made by \<open>signData\<close> never passes \<open>verifyData\<close> with a public key shorter than it, as
  the keys of secp256k1 are (33 or 65 bytes, signatures have 68 bytes and more): \<open>verifyData\<close> passes
  the size of the key as the length of the signature, so OpenSSL sees a truncated encoding.
\<close>

lemma signatures_never_verify:
  assumes "verify_law L" "sign_law L lo" "sign_data L kp d s = (Inr (a, sign), t)"
    and "length key < lo"
  shows "fst (verify_data L key pl sign u) \<noteq> Inr True"
proof
  assume "fst (verify_data L key pl sign u) = Inr True"
  then obtain v where v: "verify_data L key pl sign u = (Inr True, v)" by (metis prod.collapse)
  from assms(3) obtain c w out w' where "digest_sign_final L c 72 w = ((1, out), w')"
    and sign: "sign = out @ drop (length out) (replicate 72 0)" by (rule sign_data_bytes)
  with assms(2) have out: "der_complete out" "lo \<le> length out" unfolding sign_law_def by blast+
  from v obtain c' w1 q w2 where q: "digest_verify_final L c' (take (length key) sign) w1 = (q, w2)"
    "True \<longleftrightarrow> q = 1" by (rule verify_data_final)
  then have "der_complete (take (length key) sign)" using assms(1) unfolding verify_law_def by blast
  then have cut: "der_complete (take (length key) out)" using out(2) assms(4) sign by simp
  then have "2 \<le> length key" by (simp add: der_complete_def)
  then have same: "take (length key) out ! 1 = out ! 1" by (intro nth_take) simp
  have "length (take (length key) out) = length key" using out(2) assms(4) by simp
  with cut same have "length key = 2 + unat (out ! 1)" unfolding der_complete_def by metis
  also have "\<dots> = length out" using out(1) unfolding der_complete_def by metis
  finally show False using out(2) assms(4) by simp
qed

lemma signatures_never_verify_witness:
  "let s = sample_start;
       kp = \<lparr>publicKeyPtr = 0, publicKey = [], privateKey = Some 1\<rparr> in
   \<exists>a sign t. sign_data sample_ssl kp [5] s = (Inr (a, sign), t) \<and>
     fst (verify_data sample_ssl (replicate 33 2) [5] sign t) = Inr False"
proof -
  let ?s = "sample_start"
  let ?kp = "\<lparr>publicKeyPtr = 0, publicKey = [], privateKey = Some 1\<rparr>"
  have "\<exists>a sign t. sign_data sample_ssl ?kp [5] ?s = (Inr (a, sign), t) \<and>
      (\<exists>b. fst (verify_data sample_ssl (replicate 33 2) [5] sign t) = Inr b)"
    by (simp add: sign_data_def verify_data_def with_public_key_def sample_defs
        sample_signature_def unique_ptr_def obtain_ptr_def new_object_def andthen_def call_lib_def
        own_def modify_def ret_def not_null_def must_succeed_def must_be_one_def store_into_def
        drop_ptr_def signature_size_def)
  then obtain a sign t b where *: "sign_data sample_ssl ?kp [5] ?s = (Inr (a, sign), t)"
    "fst (verify_data sample_ssl (replicate 33 2) [5] sign t) = Inr b" by blast
  from signatures_never_verify [OF sample_verify_law sample_sign_law *(1), of "replicate 33 2" "[5]" t]
  have "b = False" using *(2) by simp
  with * show ?thesis unfolding Let_def by blast
qed

subsection \<open>Round trip of the cypher\<close>

text \<open>
  C30: two \<open>SymmetricCypher\<close>s made with the same initial vector whose key exchange gave the same key
  understand each other: whatever is encoded by one, in blocks of any sizes, is decoded by the other
  to the same bytes, in blocks of any other sizes, and neither side fails.
\<close>

theorem cypher_roundtrip:
  assumes law: "ctr_mode L ctr ks"
    and a: "cypher_new L fresh1 ca pb iv s = (Inr a, s1)"
    and b: "cypher_new L fresh2 cb pa iv t = (Inr b, t1)"
    and same: "key_of (ctr (world s1) (the (cipher a))) = key_of (ctr (world t1) (the (decipher b)))"
    and "\<forall>m\<in>set ms. length m < 2 ^ 31" "\<forall>m\<in>set ds. length m < 2 ^ 31"
  shows "\<exists>cs s2. encode_all L a ms s1 = (Inr cs, s2) \<and>
    (concat ds = concat cs \<longrightarrow> (\<exists>ps t2. decode_all L b ds t1 = (Inr ps, t2) \<and> concat ps = concat ms))"
proof -
  from cypher_new_keyed [OF law a] obtain h k where
    h: "cipher a = Some h" "ctr (world s1) h = Some (Encrypting, k, iv, 0)" by blast
  from cypher_new_keyed [OF law b] obtain g k' where
    g: "decipher b = Some g" "ctr (world t1) g = Some (Decrypting, k', iv, 0)" by blast
  from same h g have "k' = k" by (simp add: key_of_def)
  from encode_all_masked [OF law h assms(5)] obtain cs s2 where
    cs: "encode_all L a ms s1 = (Inr cs, s2)" "concat cs = masked (ks k iv) 0 (concat ms)" by blast
  from decode_all_masked [OF law g assms(6)] obtain ps t2 where
    ps: "decode_all L b ds t1 = (Inr ps, t2)" "concat ps = masked (ks k iv) 0 (concat ds)"
    using \<open>k' = k\<close> by blast
  from cs ps show ?thesis by auto
qed

theorem cypher_roundtrip_witness:
  "let (r, s1) = cypher_new sample_ssl (\<lambda>_. 0) None [1] [3] sample_start in
   \<exists>a cs s2 ps t2. r = Inr a \<and> encode_all sample_ssl a [[1, 2], [3]] s1 = (Inr cs, s2) \<and>
     concat cs = [8, 8, 8] \<and>
     decode_all sample_ssl a [[8], [8, 8]] s1 = (Inr ps, t2) \<and> concat ps = [1, 2, 3]"
proof -
  obtain r s1 where run: "cypher_new sample_ssl (\<lambda>_. 0) None [1] [3] sample_start = (r, s1)" by fastforce
  have "case cypher_new sample_ssl (\<lambda>_. 0) None [1] [3] sample_start of
      (Inr a, s1) \<Rightarrow> (case fst (encode_all sample_ssl a [[1, 2], [3]] s1) of
          Inr cs \<Rightarrow> concat cs = [8, 8, 8] | _ \<Rightarrow> False)
    | _ \<Rightarrow> False"
    by (simp add: cypher_new_def init_cyphers_def derive_secret_def aes_key_def with_public_key_def
        sample_defs unique_ptr_def member_ptr_def obtain_ptr_def encode_all_def encode_def update_result_def
        andthen_def call_lib_def own_def modify_def ret_def not_null_def must_succeed_def sample_update_def
        must_be_one_def store_into_def drop_ptr_def poke_def sample_ks_def upt_rec)
  with run obtain a where a: "r = Inr a"
    and e: "case fst (encode_all sample_ssl a [[1, 2], [3]] s1) of Inr cs \<Rightarrow> concat cs = [8, 8, 8] | _ \<Rightarrow> False"
    by (auto split: sum.splits)
  from cypher_new_keyed [OF sample_ctr_mode, of "\<lambda>_. 0" None "[1]" "[3]" sample_start a s1] run a
  obtain h g k where "cipher a = Some h" "decipher a = Some g"
    "sample_ctr (world s1) h = Some (Encrypting, k, [3], 0)"
    "sample_ctr (world s1) g = Some (Decrypting, k, [3], 0)" by blast
  then have same: "key_of (sample_ctr (world s1) (the (cipher a)))
      = key_of (sample_ctr (world s1) (the (decipher a)))" by (simp add: key_of_def)
  from run a have run': "cypher_new sample_ssl (\<lambda>_. 0) None [1] [3] sample_start = (Inr a, s1)" by simp
  from cypher_roundtrip [OF sample_ctr_mode run' run' same, of "[[1, 2], [3]]" "[[8], [8, 8]]"]
  obtain cs s2 where c: "encode_all sample_ssl a [[1, 2], [3]] s1 = (Inr cs, s2)"
    "concat [[8], [8, 8]] = concat cs \<longrightarrow>
      (\<exists>ps t2. decode_all sample_ssl a [[8], [8, 8]] s1 = (Inr ps, t2) \<and> concat ps = concat [[1, 2], [3]])"
    by auto
  from e c(1) have "concat cs = [8, 8, 8]" by simp
  with c run a show ?thesis by auto
qed

subsection \<open>Exceptions and leaks\<close>

lemma key_pair_live:
  assumes "key_pair_new L s = (r, t)"
    and "operator_new L NewPublicKey (world s) = (a, w)" "ec_gen L secp256k1 w = (priv, w1)"
  shows "live t = live s + {#(NewPublicKey, a)#} + res_of Pkey priv \<and>
    (\<forall>kp. r = Inr kp \<longrightarrow> publicKeyPtr kp = a \<and> privateKey kp = priv)"
  using assms
  by (auto simp: key_pair_new_def new_object_def obtain_ptr_def andthen_def call_lib_def own_def
      modify_def ret_def fail_def store_into_def must_be_one_def Let_def res_of_def
      split: prod.splits sum.splits if_splits)

text \<open>
  C35: whatever OpenSSL answers, hashing and verifying free every object they created, and the
  constructor of \<open>SymmetricCypher\<close> ends with exactly its two cipher contexts or, when it throws, with
  none; it always frees the key context it was given.  The constructor of \<open>KeyPair\<close> ends, on every
  outcome, with the \<open>PublicKey\<close> that \<open>new\<close> gave it and the private key that OpenSSL generated (if it did)
  still alive: when it returns they belong to the pair, and when it throws both are leaked.
\<close>

theorem crypto_ownership:
  assumes "live s = R + res_of PkeyCtx ctx"
    and "hash_data L d s = (r1, t1)" "verify_data L key pl sign s = (r2, t2)"
    and "cypher_new L fresh ctx peer iv s = (r3, t3)" "key_pair_new L s = (r4, t4)"
    and "operator_new L NewPublicKey (world s) = (a, w)" "ec_gen L secp256k1 w = (priv, w1)"
  shows "live t1 = live s \<and> live t2 = live s \<and>
    (case r3 of Inl e \<Rightarrow> live t3 = R
     | Inr c \<Rightarrow> live t3 = R + res_of CipherCtx (cipher c) + res_of CipherCtx (decipher c)) \<and>
    live t4 = live s + {#(NewPublicKey, a)#} + res_of Pkey priv \<and>
    (\<forall>kp. r4 = Inr kp \<longrightarrow> publicKeyPtr kp = a \<and> privateKey kp = priv)"
proof -
  have "live t1 = live s" by (rule owns_live [OF owns_hash_data assms(2)])
  moreover have "live t2 = live s" by (rule owns_live [OF owns_verify_data assms(3)])
  moreover from ownsD [OF owns_cypher_new assms(4,1)]
  have "case r3 of Inl e \<Rightarrow> live t3 = R
     | Inr c \<Rightarrow> live t3 = R + res_of CipherCtx (cipher c) + res_of CipherCtx (decipher c)"
    by (auto simp: add.assoc)
  moreover note key_pair_live [OF assms(5-7)]
  ultimately show ?thesis by blast
qed

text \<open>
  At the witness the bytes of the public key cannot be fetched: the constructor throws, and the public
  key at address 0 and the private key 1 stay behind.
\<close>

theorem crypto_ownership_witness:
  "let L = sample_ssl\<lparr>get_pub_key := \<lambda>_ _ w. ((0, []), w)\<rparr> in
   fst (key_pair_new L sample_start) = Inl (raise CryptoException) \<and>
   live (snd (key_pair_new L sample_start)) = {#(NewPublicKey, 0), (Pkey, 1)#}"
proof -
  let ?L = "sample_ssl\<lparr>get_pub_key := \<lambda>_ _ w. ((0, []), w)\<rparr>"
  have "fst (key_pair_new ?L sample_start) = Inl (raise CryptoException)"
    by (simp add: key_pair_new_def new_object_def obtain_ptr_def sample_defs
        andthen_def call_lib_def own_def modify_def ret_def store_into_def must_be_one_def fail_def)
  moreover have "live sample_start = {#} + res_of PkeyCtx None" by (simp add: res_of_def sample_start_def)
  note all = crypto_ownership [OF this, of ?L "[]" _ _ "[]" "[]" "[]" _ _ "\<lambda>_. 0" "[]" "[]"]
  have "operator_new ?L NewPublicKey (world sample_start) = (0, (1, \<lambda>_. None))"
    "ec_gen ?L secp256k1 (1, \<lambda>_. None) = (Some 1, (2, \<lambda>_. None))"
    by (simp_all add: sample_defs)
  note all [OF prod.collapse [symmetric] prod.collapse [symmetric] prod.collapse [symmetric]
      prod.collapse [symmetric] this]
  then have "live (snd (key_pair_new ?L sample_start)) = {#(NewPublicKey, 0), (Pkey, 1)#}"
    by (simp add: res_of_def sample_start_def)
  ultimately show ?thesis by (simp add: Let_def)
qed

end
