(* ===== verification/Nodes.thy ===== *)
theory Nodes
  imports Codecs Crypto
begin

section \<open>Nodes\<close>

text \<open>
  \<open>core/Node.h\<close>, \<open>Node.cpp\<close> and the reading and writing of a node in \<open>transport/Buffer.cpp\<close>.  A node
  is two shared pointers, to its id and to its public key; comparing nodes compares the ids.  Reading
  a node uses a buffer and, to hash the key, OpenSSL: the state is a pair.
\<close>

record node =
  node_id :: "id option"
  node_key :: "bytes option"

definition node_default :: node where
  "node_default = \<lparr>node_id = None, node_key = None\<rparr>"

definition node_new :: "'w openssl \<Rightarrow> bytes option \<Rightarrow> ('w crypto, node) act" where
  "node_new L key =
     (case key of
        None \<Rightarrow> fail (UB NullDereference)
      | Some k \<Rightarrow> andthen (get_id L k) (\<lambda>i. ret \<lparr>node_id = Some i, node_key = key\<rparr>))"

text \<open>The size is a \<open>size_t\<close> returned as an \<open>int\<close>.\<close>

definition get_serialized_size :: "node \<Rightarrow> err + int" where
  "get_serialized_size n =
     (case node_key n of
        None \<Rightarrow> Inl (UB NullDereference)
      | Some k \<Rightarrow> Inr (sint (of_nat (length k) :: u32)))"

definition node_eq :: "node \<Rightarrow> node \<Rightarrow> err + bool" where
  "node_eq a b =
     (case node_id a of
        None \<Rightarrow> Inl (UB NullDereference)
      | Some i \<Rightarrow> (case node_id b of
          None \<Rightarrow> Inl (UB NullDereference)
        | Some j \<Rightarrow> Inr (id_eq i j)))"

definition node_neq :: "node \<Rightarrow> node \<Rightarrow> err + bool" where
  "node_neq a b = (case node_eq a b of Inl e \<Rightarrow> Inl e | Inr x \<Rightarrow> Inr (\<not> x))"

subsection \<open>Nodes in buffers\<close>

definition on_buffer :: "(buffer, 'a) act \<Rightarrow> (buffer \<times> 'w crypto, 'a) act" where
  "on_buffer m s = (case m (fst s) of (r, b) \<Rightarrow> (r, (b, snd s)))"

definition on_crypto :: "('w crypto, 'a) act \<Rightarrow> (buffer \<times> 'w crypto, 'a) act" where
  "on_crypto m s = (case m (snd s) of (r, c) \<Rightarrow> (r, (fst s, c)))"

text \<open>\<open>read<core::Node *>\<close> returns a raw pointer: its address and the node it points to.\<close>

definition read_node :: "'w openssl \<Rightarrow> (buffer \<times> 'w crypto, nat \<times> node) act" where
  "read_node L =
     andthen (on_crypto (new_object L NewNode)) (\<lambda>a.
     andthen (on_buffer read_public_key) (\<lambda>key.
     andthen (on_crypto (hash_data L key)) (\<lambda>i.
       ret (a, \<lparr>node_id = Some i, node_key = Some key\<rparr>))))"

definition write_node :: "node \<Rightarrow> (buffer, unit) act" where
  "write_node n =
     (case node_key n of
        None \<Rightarrow> fail (UB NullDereference)
      | Some k \<Rightarrow> write_public_key k)"

lemma on_crypto_Inr:
  "on_crypto m s = (Inr x, t) \<longleftrightarrow> m (snd s) = (Inr x, snd t) \<and> fst t = fst s"
  by (cases t) (auto simp: on_crypto_def split: prod.splits)

lemma on_buffer_Inr:
  "on_buffer m s = (Inr x, t) \<longleftrightarrow> m (fst s) = (Inr x, fst t) \<and> snd t = snd s"
  by (cases t) (auto simp: on_buffer_def split: prod.splits)

lemma read_public_key_run:
  "buf_ok b \<Longrightarrow> read_public_key b = (Inr [], b)"
  by (simp add: read_public_key_def read_data_take buf_simps view_def)

lemma write_node_put:
  assumes "buf_ok b" "node_key n = Some k" "length k < 2 ^ 32"
  shows "write_node n b =
    (if fits b (length k) then (Inr (), put k b) else (Inl (raise DataSerialisationException), b))"
proof -
  have "unat (of_nat (length k) :: u32) = length k"
    using assms(3) by (simp add: unat_of_nat take_bit_nat_eq_self)
  then have "write_public_key k = checked_put k"
    unfolding write_public_key_def by (rule write_data_put)
  with assms(1,2) show ?thesis by (simp add: write_node_def buf_simps)
qed

lemma read_node_result:
  assumes "digest_law L H" "buf_ok b" "read_node L (b, c) = (r, (b', c'))"
  shows "b' = b \<and> (r = Inl (raise CryptoException) \<or>
    (\<exists>a. r = Inr (a, \<lparr>node_id = Some (mk_id (H [])), node_key = Some []\<rparr>)))"
proof -
  obtain a c1 where n: "new_object L NewNode c = (Inr a, c1)"
    using new_object_run by blast
  obtain q c2 where h: "hash_data L [] c1 = (q, c2)" by fastforce
  from hash_data_result [OF assms(1) h] n h assms(2,3) show ?thesis
    by (auto simp: read_node_def andthen_def on_crypto_def on_buffer_def read_public_key_run ret_def)
qed

lemma read_node_available:
  assumes "digest_law L H" "digest_available L" "buf_ok b"
  shows "\<exists>a t. read_node L (b, c) =
    (Inr (a, \<lparr>node_id = Some (mk_id (H [])), node_key = Some []\<rparr>), (b, t))"
proof -
  obtain a c1 where n: "new_object L NewNode c = (Inr a, c1)" using new_object_run by blast
  obtain c2 where "hash_data L [] c1 = (Inr (mk_id (H [])), c2)"
    using hash_data_available [OF assms(1,2), of "[]" c1] by (metis prod.collapse)
  with n assms(3) show ?thesis
    by (simp add: read_node_def andthen_def on_crypto_def on_buffer_def read_public_key_run ret_def)
qed

subsection \<open>Properties\<close>

text \<open>
  A node does not survive serialisation.  Writing it stores the bytes of its key; reading it back
  consumes none of them, and the node read has an empty key and the digest of the empty string as its
  id, so that any two nodes read compare equal, whatever nodes were written.
\<close>

lemma node_serialisation:
  assumes "digest_law L H" "buf_ok b" "node_key n = Some k" "length k < 2 ^ 32" "fits b (length k)"
    and "write_node n b = (w, b1)"
    and "read_node L (rewind (boffset b) b1, c) = (Inr (a, m), (b2, c2))"
    and "read_node L (b2, c2) = (Inr (a', m'), (b3, c3))"
  shows "w = Inr () \<and> view (length k) (rewind (boffset b) b1) = k \<and>
    b2 = rewind (boffset b) b1 \<and> node_key m = Some [] \<and> node_id m = Some (mk_id (H [])) \<and>
    node_eq m m' = Inr True"
proof -
  from write_node_put [OF assms(2-4)] assms(5,6) have w: "w = Inr ()" "b1 = put k b" by auto
  with assms(2,5) have ok: "buf_ok (rewind (boffset b) b1)" by (simp add: buf_ok_rewind_put)
  from read_node_result [OF assms(1) ok assms(7)] have
    m: "b2 = rewind (boffset b) b1" "m = \<lparr>node_id = Some (mk_id (H [])), node_key = Some []\<rparr>" by auto
  with ok have "buf_ok b2" by simp
  from read_node_result [OF assms(1) this assms(8)] have
    "m' = \<lparr>node_id = Some (mk_id (H [])), node_key = Some []\<rparr>" by auto
  with w m view_rewind_put [OF assms(2,5)] show ?thesis by (simp add: node_eq_def)
qed

lemma node_serialisation_witness:
  "let b = buffer_alloc (\<lambda>_. 0) 8 0; n = \<lparr>node_id = None, node_key = Some [2, 7]\<rparr>;
       b1 = snd (write_node n b) in
   view 2 (rewind 0 b1) = [2, 7] \<and>
   (\<exists>a m t. read_node sample_ssl (rewind 0 b1, sample_start) =
      (Inr (a, m), t) \<and> node_key m = Some [])"
proof -
  let ?b = "buffer_alloc (\<lambda>_. 0) 8 0" and ?n = "\<lparr>node_id = None, node_key = Some [2, 7]\<rparr>"
  let ?c = sample_start
  let ?r = "rewind 0 (put [2, 7] ?b)"
  have ok: "buf_ok ?b" "fits ?b (length [2 :: u8, 7])" "boffset ?b = 0"
    by (simp_all add: buffer_alloc_def buf_ok_def fits_def content_def)
  have b1: "write_node ?n ?b = (Inr (), put [2, 7] ?b)"
    using write_node_put [OF ok(1), of ?n "[2, 7]"] ok(2) by simp
  have "buf_ok ?r" using buf_ok_rewind_put [OF ok(1,2)] ok(3) by simp
  from read_node_available [OF sample_digest_law sample_digest_available this]
  obtain a m c1 a' m' c2 where r: "read_node sample_ssl (?r, ?c) = (Inr (a, m), (?r, c1))"
    "read_node sample_ssl (?r, c1) = (Inr (a', m'), (?r, c2))" by blast
  have "node_key ?n = Some [2, 7]" "length [2 :: u8, 7] < 2 ^ 32" by simp_all
  from node_serialisation [OF sample_digest_law ok(1) this ok(2) b1, of ?c a m ?r c1 a' m' ?r c2]
    ok(3) r
  have "view 2 ?r = [2, 7] \<and> node_key m = Some []" by (simp add: numeral_2_eq_2)
  with r(1) b1 show ?thesis unfolding Let_def by (metis prod.sel(2))
qed

end
