(* ===== verification/Promises.thy ===== *)
theory Promises
  imports Errors
begin

section \<open>Promises, awaiting and coroutine ownership\<close>

text \<open>
  \<open>async/Promise.h\<close>, \<open>FinalAwait.h\<close>, \<open>ChainedAwaitObject.h\<close>, \<open>AwaitResumeResult.h\<close> and
  \<open>Coroutine.h\<close>: the promise of a coroutine (its awaiting caller, the exception it ended with, the
  flags that say the result may be, or was, looked at), how an awaiting coroutine takes the value
  or the exception out of it, and the move-only owner of a coroutine frame.  Coroutine handles are
  frame addresses, \<open>None\<close> for the null handle.
\<close>

type_synonym handle = nat

record 'v promise =
  callerCoroutine :: "handle option"
  exceptionPtr :: "exn option"
  mayBeChecked :: bool
  checked :: bool
  val :: 'v

definition promise_new :: "'v \<Rightarrow> 'v promise" where
  "promise_new v =
     \<lparr>callerCoroutine = None, exceptionPtr = None, mayBeChecked = False, checked = False, val = v\<rparr>"

subsection \<open>Operations of PromiseBase\<close>

text \<open>Without a caller the exception is thrown on; with one it is kept for the caller.\<close>

definition handle_unhandled_exception :: "exn \<Rightarrow> ('v promise, unit) act" where
  "handle_unhandled_exception ptr p =
     (case callerCoroutine p of
        None \<Rightarrow> (Inl (Throw ptr), p)
      | Some _ \<Rightarrow>
          andthen (assert_that (exceptionPtr p = None) ''Double fault'') (\<lambda>_.
            modify (\<lambda>p. p\<lparr>exceptionPtr := Some ptr\<rparr>)) p)"

definition final_suspend :: "('v promise, handle option) act" where
  "final_suspend p = (Inr (callerCoroutine p), p\<lparr>mayBeChecked := True\<rparr>)"

definition unhandled_exception :: "exn \<Rightarrow> ('v promise, unit) act" where
  "unhandled_exception current =
     andthen (modify (\<lambda>p. p\<lparr>mayBeChecked := True\<rparr>)) (\<lambda>_. handle_unhandled_exception current)"

definition raise_exception :: "exn \<Rightarrow> ('v promise, unit) act" where
  "raise_exception ex =
     andthen (modify (\<lambda>p. p\<lparr>mayBeChecked := True\<rparr>)) (\<lambda>_. handle_unhandled_exception ex)"

definition get_and_clear_exception :: "('v promise, exn option) act" where
  "get_and_clear_exception p =
     andthen (modify (\<lambda>p. p\<lparr>exceptionPtr := None\<rparr>)) (\<lambda>_.
     andthen (assert_that (mayBeChecked p) ''check coroutine only after it exits'') (\<lambda>_.
     andthen (modify (\<lambda>p. p\<lparr>checked := True\<rparr>)) (\<lambda>_.
     ret (exceptionPtr p)))) p"

definition set_caller_coroutine :: "handle \<Rightarrow> ('v promise, unit) act" where
  "set_caller_coroutine caller p =
     andthen (assert_that (callerCoroutine p = None) ''double join'') (\<lambda>_.
       modify (\<lambda>p. p\<lparr>callerCoroutine := Some caller\<rparr>)) p"

definition check_promise :: "('v promise, unit) act" where
  "check_promise =
     andthen get_and_clear_exception (\<lambda>ptr.
       case ptr of None \<Rightarrow> ret () | Some e \<Rightarrow> fail (Throw e))"

text \<open>The assertions of \<open>~PromiseBase\<close>; \<open>scheduled\<close> is what the thread pool answers.\<close>

definition destroy_promise :: "bool \<Rightarrow> ('v promise, unit) act" where
  "destroy_promise scheduled p =
     andthen (assert_that (exceptionPtr p = None) ''unhandled exception on promise destroy'') (\<lambda>_.
     andthen (assert_that (checked p) ''coroutine must be checked before destruction'') (\<lambda>_.
       assert_that (\<not> scheduled) ''promise is scheduled on destruction'')) p"

definition return_value :: "'v \<Rightarrow> ('v promise, unit) act" where
  "return_value v = modify (\<lambda>p. p\<lparr>val := v\<rparr>)"

definition move_value :: "('v promise, 'v) act" where
  "move_value p = (Inr (val p), p)"

text \<open>Where control goes after \<open>final_suspend\<close>: the caller, or nowhere (\<open>noop_coroutine\<close>).\<close>

definition final_await_suspend :: "handle option \<Rightarrow> handle option" where
  "final_await_suspend caller = (if caller \<noteq> None then caller else None)"

subsection \<open>AwaitResumeResult\<close>

record 'v await_result =
  ar_exceptionPtr :: "exn option"
  ar_touched :: bool
  ar_retValue :: 'v

definition await_result_new :: "'v \<Rightarrow> exn option \<Rightarrow> 'v await_result" where
  "await_result_new v e = \<lparr>ar_exceptionPtr = e, ar_touched = False, ar_retValue = v\<rparr>"

definition touch :: "('v await_result, unit) act" where
  "touch r =
     (let r' = r\<lparr>ar_touched := True\<rparr> in
      case ar_exceptionPtr r of None \<Rightarrow> (Inr (), r') | Some e \<Rightarrow> (Inl (Throw e), r'))"

definition take_result :: "('v await_result, 'v) act" where
  "take_result = andthen touch (\<lambda>_ r. (Inr (ar_retValue r), r))"

definition destroy_await_result :: "('v await_result, unit) act" where
  "destroy_await_result r =
     assert_that (ar_touched r) ''co_await return value must be touched before destruction'' r"

text \<open>\<open>await_resume\<close> moves the value out, then takes and clears the exception.\<close>

definition await_resume :: "('v promise, 'v await_result) act" where
  "await_resume =
     andthen move_value (\<lambda>v. andthen get_and_clear_exception (\<lambda>e. ret (await_result_new v e)))"

text \<open>
  The two ways of finishing \<open>co_await\<close> on a coroutine that has ended: the value is converted
  (\<open>T x = co_await c\<close>) or only touched (\<open>~co_await c\<close>); the temporary is destroyed after it.
\<close>

definition co_await_value :: "('v promise, 'v) act" where
  "co_await_value =
     andthen await_resume (\<lambda>r p.
       case take_result r of
         (Inl e, _) \<Rightarrow> (Inl e, p)
       | (Inr v, r') \<Rightarrow>
           (case fst (destroy_await_result r') of Inl e \<Rightarrow> (Inl e, p) | Inr _ \<Rightarrow> (Inr v, p)))"

subsection \<open>What an awaiting caller sees\<close>

lemmas promise_ops =
  handle_unhandled_exception_def final_suspend_def unhandled_exception_def raise_exception_def
  get_and_clear_exception_def set_caller_coroutine_def check_promise_def destroy_promise_def
  return_value_def move_value_def await_resume_def co_await_value_def take_result_def touch_def
  destroy_await_result_def await_result_new_def

text \<open>
  The life of a promise: the caller may register, the body returns a value or lets an exception
  out, the caller takes the outcome, the frame is destroyed.
\<close>

datatype 'v outcome = Returned 'v | Threw exn

definition finish :: "'v outcome \<Rightarrow> ('v promise, handle option) act" where
  "finish out =
     (case out of
        Returned v \<Rightarrow> andthen (return_value v) (\<lambda>_. final_suspend)
      | Threw e \<Rightarrow> andthen (unhandled_exception e) (\<lambda>_. final_suspend))"

lemma finish_returned:
  "finish (Returned v) p = (Inr (callerCoroutine p), p\<lparr>val := v, mayBeChecked := True\<rparr>)"
  by (simp add: finish_def promise_ops act_simps andthen_def)

lemma finish_threw_awaited:
  "callerCoroutine p = Some c \<Longrightarrow> exceptionPtr p = None \<Longrightarrow>
     finish (Threw e) p = (Inr (Some c), p\<lparr>mayBeChecked := True, exceptionPtr := Some e\<rparr>)"
  by (simp add: finish_def promise_ops act_simps andthen_def)

lemma finish_threw_detached:
  "callerCoroutine p = None \<Longrightarrow>
     finish (Threw e) p = (Inl (Throw e), p\<lparr>mayBeChecked := True\<rparr>)"
  by (simp add: finish_def promise_ops act_simps andthen_def)

lemma co_await_finished:
  "mayBeChecked p \<Longrightarrow>
     co_await_value p =
       ((case exceptionPtr p of None \<Rightarrow> Inr (val p) | Some e \<Rightarrow> Inl (Throw e)),
        p\<lparr>exceptionPtr := None, checked := True\<rparr>)"
  by (auto simp: promise_ops act_simps andthen_def split: option.splits)

lemma co_await_unfinished:
  "\<not> mayBeChecked p \<Longrightarrow>
     co_await_value p =
       (Inl (AssertFailed ''check coroutine only after it exits''), p\<lparr>exceptionPtr := None\<rparr>)"
  by (simp add: promise_ops act_simps andthen_def)

subsection \<open>Ownership of frames\<close>

text \<open>
  \<open>Coroutine\<close> owns the frame its handle points to: copies are deleted, a move leaves the source
  null, assignment destroys the frame owned before, and the destructor asserts that the coroutine
  is done.  Owners are program variables (numbered), frames live in a heap.
\<close>

record frame =
  fr_done :: bool
  fr_promise :: "unit promise"
  fr_scheduled :: bool

record coro_state =
  heap :: "handle \<Rightarrow> frame option"
  owner :: "nat \<Rightarrow> handle option"

definition destroy_frame :: "handle \<Rightarrow> (coro_state, unit) act" where
  "destroy_frame h s =
     (case heap s h of
        None \<Rightarrow> (Inl (UB UseAfterErase), s)
      | Some f \<Rightarrow>
          (case fst (destroy_promise (fr_scheduled f) (fr_promise f)) of
             Inl e \<Rightarrow> (Inl e, s)
           | Inr _ \<Rightarrow> (Inr (), s\<lparr>heap := (heap s)(h := None)\<rparr>)))"

text \<open>A coroutine is created: its frame is allocated at a fresh address and owned by \<open>x\<close>.\<close>

definition coro_create :: "nat \<Rightarrow> handle \<Rightarrow> frame \<Rightarrow> (coro_state, unit) act" where
  "coro_create x h f =
     modify (\<lambda>s. s\<lparr>heap := (heap s)(h \<mapsto> f), owner := (owner s)(x := Some h)\<rparr>)"

text \<open>\<open>Coroutine(Coroutine &&c)\<close>: variable \<open>x\<close> comes to life with the handle of \<open>y\<close>.\<close>

definition coro_move :: "nat \<Rightarrow> nat \<Rightarrow> (coro_state, unit) act" where
  "coro_move x y =
     modify (\<lambda>s. s\<lparr>owner := (owner s)(x := owner s y, y := None)\<rparr>)"

text \<open>\<open>operator=(Coroutine &&src)\<close>.\<close>

definition coro_assign :: "nat \<Rightarrow> nat \<Rightarrow> (coro_state, unit) act" where
  "coro_assign x y s =
     andthen (case owner s x of None \<Rightarrow> ret () | Some h \<Rightarrow> destroy_frame h) (\<lambda>_.
       modify (\<lambda>s. s\<lparr>owner := ((owner s)(x := owner s y))(y := None)\<rparr>)) s"

definition coro_destroy :: "nat \<Rightarrow> (coro_state, unit) act" where
  "coro_destroy x s =
     (case owner s x of
        None \<Rightarrow> (Inr (), s)
      | Some h \<Rightarrow>
          andthen (\<lambda>s. case heap s h of
                    None \<Rightarrow> (Inl (UB UseAfterErase), s)
                  | Some f \<Rightarrow> assert_that (fr_done f) ''coroutine must be done'' s) (\<lambda>_.
          andthen (destroy_frame h) (\<lambda>_.
            modify (\<lambda>s. s\<lparr>owner := (owner s)(x := None)\<rparr>))) s)"

definition coro_is_null :: "nat \<Rightarrow> coro_state \<Rightarrow> bool" where
  "coro_is_null x s = (owner s x = None)"

text \<open>
  \<open>await_transform(ResumeSuspendAwaitObject)\<close>: a coroutine that is not done is resumed before it
  is awaited.  \<open>Some True\<close>: it is resumed; \<open>Some False\<close>: it was done already.
\<close>

definition resume_suspended :: "handle option \<Rightarrow> (handle \<Rightarrow> frame option) \<Rightarrow> err + bool" where
  "resume_suspended c hp =
     (case c of
        None \<Rightarrow> Inl (UB NullCoroutine)
      | Some h \<Rightarrow>
          (case hp h of None \<Rightarrow> Inl (UB UseAfterErase) | Some f \<Rightarrow> Inr (\<not> fr_done f)))"

text \<open>The ownership invariant: no frame has two owners, and every owned frame is alive.\<close>

definition owned :: "coro_state \<Rightarrow> bool" where
  "owned s \<longleftrightarrow>
     (\<forall>x y h. owner s x = Some h \<longrightarrow> owner s y = Some h \<longrightarrow> x = y) \<and>
     (\<forall>x h. owner s x = Some h \<longrightarrow> heap s h \<noteq> None)"

datatype coro_op =
    OpCreate nat handle frame
  | OpMove nat nat
  | OpAssign nat nat
  | OpDestroy nat

text \<open>Variables are dead before they are created or move-constructed, and addresses are fresh.\<close>

fun op_allowed :: "coro_state \<Rightarrow> coro_op \<Rightarrow> bool" where
  "op_allowed s (OpCreate x h f) = (owner s x = None \<and> heap s h = None)"
| "op_allowed s (OpMove x y) = (owner s x = None)"
| "op_allowed s _ = True"

fun run_op :: "coro_op \<Rightarrow> (coro_state, unit) act" where
  "run_op (OpCreate x h f) = coro_create x h f"
| "run_op (OpMove x y) = coro_move x y"
| "run_op (OpAssign x y) = coro_assign x y"
| "run_op (OpDestroy x) = coro_destroy x"

fun run_ops :: "coro_op list \<Rightarrow> (coro_state, unit) act" where
  "run_ops [] s = (Inr (), s)"
| "run_ops (p # ps) s =
     (if op_allowed s p
      then (case run_op p s of (Inl e, t) \<Rightarrow> (Inl e, t) | (Inr _, t) \<Rightarrow> run_ops ps t)
      else run_ops ps s)"

lemma destroy_frame_owned:
  assumes "owned s" "owner s x = Some h" "destroy_frame h s = (r, t)"
  shows "r \<noteq> Inl (UB u) \<and> owned (t\<lparr>owner := (owner s)(x := None)\<rparr>) \<and> owner t = owner s \<and>
    (r \<noteq> Inr () \<longrightarrow> t = s)"
  using assms
  by (fastforce simp: destroy_frame_def owned_def promise_ops act_simps andthen_def
      split: option.splits sum.splits if_splits)

lemma owned_create:
  "owned s \<Longrightarrow> owner s x = None \<Longrightarrow> heap s h = None \<Longrightarrow>
     owned (s\<lparr>heap := (heap s)(h \<mapsto> f), owner := (owner s)(x := Some h)\<rparr>)"
  by (auto simp: owned_def) (metis option.distinct(1))+

lemma owned_transfer:
  "owned s \<Longrightarrow> owner s x = None \<or> x = y \<Longrightarrow>
     owned (s\<lparr>owner := ((owner s)(x := owner s y))(y := None)\<rparr>)"
  by (auto simp: owned_def)

lemma owned_clear: "owned s \<Longrightarrow> owned (s\<lparr>owner := (owner s)(x := None)\<rparr>)"
  by (auto simp: owned_def)

lemma owned_assign:
  assumes "owned s" "coro_assign x y s = (r, t)"
  shows "r \<noteq> Inl (UB u) \<and> (r = Inr () \<longrightarrow> owned t)"
proof (cases "owner s x")
  case None
  with assms owned_transfer [of s x y] show ?thesis
    by (auto simp: coro_assign_def act_simps andthen_def)
next
  case (Some h)
  obtain q v where d: "destroy_frame h s = (q, v)" by fastforce
  from destroy_frame_owned [OF assms(1) Some d] have
    q: "q \<noteq> Inl (UB u)" and v: "owned (v\<lparr>owner := (owner s)(x := None)\<rparr>)" "owner v = owner s"
    by auto
  show ?thesis
  proof (cases q)
    case (Inl e)
    with assms(2) Some d q show ?thesis by (auto simp: coro_assign_def andthen_def)
  next
    case (Inr z)
    then have "t = v\<lparr>owner := ((owner s)(x := owner s y))(y := None)\<rparr>" "r = Inr ()"
      using assms(2) Some d v(2) by (auto simp: coro_assign_def andthen_def modify_def)
    moreover have "owned (v\<lparr>owner := ((owner s)(x := owner s y))(y := None)\<rparr>)"
    proof (cases "x = y")
      case True
      with v(1) show ?thesis by simp
    next
      case False
      with owned_transfer [OF v(1), of x y] show ?thesis by simp
    qed
    ultimately show ?thesis by simp
  qed
qed

lemma owned_destroy:
  assumes "owned s" "coro_destroy x s = (r, t)"
  shows "r \<noteq> Inl (UB u) \<and> (r = Inr () \<longrightarrow> owned t)"
proof (cases "owner s x")
  case None
  with assms show ?thesis by (auto simp: coro_destroy_def)
next
  case (Some h)
  then obtain f where f: "heap s h = Some f" using assms(1) unfolding owned_def by blast
  obtain q v where d: "destroy_frame h s = (q, v)" by fastforce
  from destroy_frame_owned [OF assms(1) Some d] have
    "q \<noteq> Inl (UB u)" "owned (v\<lparr>owner := (owner s)(x := None)\<rparr>)" "owner v = owner s"
    by auto
  with assms(2) Some f d show ?thesis
    by (auto simp: coro_destroy_def andthen_def assert_that_def modify_def
        split: if_splits sum.splits)
qed

lemma run_op_owned:
  assumes "owned s" "op_allowed s p" "run_op p s = (r, t)"
  shows "r \<noteq> Inl (UB u) \<and> (r = Inr () \<longrightarrow> owned t)"
proof (cases p)
  case (OpCreate x h f)
  with assms show ?thesis using owned_create [of s x h f]
    by (auto simp: coro_create_def modify_def)
next
  case (OpMove x y)
  with assms show ?thesis using owned_transfer [of s x y]
    by (auto simp: coro_move_def modify_def)
next
  case (OpAssign x y)
  with assms show ?thesis using owned_assign [of s x y] by simp
next
  case (OpDestroy x)
  with assms show ?thesis using owned_destroy [of s x] by simp
qed

lemma run_ops_owned:
  "owned s \<Longrightarrow> run_ops ps s = (r, t) \<Longrightarrow> r \<noteq> Inl (UB u) \<and> (r = Inr () \<longrightarrow> owned t)"
proof (induction ps arbitrary: s)
  case (Cons p ps)
  show ?case
  proof (cases "op_allowed s p")
    case True
    obtain q v where d: "run_op p s = (q, v)" by fastforce
    with run_op_owned [OF Cons.prems(1) True d] Cons.IH [of v] Cons.prems(2) True
    show ?thesis by (auto split: sum.splits)
  next
    case False
    with Cons show ?thesis by simp
  qed
qed auto

subsection \<open>Properties\<close>

text \<open>
  An awaited coroutine delivers its outcome exactly once.  With the caller registered, finishing
  resumes the caller; the caller's \<open>co_await\<close> gives the returned value, or throws the exception the
  body ended with; after it the exception is gone, so awaiting again throws nothing, and the promise
  can be destroyed.
\<close>

lemma awaited_outcome_once:
  assumes "set_caller_coroutine c (promise_new v0) = (Inr (), p1)"
    and "finish out p1 = (r, p2)" and "co_await_value p2 = (w, p3)"
  shows "r = Inr (Some c) \<and> w = (case out of Returned v \<Rightarrow> Inr v | Threw e \<Rightarrow> Inl (Throw e)) \<and>
    (\<exists>v. fst (co_await_value p3) = Inr v) \<and> fst (destroy_promise False p3) = Inr ()"
proof -
  have p1: "p1 = (promise_new v0)\<lparr>callerCoroutine := Some c\<rparr>"
    using assms(1) by (simp add: set_caller_coroutine_def promise_new_def act_simps)
  show ?thesis
  proof (cases out)
    case (Returned v)
    with assms(2,3) p1 show ?thesis
      by (auto simp: finish_returned co_await_finished promise_new_def destroy_promise_def act_simps)
  next
    case (Threw e)
    with assms(2,3) p1 show ?thesis
      by (auto simp: finish_threw_awaited co_await_finished promise_new_def destroy_promise_def
          act_simps)
  qed
qed

lemma awaited_outcome_once_witness:
  "fst (co_await_value (snd (finish (Threw (throw_default CryptoException))
     (snd (set_caller_coroutine 5 (promise_new (0 :: nat)))))))
   = Inl (Throw (throw_default CryptoException))"
proof -
  let ?p1 = "snd (set_caller_coroutine 5 (promise_new (0 :: nat)))"
  let ?f = "finish (Threw (throw_default CryptoException)) ?p1"
  have "set_caller_coroutine 5 (promise_new (0 :: nat)) = (Inr (), ?p1)"
    by (simp add: set_caller_coroutine_def promise_new_def act_simps)
  from awaited_outcome_once [OF this, of "Threw (throw_default CryptoException)" "fst ?f" "snd ?f"
      "fst (co_await_value (snd ?f))" "snd (co_await_value (snd ?f))"]
  show ?thesis by simp
qed

text \<open>
  A coroutine nobody awaits.  An exception that leaves its body is not stored but thrown on to
  whoever resumed the coroutine; and a promise whose outcome was never taken cannot be destroyed:
  the destructor's assertion fails.
\<close>

lemma detached_outcome:
  assumes "callerCoroutine p = None" "\<not> checked p" "exceptionPtr p = None"
  shows "fst (finish (Threw e) p) = Inl (Throw e) \<and>
    exceptionPtr (snd (finish (Threw e) p)) = None \<and>
    fst (destroy_promise scheduled (snd (finish out p))) =
      Inl (AssertFailed ''coroutine must be checked before destruction'')"
  using assms
  by (cases out) (simp_all add: finish_threw_detached finish_returned destroy_promise_def act_simps)

text \<open>
  Ownership of coroutine frames is unique.  From a state in which no frame has two owners and
  every owned frame is alive, any sequence of creations, moves, assignments and destructions of
  \<open>Coroutine\<close> objects keeps that, and none of them destroys or inspects a frame that is gone; only an
  assertion can stop it.
\<close>

lemma coroutine_ownership:
  assumes "owned s" "run_ops ps s = (r, t)"
  shows "r \<noteq> Inl (UB u) \<and> (r = Inr () \<longrightarrow> owned t)"
  using assms by (rule run_ops_owned)

lemma coroutine_ownership_witness:
  "owned (snd (run_ops [OpCreate 0 7 \<lparr>fr_done = True, fr_promise = (promise_new ())\<lparr>checked := True\<rparr>,
        fr_scheduled = False\<rparr>, OpMove 1 0, OpDestroy 0, OpDestroy 1]
      \<lparr>heap = (\<lambda>_. None), owner = (\<lambda>_. None)\<rparr>))"
proof -
  let ?ps = "[OpCreate 0 7 \<lparr>fr_done = True, fr_promise = (promise_new ())\<lparr>checked := True\<rparr>,
        fr_scheduled = False\<rparr>, OpMove 1 0, OpDestroy 0, OpDestroy 1]"
  let ?s = "\<lparr>heap = (\<lambda>_. None), owner = (\<lambda>_. None)\<rparr>"
  have "owned ?s" by (simp add: owned_def)
  moreover have "fst (run_ops ?ps ?s) = Inr ()"
    by (simp add: coro_create_def coro_move_def coro_destroy_def destroy_frame_def promise_ops
        act_simps andthen_def promise_new_def)
  then have "run_ops ?ps ?s = (Inr (), snd (run_ops ?ps ?s))" by (metis surjective_pairing)
  ultimately show ?thesis using coroutine_ownership by blast
qed

end
