(* ===== verification/Awaiting.thy ===== *)
theory Awaiting
  imports Promises
begin

section \<open>Awaiting\<close>

text \<open>
  What \<open>co_await\<close> does with its operand: the overloads of \<open>await_transform\<close> (\<open>async/Promise.h\<close>), the
  await objects (\<open>ChainedAwaitObject.h\<close>, \<open>GetCoroutineHandleAwaitObject.h\<close>,
  \<open>SuspendThisCoroutineAwaitObject.h\<close>, \<open>ResumeSuspendAwaitObject.h\<close>) with the functions of
  \<open>Coroutine.h\<close> that make them, and the specialisations of \<open>AwaitResumeResult\<close> for no value, one value
  and a tuple.  What a coroutine does when it is resumed is a parameter.
\<close>

record 'v cframe =
  cf_done :: bool
  cf_promise :: "'v promise"

type_synonym 'v coros = "handle \<Rightarrow> 'v cframe option"

text \<open>Reaching the promise behind a handle.\<close>

definition at_frame :: "handle option \<Rightarrow> ('v promise, 'a) act \<Rightarrow> ('v coros, 'a) act" where
  "at_frame c m s =
     (case c of
        None \<Rightarrow> (Inl (UB NullCoroutine), s)
      | Some h \<Rightarrow>
          (case s h of
             None \<Rightarrow> (Inl (UB UseAfterErase), s)
           | Some f \<Rightarrow> (case m (cf_promise f) of (r, p) \<Rightarrow> (r, s(h \<mapsto> f\<lparr>cf_promise := p\<rparr>)))))"

definition is_done :: "handle option \<Rightarrow> ('v coros, bool) act" where
  "is_done c s =
     (case c of
        None \<Rightarrow> (Inl (UB NullCoroutine), s)
      | Some h \<Rightarrow>
          (case s h of None \<Rightarrow> (Inl (UB UseAfterErase), s) | Some f \<Rightarrow> (Inr (cf_done f), s)))"

subsection \<open>Operands and await objects\<close>

datatype 'v operand =
    OfCoroutine "handle option"
  | OfThisHandle
  | OfSuspend "handle \<Rightarrow> ('v coros, handle option) act"
  | OfResume "handle option"

text \<open>\<open>ChainedAwaitObject\<close> owns the inner coroutine; the handle in \<open>GetHandle\<close> is set on suspension.\<close>

datatype 'v await_object =
    Chained "handle option"
  | GetHandle "handle option"
  | SuspendThis "handle \<Rightarrow> ('v coros, handle option) act"

definition get_this_coroutine_handle :: "'v operand" where
  "get_this_coroutine_handle = OfThisHandle"

definition suspend_this :: "(handle \<Rightarrow> ('v coros, handle option) act) \<Rightarrow> 'v operand" where
  "suspend_this f = OfSuspend f"

definition resume_suspended_operand :: "handle option \<Rightarrow> 'v operand" where
  "resume_suspended_operand c = OfResume c"

definition await_transform ::
    "(handle \<Rightarrow> ('v coros, unit) act) \<Rightarrow> 'v operand \<Rightarrow> ('v coros, 'v await_object) act" where
  "await_transform resume opd =
     (case opd of
        OfCoroutine c \<Rightarrow> ret (Chained c)
      | OfThisHandle \<Rightarrow> ret (GetHandle None)
      | OfSuspend f \<Rightarrow> ret (SuspendThis f)
      | OfResume c \<Rightarrow>
          andthen (is_done c) (\<lambda>d.
          andthen (if d then ret () else resume (the c)) (\<lambda>_. ret (Chained c))))"

definition await_ready :: "'v await_object \<Rightarrow> ('v coros, bool) act" where
  "await_ready ob = (case ob of Chained c \<Rightarrow> is_done c | _ \<Rightarrow> ret False)"

text \<open>
  The object after \<open>await_suspend\<close> in the coroutine \<open>me\<close>, and the coroutine that runs next: \<open>None\<close> if
  control goes back to whoever resumed \<open>me\<close>.
\<close>

definition await_suspend ::
    "handle \<Rightarrow> 'v await_object \<Rightarrow> ('v coros, handle option \<times> 'v await_object) act" where
  "await_suspend me ob =
     (case ob of
        Chained c \<Rightarrow> andthen (at_frame c (set_caller_coroutine me)) (\<lambda>_. ret (None, ob))
      | GetHandle _ \<Rightarrow> ret (Some me, GetHandle (Some me))
      | SuspendThis f \<Rightarrow> andthen (f me) (\<lambda>h. ret (h, ob)))"

datatype 'v awaited = Result "'v await_result" | Handle "handle option" | Nothing

definition await_resume_object :: "'v await_object \<Rightarrow> ('v coros, 'v awaited) act" where
  "await_resume_object ob =
     (case ob of
        Chained c \<Rightarrow> andthen (at_frame c await_resume) (\<lambda>r. ret (Result r))
      | GetHandle h \<Rightarrow> ret (Handle h)
      | SuspendThis _ \<Rightarrow> ret Nothing)"

text \<open>
  \<open>co_await\<close> up to a suspension: the coroutine goes on at once (\<open>Proceed\<close>), or it is suspended and
  another one is given control.
\<close>

datatype 'v progress = Proceed "'v await_object" | Suspended "handle option" "'v await_object"

definition co_await ::
    "(handle \<Rightarrow> ('v coros, unit) act) \<Rightarrow> handle \<Rightarrow> 'v operand \<Rightarrow> ('v coros, 'v progress) act" where
  "co_await resume me opd =
     andthen (await_transform resume opd) (\<lambda>ob.
     andthen (await_ready ob) (\<lambda>ready.
       if ready then ret (Proceed ob)
       else andthen (await_suspend me ob) (\<lambda>(h, ob'). ret (Suspended h ob'))))"

lemmas awaiting = co_await_def await_transform_def await_ready_def await_suspend_def
  await_resume_object_def at_frame_def is_done_def get_this_coroutine_handle_def suspend_this_def
  resume_suspended_operand_def act_simps andthen_def

text \<open>The end of a coroutine: its promise is finished, and control goes where \<open>FinalAwait\<close> says.\<close>

definition coroutine_finishes :: "handle \<Rightarrow> 'v outcome \<Rightarrow> ('v coros, handle option) act" where
  "coroutine_finishes h out =
     andthen (at_frame (Some h) (finish out)) (\<lambda>caller s.
       (Inr (final_await_suspend caller), s(h := map_option (cf_done_update (\<lambda>_. True)) (s h))))"

subsection \<open>The specialisations of AwaitResumeResult\<close>

text \<open>For a coroutine without a value there is none to move.\<close>

definition await_result_void :: "exn option \<Rightarrow> unit await_result" where
  "await_result_void e = \<lparr>ar_exceptionPtr = e, ar_touched = False, ar_retValue = ()\<rparr>"

definition await_resume_void :: "(unit promise, unit await_result) act" where
  "await_resume_void = andthen get_and_clear_exception (\<lambda>e. ret (await_result_void e))"

text \<open>\<open>operator~\<close> only touches.\<close>

definition discard_result :: "('v await_result, unit) act" where
  "discard_result = touch"

text \<open>
  For a tuple, here the list of its components: \<open>get<I>\<close> touches and moves one component out, which
  leaves a moved-from value behind; the conversion touches and moves them all.
\<close>

definition get_component :: "nat \<Rightarrow> ('a option list await_result, 'a option) act" where
  "get_component i =
     andthen touch (\<lambda>_ r. (Inr (ar_retValue r ! i),
       r\<lparr>ar_retValue := (ar_retValue r)[i := None]\<rparr>))"

definition take_tuple :: "('a option list await_result, 'a option list) act" where
  "take_tuple =
     andthen touch (\<lambda>_ r. (Inr (ar_retValue r), r\<lparr>ar_retValue := map (\<lambda>_. None) (ar_retValue r)\<rparr>))"

text \<open>\<open>auto [a, b] = co_await ...\<close>: the components in order.\<close>

fun bind_components :: "nat list \<Rightarrow> ('a option list await_result, 'a option list) act" where
  "bind_components [] = ret []"
| "bind_components (i # ixs) =
     andthen (get_component i) (\<lambda>x. andthen (bind_components ixs) (\<lambda>xs. ret (x # xs)))"

subsection \<open>Properties\<close>

lemma at_frame_run:
  "s h = Some f \<Longrightarrow> m (cf_promise f) = (r, p) \<Longrightarrow>
     at_frame (Some h) m s = (r, s(h \<mapsto> f\<lparr>cf_promise := p\<rparr>))"
  by (simp add: at_frame_def)

lemma await_resume_finished:
  "mayBeChecked p \<Longrightarrow>
     await_resume p = (Inr (await_result_new (val p) (exceptionPtr p)),
       p\<lparr>exceptionPtr := None, checked := True\<rparr>)"
  by (simp add: promise_ops act_simps andthen_def)

text \<open>A coroutine that is awaited before it ends.\<close>

lemma await_running:
  assumes "s h = Some f" "\<not> cf_done f" "cf_promise f = promise_new v"
  shows "co_await resume me (OfCoroutine (Some h)) s =
    (Inr (Suspended None (Chained (Some h))),
     s(h \<mapsto> f\<lparr>cf_promise := (promise_new v)\<lparr>callerCoroutine := Some me\<rparr>\<rparr>))"
  using assms by (simp add: awaiting set_caller_coroutine_def promise_new_def)

lemma finish_awaited:
  assumes "s h = Some f" "callerCoroutine (cf_promise f) = Some c" "exceptionPtr (cf_promise f) = None"
  obtains p where "coroutine_finishes h out s = (Inr (Some c), s(h \<mapsto> f\<lparr>cf_promise := p, cf_done := True\<rparr>))"
    "mayBeChecked p"
    "fst (take_result (await_result_new (val p) (exceptionPtr p))) =
       (case out of Returned w \<Rightarrow> Inr w | Threw e \<Rightarrow> Inl (Throw e))"
proof (cases out)
  case (Returned w)
  with assms that [of "(cf_promise f)\<lparr>val := w, mayBeChecked := True\<rparr>"] show thesis
    by (simp add: coroutine_finishes_def at_frame_def andthen_def finish_returned final_await_suspend_def
        await_result_new_def take_result_def touch_def)
next
  case (Threw e)
  with assms finish_threw_awaited [OF assms(2,3), of e]
    that [of "(cf_promise f)\<lparr>mayBeChecked := True, exceptionPtr := Some e\<rparr>"] show thesis
    by (simp add: coroutine_finishes_def at_frame_def andthen_def final_await_suspend_def
        await_result_new_def take_result_def touch_def)
qed

text \<open>
  What \<open>co_await\<close> does, by operand.  A coroutine that has not ended: the awaiting coroutine is
  suspended, and when the other ends, with a value or an exception, control goes to exactly that one,
  which then gets the value or the exception; a second awaiting coroutine fails an assertion.  A
  coroutine that has ended: no suspension.  \<open>getThisCoroutineHandle\<close>: the handle, and control stays.
  \<open>suspendThis(f)\<close>: \<open>f\<close> is called once, with the handle, and says who runs next.
\<close>

lemma await_by_operand:
  assumes "s h = Some f" "\<not> cf_done f" "cf_promise f = promise_new v"
  shows "\<exists>s1 s2 s3 r. co_await resume me (OfCoroutine (Some h)) s =
        (Inr (Suspended None (Chained (Some h))), s1) \<and>
      fst (co_await resume other (OfCoroutine (Some h)) s1) = Inl (AssertFailed ''double join'') \<and>
      coroutine_finishes h out s1 = (Inr (Some me), s2) \<and>
      co_await resume other (OfCoroutine (Some h)) s2 = (Inr (Proceed (Chained (Some h))), s2) \<and>
      await_resume_object (Chained (Some h)) s2 = (Inr (Result r), s3) \<and>
      fst (take_result r) = (case out of Returned w \<Rightarrow> Inr w | Threw e \<Rightarrow> Inl (Throw e)) \<and>
    (\<exists>ob. co_await resume me get_this_coroutine_handle s = (Inr (Suspended (Some me) ob), s) \<and>
      await_resume_object ob s = (Inr (Handle (Some me)), s)) \<and>
    (g me s = (Inr next, s') \<longrightarrow>
      co_await resume me (suspend_this g) s = (Inr (Suspended next (SuspendThis g)), s'))"
proof -
  let ?f1 = "f\<lparr>cf_promise := (promise_new v)\<lparr>callerCoroutine := Some me\<rparr>\<rparr>"
  let ?s1 = "s(h \<mapsto> ?f1)"
  have f1: "?s1 h = Some ?f1" "callerCoroutine (cf_promise ?f1) = Some me"
    "exceptionPtr (cf_promise ?f1) = None"
    by (simp_all add: promise_new_def)
  from finish_awaited [of ?s1 h, OF f1, of out] obtain p where
    p: "coroutine_finishes h out ?s1 = (Inr (Some me), ?s1(h \<mapsto> ?f1\<lparr>cf_promise := p, cf_done := True\<rparr>))"
    "mayBeChecked p" "fst (take_result (await_result_new (val p) (exceptionPtr p))) =
       (case out of Returned w \<Rightarrow> Inr w | Threw e \<Rightarrow> Inl (Throw e))" .
  let ?s2 = "?s1(h \<mapsto> ?f1\<lparr>cf_promise := p, cf_done := True\<rparr>)"
  have "fst (co_await resume other (OfCoroutine (Some h)) ?s1) = Inl (AssertFailed ''double join'')"
    using assms(2) by (simp add: awaiting set_caller_coroutine_def)
  moreover have "co_await resume other (OfCoroutine (Some h)) ?s2 = (Inr (Proceed (Chained (Some h))), ?s2)"
    by (simp add: awaiting)
  moreover have "\<exists>s3. await_resume_object (Chained (Some h)) ?s2 =
      (Inr (Result (await_result_new (val p) (exceptionPtr p))), s3)"
    using await_resume_finished [OF p(2)] by (simp add: awaiting)
  moreover have "\<exists>ob. co_await resume me get_this_coroutine_handle s = (Inr (Suspended (Some me) ob), s) \<and>
      await_resume_object ob s = (Inr (Handle (Some me)), s)"
    by (simp add: awaiting)
  moreover have "g me s = (Inr next, s') \<longrightarrow>
      co_await resume me (suspend_this g) s = (Inr (Suspended next (SuspendThis g)), s')"
    by (simp add: awaiting)
  ultimately show ?thesis using await_running [of s h, OF assms, of resume me] p(1,3) by blast
qed

lemma await_by_operand_witness:
  "\<exists>s1 s2 s3 r. co_await (\<lambda>_. ret ()) 7 (OfCoroutine (Some 3))
        [3 \<mapsto> \<lparr>cf_done = False, cf_promise = promise_new (0 :: nat)\<rparr>] =
        (Inr (Suspended None (Chained (Some 3))), s1) \<and>
      coroutine_finishes 3 (Returned 42) s1 = (Inr (Some 7), s2) \<and>
      await_resume_object (Chained (Some 3)) s2 = (Inr (Result r), s3) \<and> fst (take_result r) = Inr 42"
proof -
  let ?f = "\<lparr>cf_done = False, cf_promise = promise_new (0 :: nat)\<rparr>"
  have "[3 \<mapsto> ?f] 3 = Some ?f" "\<not> cf_done ?f" "cf_promise ?f = promise_new 0" by simp_all
  from await_by_operand [of "[3 \<mapsto> ?f]", OF this, where resume = "\<lambda>_. ret ()" and me = 7
      and out = "Returned 42"]
  obtain s1 s2 s3 r where "co_await (\<lambda>_. ret ()) 7 (OfCoroutine (Some 3)) [3 \<mapsto> ?f] =
        (Inr (Suspended None (Chained (Some 3))), s1)"
    "coroutine_finishes 3 (Returned 42) s1 = (Inr (Some 7), s2)"
    "await_resume_object (Chained (Some 3)) s2 = (Inr (Result r), s3)"
    "fst (take_result r) = (case Returned 42 of Returned w \<Rightarrow> Inr w | Threw e \<Rightarrow> Inl (Throw e))"
    by blast
  then show ?thesis by (intro exI conjI) simp_all
qed

text \<open>A component taken, and then the components after it.\<close>

lemma get_component_run:
  "ar_exceptionPtr r = None \<Longrightarrow>
     get_component i r = (Inr (ar_retValue r ! i),
       r\<lparr>ar_touched := True, ar_retValue := (ar_retValue r)[i := None]\<rparr>)"
  by (simp add: get_component_def andthen_def touch_def)

lemma bind_components_run:
  assumes "ar_exceptionPtr r = None" "k < length (ar_retValue r)"
  shows "bind_components [k..<length (ar_retValue r)] r =
    (Inr (drop k (ar_retValue r)),
     r\<lparr>ar_touched := True,
       ar_retValue := take k (ar_retValue r) @ map (\<lambda>_. None) (drop k (ar_retValue r))\<rparr>)"
  using assms
proof (induction "length (ar_retValue r) - k" arbitrary: k r)
  case (Suc n)
  let ?n = "length (ar_retValue r)"
  let ?r = "r\<lparr>ar_touched := True, ar_retValue := (ar_retValue r)[k := None]\<rparr>"
  have u: "[k..<?n] = k # [Suc k..<?n]" using Suc.prems(2) by (rule upt_conv_Cons)
  have d: "drop k (ar_retValue r) = ar_retValue r ! k # drop (Suc k) (ar_retValue r)"
    using Suc.prems(2) by (simp add: Cons_nth_drop_Suc)
  note g = get_component_run [OF Suc.prems(1), of k]
  show ?case
  proof (cases "Suc k < ?n")
    case True
    have "bind_components [Suc k..<length (ar_retValue ?r)] ?r = (Inr (drop (Suc k) (ar_retValue ?r)),
        ?r\<lparr>ar_touched := True,
          ar_retValue := take (Suc k) (ar_retValue ?r) @ map (\<lambda>_. None) (drop (Suc k) (ar_retValue ?r))\<rparr>)"
      by (rule Suc.hyps(1)) (use Suc.hyps(2) Suc.prems True in simp_all)
    then have "bind_components [Suc k..<?n] ?r = (Inr (drop (Suc k) (ar_retValue r)),
        ?r\<lparr>ar_retValue := take (Suc k) ((ar_retValue r)[k := None]) @
            map (\<lambda>_. None) (drop (Suc k) (ar_retValue r))\<rparr>)"
      by simp
    moreover have "take (Suc k) ((ar_retValue r)[k := None]) = take k (ar_retValue r) @ [None]"
      using Suc.prems(2) by (simp add: take_Suc_conv_app_nth)
    ultimately show ?thesis by (simp add: u d g andthen_def ret_def)
  next
    case False
    with Suc.prems(2) have e: "Suc k = ?n" by simp
    then have "drop (Suc k) (ar_retValue r) = []" by simp
    moreover have "(ar_retValue r)[k := None] = take k (ar_retValue r) @ [None]"
      using e by (intro nth_equalityI) (auto simp: nth_append nth_list_update less_Suc_eq)
    ultimately show ?thesis using e by (simp add: u d g andthen_def ret_def)
  qed
qed simp

text \<open>
  The specialisations of \<open>AwaitResumeResult\<close> agree.  Binding the components of a tuple one by one
  is the same as converting it to a tuple: the same values or the same exception, and the same state
  afterwards, touched and moved out of; \<open>~\<close> is the conversion without the value; and for a coroutine
  without a value, \<open>await_resume\<close> is the one for a value that carries no information.
\<close>

lemma binding_is_conversion:
  assumes "ar_retValue r \<noteq> []"
  shows "bind_components [0..<length (ar_retValue r)] r = take_tuple r \<and>
    discard_result q = (map_sum id (\<lambda>_. ()) (fst (take_result q)), snd (take_result q)) \<and>
    await_resume_void p = await_resume p"
proof (intro conjI)
  show "bind_components [0..<length (ar_retValue r)] r = take_tuple r"
  proof (cases "ar_exceptionPtr r")
    case None
    with assms bind_components_run [of r 0] show ?thesis
      by (simp add: take_tuple_def andthen_def touch_def)
  next
    case (Some e)
    with assms show ?thesis
      by (simp add: upt_conv_Cons get_component_def take_tuple_def andthen_def touch_def)
  qed
qed (auto simp: discard_result_def take_result_def touch_def andthen_def act_simps await_resume_void_def
    await_result_void_def await_resume_def await_result_new_def move_value_def split: option.splits
    prod.splits sum.splits)

lemma binding_is_conversion_witness:
  "bind_components [0, 1] \<lparr>ar_exceptionPtr = None, ar_touched = False, ar_retValue = [Some 4, Some 5]\<rparr> =
   (Inr [Some 4, Some (5 :: nat)],
    \<lparr>ar_exceptionPtr = None, ar_touched = True, ar_retValue = [None, None]\<rparr>)"
proof -
  let ?r = "\<lparr>ar_exceptionPtr = None, ar_touched = False, ar_retValue = [Some 4, Some (5 :: nat)]\<rparr>"
  have "bind_components [0..<length (ar_retValue ?r)] ?r = take_tuple ?r"
    by (rule conjunct1 [OF binding_is_conversion]) simp
  then show ?thesis by (simp add: upt_rec take_tuple_def andthen_def touch_def)
qed

end
