(* ===== verification/Coroutine_Frames.thy ===== *)
theory Coroutine_Frames
  imports Awaiting
begin

section \<open>The life of a coroutine frame\<close>

text \<open>
  One coroutine from its call to the destruction of its frame, together with the coroutine that awaits
  it, over the operations of \<open>Promises\<close>: \<open>initial_suspend\<close> and \<open>final_suspend\<close> of \<open>async/Promise.h\<close>,
  \<open>FinalAwait.h\<close>, the functions of \<open>ChainedAwaitObject.h\<close> in the order in which \<open>co_await\<close> calls them,
  and the destructors of \<open>AwaitResumeResult.h\<close> and \<open>Coroutine.h\<close>.  The two run on different threads
  as soon as the coroutine has been suspended once, so a step is one of these calls, and any
  interleaving is a run.
\<close>

subsection \<open>State\<close>

text \<open>
  \<open>BFinal c\<close> and \<open>BSuspending c\<close>: \<open>final_suspend\<close> has returned a \<open>FinalAwait\<close> with \<open>c\<close>, and the
  coroutine is not yet, or is already, suspended there.
\<close>

datatype body_pc =
    BRun                           \<comment> \<open>its body runs on some thread\<close>
  | BAway                          \<comment> \<open>suspended in its body\<close>
  | BEnding                        \<comment> \<open>after \<open>return_value\<close> or \<open>unhandled_exception\<close>\<close>
  | BFinal "handle option"
  | BSuspending "handle option"
  | BOver "handle option"          \<comment> \<open>control has been handed on\<close>

datatype 'v await_pc =
    WCalling                       \<comment> \<open>inside the call of the coroutine\<close>
  | WStart                         \<comment> \<open>\<open>await_ready\<close>\<close>
  | WRegister                      \<comment> \<open>\<open>await_suspend\<close>\<close>
  | WAsleep
  | WResume                        \<comment> \<open>\<open>await_resume\<close>\<close>
  | WHolds "'v await_result"       \<comment> \<open>the conversion of the result\<close>
  | WLeaving "'v await_result"     \<comment> \<open>the destructors\<close>
  | WOver

record 'v life =
  prom :: "'v promise"
  fdone :: bool                    \<comment> \<open>\<open>done()\<close> of the handle\<close>
  frameGone :: bool
  bodyPc :: body_pc
  awaiter :: "'v await_pc"
  ended :: "'v outcome option"     \<comment> \<open>history: how the body ended\<close>
  got :: "'v outcome option"       \<comment> \<open>history: what \<open>co_await\<close> gave\<close>

subsection \<open>The call\<close>

text \<open>\<open>initial_suspend\<close> is \<open>suspend_never\<close>, whose \<open>await_ready\<close> is true: the body runs at once.\<close>

definition initial_suspend_ready :: bool where
  "initial_suspend_ready = True"

text \<open>The \<open>Coroutine\<close> made from the handle of the promise, and its getter.\<close>

definition coroutine_of :: "handle option \<Rightarrow> handle option" where
  "coroutine_of h = h"

definition get_handle :: "handle option \<Rightarrow> handle option" where
  "get_handle c = c"

definition get_return_object :: "handle \<Rightarrow> handle option" where
  "get_return_object h = coroutine_of (Some h)"

definition life_call :: "'v \<Rightarrow> 'v life" where
  "life_call v =
     \<lparr>prom = promise_new v, fdone = False, frameGone = False,
      bodyPc = (if initial_suspend_ready then BRun else BAway), awaiter = WCalling,
      ended = None, got = None\<rparr>"

subsection \<open>The coroutine\<close>

definition final_await_ready :: bool where
  "final_await_ready = False"

text \<open>\<open>FinalAwait::await_resume\<close> aborts the process.\<close>

definition final_await_resume :: "('s, unit) act" where
  "final_await_resume = fail (AssertFailed ''FinalAwait::await_resume();'')"

text \<open>
  The body ends.  An exception with nobody to give it to leaves \<open>unhandled_exception\<close>, and then the
  coroutine is at its final suspension point.
\<close>

definition body_ends :: "'v outcome \<Rightarrow> ('v life, unit) act" where
  "body_ends out s =
     (case (case out of Returned v \<Rightarrow> return_value v | Threw e \<Rightarrow> unhandled_exception e) (prom s) of
        (Inl x, p) \<Rightarrow> (Inl x, s\<lparr>prom := p, fdone := True, bodyPc := BOver None, ended := Some out\<rparr>)
      | (Inr _, p) \<Rightarrow> (Inr (), s\<lparr>prom := p, bodyPc := BEnding, ended := Some out\<rparr>))"

text \<open>
  When the coroutine is suspended, control goes to the awaiting coroutine \<open>me\<close>, or back to whoever
  called or resumed this one.
\<close>

definition hand_over :: "handle \<Rightarrow> handle option \<Rightarrow> 'v life \<Rightarrow> 'v life" where
  "hand_over me c s =
     s\<lparr>awaiter := (if c = Some me then WResume else if awaiter s = WCalling then WStart else awaiter s)\<rparr>"

text \<open>The \<open>FinalAwait\<close> object is in the frame.\<close>

definition body_goes :: "handle \<Rightarrow> 'v life \<Rightarrow> ((err + unit) \<times> 'v life) option" where
  "body_goes me s =
     (case bodyPc s of
        BEnding \<Rightarrow>
          Some (case final_suspend (prom s) of
             (Inl x, p) \<Rightarrow> (Inl x, s\<lparr>prom := p\<rparr>)
           | (Inr c, p) \<Rightarrow> (Inr (), s\<lparr>prom := p, bodyPc := BFinal c\<rparr>))
      | BFinal c \<Rightarrow>
          Some (if final_await_ready then final_await_resume s
                else (Inr (), s\<lparr>fdone := True, bodyPc := BSuspending c\<rparr>))
      | BSuspending c \<Rightarrow>
          Some (if frameGone s then (Inl (UB UseAfterErase), s)
                else (Inr (), hand_over me (final_await_suspend c) (s\<lparr>bodyPc := BOver c\<rparr>)))
      | _ \<Rightarrow> None)"

subsection \<open>The awaiting coroutine\<close>

text \<open>\<open>~Coroutine\<close> of the coroutine inside the await object; \<open>scheduled\<close> is what the pool answers.\<close>

definition destroy_awaited :: "bool \<Rightarrow> ('v life, unit) act" where
  "destroy_awaited scheduled s =
     andthen (assert_that (fdone s) ''coroutine must be done'') (\<lambda>_ s.
       case destroy_promise scheduled (prom s) of
         (Inl x, p) \<Rightarrow> (Inl x, s\<lparr>prom := p\<rparr>)
       | (Inr _, p) \<Rightarrow> (Inr (), s\<lparr>prom := p, frameGone := True\<rparr>)) s"

definition awaiter_goes :: "bool \<Rightarrow> handle \<Rightarrow> 'v life \<Rightarrow> ((err + unit) \<times> 'v life) option" where
  "awaiter_goes scheduled me s =
     (case awaiter s of
        WStart \<Rightarrow> Some (Inr (), s\<lparr>awaiter := (if fdone s then WResume else WRegister)\<rparr>)
      | WRegister \<Rightarrow>
          Some (case set_caller_coroutine me (prom s) of
             (Inl x, p) \<Rightarrow> (Inl x, s\<lparr>prom := p\<rparr>)
           | (Inr _, p) \<Rightarrow> (Inr (), s\<lparr>prom := p, awaiter := WAsleep\<rparr>))
      | WResume \<Rightarrow>
          Some (case await_resume (prom s) of
             (Inl x, p) \<Rightarrow> (Inl x, s\<lparr>prom := p\<rparr>)
           | (Inr r, p) \<Rightarrow> (Inr (), s\<lparr>prom := p, awaiter := WHolds r\<rparr>))
      | WHolds r \<Rightarrow>
          Some (case take_result r of
             (Inr v, r') \<Rightarrow> (Inr (), s\<lparr>got := Some (Returned v), awaiter := WLeaving r'\<rparr>)
           | (Inl (Throw e), r') \<Rightarrow> (Inr (), s\<lparr>got := Some (Threw e), awaiter := WLeaving r'\<rparr>)
           | (Inl x, r') \<Rightarrow> (Inl x, s))
      | WLeaving r \<Rightarrow>
          Some (case fst (destroy_await_result r) of
             Inl x \<Rightarrow> (Inl x, s)
           | Inr _ \<Rightarrow> destroy_awaited scheduled (s\<lparr>awaiter := WOver\<rparr>))
      | _ \<Rightarrow> None)"

subsection \<open>Runs\<close>

datatype 'v life_event =
    Leaves               \<comment> \<open>the coroutine suspends in its body\<close>
  | Returns              \<comment> \<open>and is resumed\<close>
  | Ends "'v outcome"
  | Goes                 \<comment> \<open>its next step after the end of the body\<close>
  | Awaiter bool

definition life_do :: "handle \<Rightarrow> 'v life_event \<Rightarrow> 'v life \<Rightarrow> ((err + unit) \<times> 'v life) option" where
  "life_do me e s =
     (case e of
        Leaves \<Rightarrow> if bodyPc s = BRun then Some (Inr (), hand_over me None (s\<lparr>bodyPc := BAway\<rparr>)) else None
      | Returns \<Rightarrow> if bodyPc s = BAway then Some (Inr (), s\<lparr>bodyPc := BRun\<rparr>) else None
      | Ends out \<Rightarrow> if bodyPc s = BRun then Some (body_ends out s) else None
      | Goes \<Rightarrow> body_goes me s
      | Awaiter b \<Rightarrow> awaiter_goes b me s)"

inductive life_reach :: "handle \<Rightarrow> 'v life \<Rightarrow> bool" for me where
  call: "life_reach me (life_call v)"
| step: "life_reach me s \<Longrightarrow> life_do me e s = Some (Inr (), t) \<Longrightarrow> life_reach me t"

fun life_exec :: "handle \<Rightarrow> 'v life_event list \<Rightarrow> 'v life \<Rightarrow> 'v life option" where
  "life_exec me [] s = Some s"
| "life_exec me (e # es) s =
     (case life_do me e s of Some (Inr _, t) \<Rightarrow> life_exec me es t | _ \<Rightarrow> None)"

lemma life_exec_reach: "life_exec me es s = Some t \<Longrightarrow> life_reach me s \<Longrightarrow> life_reach me t"
proof (induction es arbitrary: s)
  case (Cons e es)
  then obtain u where u: "life_do me e s = Some (Inr (), u)" "life_exec me es u = Some t"
    by (auto split: option.splits sum.splits)
  from Cons.IH [OF u(2) life_reach.step [OF Cons.prems(2) u(1)]] show ?case .
qed simp

lemmas life_defs = life_do_def body_ends_def body_goes_def awaiter_goes_def hand_over_def
  destroy_awaited_def final_await_ready_def final_await_suspend_def

subsection \<open>The invariant\<close>

text \<open>What the promise holds once the body has ended.\<close>

definition holds_outcome :: "'v outcome option \<Rightarrow> 'v promise \<Rightarrow> bool" where
  "holds_outcome out p \<longleftrightarrow>
     (case out of
        None \<Rightarrow> False
      | Some (Returned v) \<Rightarrow> val p = v \<and> exceptionPtr p = None
      | Some (Threw e) \<Rightarrow> exceptionPtr p = Some e)"

definition result_is :: "'v outcome option \<Rightarrow> 'v await_result \<Rightarrow> bool" where
  "result_is out r \<longleftrightarrow>
     (case out of
        None \<Rightarrow> False
      | Some (Returned v) \<Rightarrow> ar_retValue r = v \<and> ar_exceptionPtr r = None
      | Some (Threw e) \<Rightarrow> ar_exceptionPtr r = Some e)"

fun waiting :: "'v await_pc \<Rightarrow> bool" where
  "waiting WCalling = True" | "waiting WStart = True" | "waiting WRegister = True"
| "waiting WAsleep = True" | "waiting _ = False"

definition body_ok :: "handle \<Rightarrow> 'v life \<Rightarrow> bool" where
  "body_ok me s \<longleftrightarrow>
     (case bodyPc s of
        BRun \<Rightarrow> ended s = None \<and> \<not> fdone s \<and> exceptionPtr (prom s) = None
      | BAway \<Rightarrow> ended s = None \<and> \<not> fdone s \<and> exceptionPtr (prom s) = None \<and> awaiter s \<noteq> WCalling
      | BEnding \<Rightarrow> ended s \<noteq> None \<and> \<not> fdone s
      | BFinal c \<Rightarrow> ended s \<noteq> None \<and> \<not> fdone s \<and> mayBeChecked (prom s) \<and> (c = None \<or> c = Some me \<and> awaiter s = WAsleep)
      | BSuspending c \<Rightarrow> ended s \<noteq> None \<and> fdone s \<and> mayBeChecked (prom s) \<and> (c = None \<or> c = Some me \<and> awaiter s = WAsleep)
      | BOver c \<Rightarrow> ended s \<noteq> None \<and> fdone s \<and> mayBeChecked (prom s) \<and> awaiter s \<noteq> WCalling \<and>
          (c = None \<or> c = Some me \<and> \<not> waiting (awaiter s)))"

definition awaiter_ok :: "handle \<Rightarrow> 'v life \<Rightarrow> bool" where
  "awaiter_ok me s \<longleftrightarrow>
     (if waiting (awaiter s)
      then callerCoroutine (prom s) = (if awaiter s = WAsleep then Some me else None)
      else fdone s) \<and>
     (waiting (awaiter s) \<or> awaiter s = WResume \<longrightarrow>
        got s = None \<and> (ended s \<noteq> None \<longrightarrow> holds_outcome (ended s) (prom s))) \<and>
     (case awaiter s of
        WHolds r \<Rightarrow> got s = None \<and> result_is (ended s) r \<and> exceptionPtr (prom s) = None \<and> checked (prom s)
      | WLeaving r \<Rightarrow> got s = ended s \<and> ar_touched r \<and> exceptionPtr (prom s) = None \<and> checked (prom s)
      | WOver \<Rightarrow> got s = ended s
      | _ \<Rightarrow> True) \<and>
     (frameGone s \<longleftrightarrow> awaiter s = WOver)"

definition life_ok :: "handle \<Rightarrow> 'v life \<Rightarrow> bool" where
  "life_ok me s \<longleftrightarrow> body_ok me s \<and> awaiter_ok me s"

lemmas life_invs = life_ok_def body_ok_def awaiter_ok_def holds_outcome_def result_is_def

lemma life_ok_call: "life_ok me (life_call v)"
  by (simp add: life_invs life_call_def initial_suspend_ready_def promise_new_def)


lemma body_ends_ok:
  assumes "life_ok me s" "bodyPc s = BRun" "body_ends out s = (r, t)"
  shows "(r = Inr () \<longrightarrow> life_ok me t) \<and>
    (r = Inl x \<longrightarrow> callerCoroutine (prom s) = None \<and> (\<exists>e. out = Threw e \<and> x = Throw e))"
proof (cases out)
  case (Returned v)
  with assms show ?thesis
    by (cases "awaiter s"; clarsimp simp: body_ends_def return_value_def modify_run life_invs)
next
  case (Threw e)
  with assms show ?thesis
    by (cases "awaiter s"; clarsimp simp: body_ends_def unhandled_exception_def handle_unhandled_exception_def
        andthen_def act_simps life_invs)
qed

lemma body_goes_ok:
  assumes "life_ok me s" "body_goes me s = Some (r, t)"
  shows "(r = Inr () \<longrightarrow> life_ok me t) \<and> (r = Inl x \<longrightarrow> x = UB UseAfterErase \<and> frameGone s)"
proof (cases "bodyPc s")
  case BEnding
  with assms show ?thesis
    by (cases "awaiter s"; clarsimp simp: body_goes_def final_suspend_def life_invs split: outcome.splits)
next
  case (BFinal c)
  with assms show ?thesis
    by (cases "awaiter s"; clarsimp simp: body_goes_def final_await_ready_def life_invs split: outcome.splits)
next
  case (BSuspending c)
  with assms show ?thesis
    by (cases "awaiter s"; clarsimp simp: body_goes_def hand_over_def final_await_suspend_def life_invs
        split: if_splits outcome.splits)
qed (use assms(2) in \<open>simp_all add: body_goes_def\<close>)

lemma awaiter_goes_ok:
  assumes "life_ok me s" "awaiter_goes b me s = Some (r, t)"
  shows "(r = Inr () \<longrightarrow> life_ok me t) \<and>
    (r = Inl x \<longrightarrow> b \<and> x = AssertFailed ''promise is scheduled on destruction'')"
proof (cases "awaiter s")
  case WStart
  with assms show ?thesis
    by (cases "bodyPc s"; clarsimp simp: awaiter_goes_def life_invs
        split: if_splits outcome.splits)
next
  case WRegister
  with assms show ?thesis
    by (cases "bodyPc s"; clarsimp simp: awaiter_goes_def set_caller_coroutine_def andthen_def act_simps life_invs
        split: if_splits outcome.splits)
next
  case WResume
  with assms show ?thesis
    by (cases "bodyPc s"; clarsimp simp: awaiter_goes_def await_resume_finished await_result_new_def life_invs
        split: if_splits outcome.splits)
next
  case (WHolds r')
  with assms show ?thesis
    by (cases "bodyPc s"; clarsimp simp: awaiter_goes_def take_result_def touch_def andthen_def life_invs
        split: if_splits outcome.splits)
next
  case (WLeaving r')
  with assms show ?thesis
    by (cases "bodyPc s"; clarsimp simp: awaiter_goes_def destroy_await_result_def destroy_awaited_def destroy_promise_def andthen_def
        act_simps life_invs split: if_splits outcome.splits)
qed (use assms(2) in \<open>simp_all add: awaiter_goes_def\<close>)

lemma body_moves_ok:
  assumes "life_ok me s"
  shows "bodyPc s = BRun \<Longrightarrow> life_ok me (hand_over me None (s\<lparr>bodyPc := BAway\<rparr>))"
    "bodyPc s = BAway \<Longrightarrow> life_ok me (s\<lparr>bodyPc := BRun\<rparr>)"
  using assms by (cases "awaiter s"; auto simp: hand_over_def life_invs)+

lemma life_ok_do:
  assumes "life_ok me s" "life_do me e s = Some (Inr (), t)"
  shows "life_ok me t"
  using assms body_ends_ok [OF assms(1)] body_goes_ok [OF assms(1)] awaiter_goes_ok [OF assms(1)]
    body_moves_ok [OF assms(1)]
  by (cases e) (auto simp: life_do_def split: if_splits)

lemma life_ok_reach: "life_reach me s \<Longrightarrow> life_ok me s"
  by (induction rule: life_reach.induct) (blast intro: life_ok_call life_ok_do)+

subsection \<open>Several values and no value\<close>

text \<open>
  The promise of a coroutine with several values keeps a tuple, here the list of its components with
  \<open>None\<close> for one that has been moved out of.  \<open>await_resume\<close> moves the tuple into the result object,
  which has as many components; a coroutine without a value has nothing to store.
\<close>

definition return_values :: "'a list \<Rightarrow> ('a option list promise, unit) act" where
  "return_values vs = modify (\<lambda>p. p\<lparr>val := map Some vs\<rparr>)"

definition move_values :: "('a option list promise, 'a option list) act" where
  "move_values p = (Inr (val p), p\<lparr>val := map (\<lambda>_. None) (val p)\<rparr>)"

definition await_resume_tuple :: "('a option list promise, 'a option list await_result) act" where
  "await_resume_tuple =
     andthen move_values (\<lambda>v. andthen get_and_clear_exception (\<lambda>e. ret (await_result_new v e)))"

definition tuple_size :: "'a option list await_result \<Rightarrow> nat" where
  "tuple_size r = length (ar_retValue r)"

definition return_void :: "(unit promise, unit) act" where
  "return_void = ret ()"

text \<open>
  What a coroutine returns with \<open>co_return std::tuple(...)\<close> is what \<open>auto [a, b, ...] = co_await ...\<close>
  binds, in order, and the result object can then be destroyed; returning nothing is returning the value
  that carries no information.
\<close>

lemma tuple_delivered:
  assumes "exceptionPtr p = None" "vs \<noteq> []"
  shows "\<exists>q q' r r'. andthen (return_values vs) (\<lambda>_. final_suspend) p = (Inr (callerCoroutine p), q) \<and>
      await_resume_tuple q = (Inr r, q') \<and> val q' = map (\<lambda>_. None) vs \<and> checked q' \<and>
      bind_components [0..<tuple_size r] r = (Inr (map Some vs), r') \<and>
      destroy_await_result r' = (Inr (), r')" (is ?tuple)
    and "andthen return_void (\<lambda>_. final_suspend) u = andthen (return_value ()) (\<lambda>_. final_suspend) u"
proof -
  let ?q = "p\<lparr>val := map Some vs, mayBeChecked := True\<rparr>"
  let ?r = "await_result_new (map Some vs) None"
  have "andthen (return_values vs) (\<lambda>_. final_suspend) p = (Inr (callerCoroutine p), ?q)"
    by (simp add: return_values_def final_suspend_def andthen_def modify_def)
  moreover have "await_resume_tuple ?q = (Inr ?r, ?q\<lparr>val := map (\<lambda>_. None) vs, checked := True\<rparr>)"
    using assms(1)
    by (simp add: await_resume_tuple_def move_values_def get_and_clear_exception_def andthen_def act_simps comp_def)
  moreover have "bind_components [0..<tuple_size ?r] ?r =
      (Inr (map Some vs), ?r\<lparr>ar_touched := True, ar_retValue := map (\<lambda>_. None) vs\<rparr>)"
    using bind_components_run [of ?r 0] assms(2) by (simp add: tuple_size_def await_result_new_def comp_def)
  ultimately show ?tuple by (simp add: destroy_await_result_def assert_that_run)
qed (simp add: return_void_def return_value_def andthen_def ret_def modify_def final_suspend_def)

lemma tuple_delivered_witness:
  "\<exists>q q' r r'. await_resume_tuple q = (Inr r, q') \<and>
     bind_components [0..<tuple_size r] r = (Inr [Some 4, Some (5 :: nat)], r')"
  using tuple_delivered(1) [of "promise_new [None, None]" "[4, 5]"] by (auto simp: promise_new_def)

subsection \<open>The specification: a result that is delivered once\<close>

datatype 'v future = Pending | Ready "'v outcome" | Taken "'v outcome"

inductive future_step :: "'v future \<Rightarrow> 'v future \<Rightarrow> bool" where
  completed: "future_step Pending (Ready out)"
| taken: "future_step (Ready out) (Taken out)"

definition future_of :: "'v life \<Rightarrow> 'v future" where
  "future_of s =
     (case got s of
        Some out \<Rightarrow> Taken out
      | None \<Rightarrow> (case ended s of None \<Rightarrow> Pending | Some out \<Rightarrow> Ready out))"

lemma future_same: "got t = got s \<Longrightarrow> ended t = ended s \<Longrightarrow> future_of t = future_of s"
  by (simp add: future_of_def split: option.split)

lemma body_ends_future:
  assumes "life_ok me s" "bodyPc s = BRun" "body_ends out s = (Inr (), t)"
  shows "future_of s = Pending \<and> future_of t = Ready out"
proof -
  from assms(3) have "ended t = Some out \<and> got t = got s"
    by (auto simp: body_ends_def split: prod.splits sum.splits)
  moreover from assms(1,2) have "ended s = None \<and> got s = None"
    by (cases "awaiter s"; clarsimp simp: life_invs)
  ultimately show ?thesis by (simp add: future_of_def)
qed

lemma body_goes_future: "body_goes me s = Some (r, t) \<Longrightarrow> future_of t = future_of s"
  by (rule future_same; cases "bodyPc s";
      clarsimp simp: body_goes_def final_suspend_def final_await_ready_def hand_over_def split: if_splits)

lemma destroy_awaited_frame:
  "destroy_awaited b s = (r, t) \<Longrightarrow> got t = got s \<and> ended t = ended s \<and> bodyPc t = bodyPc s \<and> awaiter t = awaiter s"
  by (auto simp: destroy_awaited_def andthen_def assert_that_run split: prod.splits sum.splits if_splits)

lemma awaiter_goes_frame:
  assumes "awaiter_goes b me s = Some (r, t)" "\<forall>q. awaiter s \<noteq> WHolds q"
  shows "got t = got s \<and> ended t = ended s"
proof (cases "awaiter s")
  case WRegister
  with assms(1) show ?thesis by (auto simp: awaiter_goes_def split: prod.splits sum.splits)
next
  case WResume
  with assms(1) show ?thesis by (auto simp: awaiter_goes_def split: prod.splits sum.splits)
next
  case (WLeaving q)
  with assms(1) show ?thesis
    using destroy_awaited_frame [of b "s\<lparr>awaiter := WOver\<rparr>" r t]
    by (auto simp: awaiter_goes_def split: sum.splits)
qed (use assms in \<open>auto simp: awaiter_goes_def\<close>)

lemma awaiter_goes_future:
  assumes "life_ok me s" "awaiter_goes b me s = Some (Inr (), t)"
  shows "future_of t = future_of s \<or> future_step (future_of s) (future_of t)"
proof (cases "\<exists>r. awaiter s = WHolds r")
  case True
  then obtain r where r: "awaiter s = WHolds r" by blast
  with assms(1) have r': "got s = None" "result_is (ended s) r" by (simp_all add: life_ok_def awaiter_ok_def)
  then obtain out where out: "ended s = Some out" by (cases "ended s") (simp_all add: result_is_def)
  have "got t = Some out"
  proof (cases out)
    case (Returned v)
    with out r r'(2) assms(2) show ?thesis
      by (auto simp: awaiter_goes_def take_result_def touch_def andthen_def result_is_def)
  next
    case (Threw ex)
    with out r r'(2) assms(2) show ?thesis
      by (auto simp: awaiter_goes_def take_result_def touch_def andthen_def result_is_def)
  qed
  with out r'(1) show ?thesis by (simp add: future_of_def future_step.taken)
next
  case False
  then show ?thesis using awaiter_goes_frame [OF assms(2)] future_same [of t s] by blast
qed

subsection \<open>Progress\<close>

fun body_left :: "body_pc \<Rightarrow> nat" where
  "body_left BEnding = 3" | "body_left (BFinal c) = 2" | "body_left (BSuspending c) = 1" | "body_left _ = 0"

fun awaiter_left :: "'v await_pc \<Rightarrow> nat" where
  "awaiter_left WCalling = 7" | "awaiter_left WStart = 6" | "awaiter_left WRegister = 5"
| "awaiter_left WAsleep = 4" | "awaiter_left WResume = 3" | "awaiter_left (WHolds r) = 2"
| "awaiter_left (WLeaving r) = 1" | "awaiter_left WOver = 0"

definition life_rank :: "'v life \<Rightarrow> nat" where
  "life_rank s = body_left (bodyPc s) + awaiter_left (awaiter s)"

lemma body_goes_rank:
  assumes "life_ok me s" "body_goes me s = Some (Inr (), t)"
  shows "life_rank t < life_rank s"
proof (cases "bodyPc s")
  case (BSuspending c)
  with assms show ?thesis
    by (cases "awaiter s"; clarsimp simp: body_goes_def hand_over_def final_await_suspend_def life_invs
        life_rank_def split: if_splits)
qed (use assms(2) in \<open>auto simp: body_goes_def final_suspend_def final_await_ready_def life_rank_def\<close>)

lemma awaiter_goes_rank: "awaiter_goes b me s = Some (Inr (), t) \<Longrightarrow> life_rank t < life_rank s"
  by (cases "awaiter s"; clarsimp simp: awaiter_goes_def life_rank_def split: prod.splits sum.splits if_splits err.splits
      dest!: destroy_awaited_frame)

lemma awaiter_moves: "awaiter_goes b me s = None \<longleftrightarrow> awaiter s \<in> {WCalling, WAsleep, WOver}"
  by (cases "awaiter s") (simp_all add: awaiter_goes_def)

lemma body_moves: "body_goes me s = None \<longleftrightarrow> bodyPc s = BRun \<or> bodyPc s = BAway \<or> (\<exists>c. bodyPc s = BOver c)"
  by (cases "bodyPc s") (simp_all add: body_goes_def)

subsection \<open>Properties\<close>

text \<open>
  C7: a coroutine is a result that is delivered once.  In every interleaving of a coroutine and the one
  that awaits it, on different threads, each step changes nothing in the specification, or makes the
  result ready with what the body ended with, or lets \<open>co_await\<close> take exactly that.  No assertion of
  the promise, of the result object or of the owner of the frame can fail, and \<open>FinalAwait::await_resume\<close>
  is never reached: the only steps that fail are a body that ends with an exception before its caller
  has registered (the exception leaves the coroutine), the destruction of a coroutine the pool still has
  in its queue, and the end of \<open>FinalAwait::await_suspend\<close> after the frame it runs in was destroyed, by
  an awaiting coroutine that found it done.
\<close>

theorem frame_refines_future:
  assumes "life_reach me s" "life_do me e s = Some (r, t)"
  shows "(r = Inr () \<longrightarrow> future_of t = future_of s \<or> future_step (future_of s) (future_of t)) \<and>
    (r = Inl x \<longrightarrow>
      (\<exists>ex. e = Ends (Threw ex) \<and> x = Throw ex \<and> callerCoroutine (prom s) = None) \<or>
      e = Awaiter True \<and> x = AssertFailed ''promise is scheduled on destruction'' \<or>
      e = Goes \<and> x = UB UseAfterErase \<and> frameGone s \<and> got s = ended s)"
proof -
  note ok = life_ok_reach [OF assms(1)]
  show ?thesis
  proof (cases e)
    case Leaves
    with assms(2) show ?thesis by (auto simp: life_do_def hand_over_def split: if_splits intro: future_same)
  next
    case Returns
    with assms(2) show ?thesis by (auto simp: life_do_def split: if_splits intro: future_same)
  next
    case (Ends out)
    with assms(2) have s: "bodyPc s = BRun" "body_ends out s = (r, t)" by (auto simp: life_do_def split: if_splits)
    with body_ends_future [OF ok s(1)] body_ends_ok [OF ok s, of x] Ends show ?thesis
      by (auto intro: future_step.completed)
  next
    case Goes
    with assms(2) have s: "body_goes me s = Some (r, t)" by (simp add: life_do_def)
    moreover have "frameGone s \<longrightarrow> got s = ended s" using ok by (auto simp: life_ok_def awaiter_ok_def)
    ultimately show ?thesis using body_goes_future [OF s] body_goes_ok [OF ok s, of x] Goes by auto
  next
    case (Awaiter b)
    with assms(2) have s: "awaiter_goes b me s = Some (r, t)" by (simp add: life_do_def)
    with awaiter_goes_future [OF ok] awaiter_goes_ok [OF ok s, of x] Awaiter show ?thesis by auto
  qed
qed

text \<open>A coroutine that suspends once, ends with an exception, and whose caller registered in time.\<close>

definition frame_run :: "nat outcome \<Rightarrow> nat life_event list" where
  "frame_run out =
     [Leaves, Awaiter False, Awaiter False, Returns, Ends out, Goes, Goes, Goes, Awaiter False]"

theorem frame_refines_future_witness:
  "\<exists>s t. life_exec 7 (frame_run (Threw (throw_default CryptoException))) (life_call 0) = Some s \<and>
     life_do 7 (Awaiter False) s = Some (Inr (), t) \<and>
     future_step (future_of s) (future_of t) \<and> future_of t = Taken (Threw (throw_default CryptoException))"
proof -
  let ?e = "Threw (throw_default CryptoException)"
  have "\<exists>s t. life_exec 7 (frame_run ?e) (life_call 0) = Some s \<and> life_do 7 (Awaiter False) s = Some (Inr (), t) \<and>
      future_of s = Ready ?e \<and> future_of t \<noteq> future_of s \<and> got t = Some ?e"
    by (simp add: frame_run_def life_call_def life_defs promise_new_def promise_ops act_simps andthen_def
        initial_suspend_ready_def future_of_def)
  then obtain s t where s: "life_exec 7 (frame_run ?e) (life_call 0) = Some s"
    "life_do 7 (Awaiter False) s = Some (Inr (), t)" "future_of s = Ready ?e" "future_of t \<noteq> future_of s"
    "got t = Some ?e" by blast
  from frame_refines_future [OF life_exec_reach [OF s(1) life_reach.call] s(2)] s show ?thesis
    by (auto simp: future_of_def)
qed

text \<open>
  C17: waiting for a coroutine ends, with one exception.  When neither the ended coroutine nor the
  awaiting one can move, the awaiting one has the outcome of the body and the frame is destroyed, or
  the body has not ended, or the awaiting coroutine registered itself after \<open>final_suspend\<close> had looked
  for a caller: then it sleeps for ever.  Every step after the end of the body, and every step of the
  awaiting coroutine, decreases a rank.
\<close>

theorem frame_await_ends:
  assumes "life_reach me s"
  shows "(life_do me Goes s = None \<and> life_do me (Awaiter b) s = None \<longrightarrow>
      awaiter s = WOver \<and> frameGone s \<and> ended s \<noteq> None \<and> got s = ended s \<or>
      ended s = None \<or> awaiter s = WAsleep \<and> bodyPc s = BOver None) \<and>
    (e \<in> {Goes, Awaiter b} \<and> life_do me e s = Some (Inr (), t) \<longrightarrow> life_rank t < life_rank s)"
proof -
  note ok = life_ok_reach [OF assms]
  have "awaiter s = WOver \<and> frameGone s \<and> ended s \<noteq> None \<and> got s = ended s \<or>
      ended s = None \<or> awaiter s = WAsleep \<and> bodyPc s = BOver None"
    if "body_goes me s = None" "awaiter_goes b me s = None"
    using that ok
    by (cases "bodyPc s") (auto simp: body_moves awaiter_moves life_ok_def body_ok_def awaiter_ok_def)
  moreover have "life_rank t < life_rank s" if "e \<in> {Goes, Awaiter b}" "life_do me e s = Some (Inr (), t)"
    using that body_goes_rank [OF ok] awaiter_goes_rank [of b me s t] by (auto simp: life_do_def)
  ultimately show ?thesis by (simp add: life_do_def)
qed

theorem frame_await_ends_witness:
  "\<exists>s. life_exec 7 (frame_run (Returned 4) @ [Awaiter False, Awaiter False]) (life_call 0) = Some s \<and>
     awaiter s = WOver \<and> got s = Some (Returned 4)"
proof -
  have "\<exists>s. life_exec 7 (frame_run (Returned 4) @ [Awaiter False, Awaiter False]) (life_call 0) = Some s \<and>
      life_do 7 Goes s = None \<and> life_do 7 (Awaiter False) s = None \<and> ended s = Some (Returned 4) \<and>
      awaiter s \<noteq> WAsleep"
    by (simp add: frame_run_def life_call_def life_defs promise_new_def promise_ops act_simps andthen_def
        initial_suspend_ready_def)
  then obtain s where s: "life_exec 7 (frame_run (Returned 4) @ [Awaiter False, Awaiter False]) (life_call 0) = Some s"
    "life_do 7 Goes s = None" "life_do 7 (Awaiter False) s = None" "ended s = Some (Returned 4)"
    "awaiter s \<noteq> WAsleep" by blast
  from frame_await_ends [OF life_exec_reach [OF s(1) life_reach.call], of False] s show ?thesis by auto
qed

text \<open>
  Both windows exist.  The body ends on another thread between \<open>await_ready\<close> and the registration of the
  caller, which then sleeps for ever; or between its last suspension and the end of
  \<open>FinalAwait::await_suspend\<close>, whose object the awaiting coroutine destroys with the frame.
\<close>

lemma await_windows:
  "\<exists>s. life_exec 7 [Leaves, Awaiter False, Returns, Ends (Returned 4), Goes, Awaiter False, Goes, Goes] (life_call 0) =
       Some s \<and> awaiter s = WAsleep \<and> bodyPc s = BOver None"
  "\<exists>s t. life_exec 7 ([Leaves, Returns, Ends (Returned 4), Goes, Goes] @ replicate 4 (Awaiter False)) (life_call 0) =
       Some s \<and> got s = Some (Returned 4) \<and> life_do 7 Goes s = Some (Inl (UB UseAfterErase), t)"
  by (simp_all add: life_call_def life_defs promise_new_def promise_ops act_simps andthen_def
      initial_suspend_ready_def eval_nat_numeral)

end
