(* ===== verification/Waiters.thy ===== *)
theory Waiters
  imports Promises
begin

section \<open>Waiting for a coroutine from a thread\<close>

text \<open>
  \<open>async/SyncCoroutineWaiter.h\<close>: a thread that is not a coroutine blocks until a coroutine has ended.
  \<open>wait\<close> starts the helper coroutine \<open>waitHelper\<close>, which awaits the coroutine, keeps its value, sets
  \<open>doneFlag\<close> and notifies a condition variable; the thread sleeps on it under a mutex of its own.
  Three parties act: the inner coroutine on some thread of the pool, the helper (first on the calling
  thread, after it has suspended on the thread that resumes it), and the calling thread.  A step is one
  access to state they share; the promises are those of \<open>Promises\<close>.
\<close>

datatype inner_pc =
    IRunning                        \<comment> \<open>the body has not ended\<close>
  | ICaptured "handle option"       \<comment> \<open>\<open>final_suspend\<close> has read \<open>callerCoroutine\<close>\<close>
  | IDone                           \<comment> \<open>suspended for the last time; \<open>done()\<close> is true\<close>

datatype helper_pc =
    HReady         \<comment> \<open>\<open>await_ready\<close>\<close>
  | HRegister      \<comment> \<open>\<open>await_suspend\<close>\<close>
  | HSuspended
  | HTake          \<comment> \<open>\<open>await_resume\<close> and the conversion of its result\<close>
  | HFlag          \<comment> \<open>\<open>doneFlag = true\<close>\<close>
  | HNotify        \<comment> \<open>\<open>cv.notify_one()\<close>\<close>
  | HReturn        \<comment> \<open>the end of the body, or \<open>throw;\<close>\<close>
  | HFinal         \<comment> \<open>\<open>final_suspend\<close> was called\<close>
  | HDone

datatype waiter_pc =
    WCalling       \<comment> \<open>inside the call of \<open>waitHelper\<close>\<close>
  | WTest          \<comment> \<open>the predicate of \<open>cv.wait\<close>\<close>
  | WToSleep       \<comment> \<open>the predicate was false\<close>
  | WAsleep
  | WCheck         \<comment> \<open>\<open>h.getHandle().promise().check()\<close>\<close>
  | WDestroy       \<comment> \<open>the destructor of \<open>h\<close>\<close>
  | WReturned

text \<open>An exception that leaves \<open>resume()\<close> on a thread of the pool ends the process.\<close>

datatype fate = Going | Terminated exn | Aborted string

record 'v sync_wait =
  inner :: inner_pc
  innerPromise :: "'v promise"
  innerEnds :: "'v outcome"         \<comment> \<open>how the body of the coroutine will end\<close>
  helper :: helper_pc
  helperPromise :: "unit promise"
  caughtByHelper :: "exn option"
  retValues :: "'v option"
  doneFlag :: bool
  waiterPc :: waiter_pc
  fate :: fate

definition helper_handle :: handle where "helper_handle = 1"

subsection \<open>The call\<close>

definition wait_call :: "'v promise \<Rightarrow> inner_pc \<Rightarrow> 'v outcome \<Rightarrow> 'v sync_wait" where
  "wait_call p pc out =
     \<lparr>inner = pc, innerPromise = p, innerEnds = out, helper = HReady,
      helperPromise = promise_new (), caughtByHelper = None, retValues = None, doneFlag = False,
      waiterPc = WCalling, fate = Going\<rparr>"

text \<open>The coroutine is still running, or it has ended with a value and waits to be checked.\<close>

definition startable :: "'v promise \<Rightarrow> inner_pc \<Rightarrow> 'v outcome \<Rightarrow> bool" where
  "startable p pc out \<longleftrightarrow>
     (pc = IRunning \<and> (\<exists>v. p = promise_new v)) \<or>
     (pc = IDone \<and> (\<exists>v w. out = Returned v \<and> p = snd (finish out (promise_new w))))"

subsection \<open>Steps\<close>

definition inner_step :: "'v sync_wait \<Rightarrow> 'v sync_wait option" where
  "inner_step s =
     (case inner s of
        IRunning \<Rightarrow>
          (case finish (innerEnds s) (innerPromise s) of
             (Inl (Throw e), p) \<Rightarrow> Some (s\<lparr>innerPromise := p, fate := Terminated e\<rparr>)
           | (Inl _, p) \<Rightarrow> Some (s\<lparr>innerPromise := p, fate := Aborted ''Double fault''\<rparr>)
           | (Inr c, p) \<Rightarrow> Some (s\<lparr>innerPromise := p, inner := ICaptured c\<rparr>))
      | ICaptured c \<Rightarrow>
          Some (s\<lparr>inner := IDone,
                  helper := (if final_await_suspend c = None then helper s else HTake)\<rparr>)
      | IDone \<Rightarrow> None)"

text \<open>When the helper stops for the first time, the call of \<open>waitHelper\<close> returns.\<close>

definition ramp_returns :: "'v sync_wait \<Rightarrow> 'v sync_wait" where
  "ramp_returns s = (if waiterPc s = WCalling then s\<lparr>waiterPc := WTest\<rparr> else s)"

definition helper_step :: "'v sync_wait \<Rightarrow> 'v sync_wait option" where
  "helper_step s =
     (case helper s of
        HReady \<Rightarrow> Some (s\<lparr>helper := (if inner s = IDone then HTake else HRegister)\<rparr>)
      | HRegister \<Rightarrow>
          (case set_caller_coroutine helper_handle (innerPromise s) of
             (Inl _, p) \<Rightarrow> Some (s\<lparr>fate := Aborted ''double join''\<rparr>)
           | (Inr _, p) \<Rightarrow> Some (ramp_returns (s\<lparr>innerPromise := p, helper := HSuspended\<rparr>)))
      | HSuspended \<Rightarrow> None
      | HTake \<Rightarrow>
          (case co_await_value (innerPromise s) of
             (Inr v, p) \<Rightarrow> Some (s\<lparr>innerPromise := p, retValues := Some v, helper := HFlag\<rparr>)
           | (Inl (Throw e), p) \<Rightarrow>
               Some (s\<lparr>innerPromise := p, caughtByHelper := Some e, helper := HFlag\<rparr>)
           | (Inl (AssertFailed m), p) \<Rightarrow> Some (s\<lparr>fate := Aborted m\<rparr>)
           | (Inl _, p) \<Rightarrow> None)
      | HFlag \<Rightarrow> Some (s\<lparr>doneFlag := True, helper := HNotify\<rparr>)
      | HNotify \<Rightarrow>
          Some (s\<lparr>waiterPc := (if waiterPc s = WAsleep then WTest else waiterPc s),
                  helper := HReturn\<rparr>)
      | HReturn \<Rightarrow>
          (case caughtByHelper s of
             None \<Rightarrow> (case final_suspend (helperPromise s) of
                        (_, p) \<Rightarrow> Some (s\<lparr>helperPromise := p, helper := HFinal\<rparr>))
           | Some e \<Rightarrow> (case unhandled_exception e (helperPromise s) of
                        (Inl _, p) \<Rightarrow> Some (s\<lparr>helperPromise := p, fate := Terminated e\<rparr>)
                      | (Inr _, p) \<Rightarrow> Some (s\<lparr>helperPromise := p, helper := HFinal\<rparr>)))
      | HFinal \<Rightarrow> Some (ramp_returns (s\<lparr>helper := HDone\<rparr>))
      | HDone \<Rightarrow> None)"

definition waiter_step :: "'v sync_wait \<Rightarrow> 'v sync_wait option" where
  "waiter_step s =
     (case waiterPc s of
        WCalling \<Rightarrow> None
      | WTest \<Rightarrow> Some (s\<lparr>waiterPc := (if doneFlag s then WCheck else WToSleep)\<rparr>)
      | WToSleep \<Rightarrow> Some (s\<lparr>waiterPc := WAsleep\<rparr>)
      | WAsleep \<Rightarrow> None
      | WCheck \<Rightarrow>
          (case check_promise (helperPromise s) of
             (Inr _, p) \<Rightarrow> Some (s\<lparr>helperPromise := p, waiterPc := WDestroy\<rparr>)
           | (Inl (Throw e), p) \<Rightarrow> Some (s\<lparr>helperPromise := p, fate := Terminated e\<rparr>)
           | (Inl (AssertFailed m), p) \<Rightarrow> Some (s\<lparr>helperPromise := p, fate := Aborted m\<rparr>)
           | (Inl _, p) \<Rightarrow> None)
      | WDestroy \<Rightarrow>
          (if helper s \<noteq> HDone then Some (s\<lparr>fate := Aborted ''coroutine must be done''\<rparr>)
           else (case fst (destroy_promise False (helperPromise s)) of
                   Inr _ \<Rightarrow> Some (s\<lparr>waiterPc := WReturned\<rparr>)
                 | Inl (AssertFailed m) \<Rightarrow> Some (s\<lparr>fate := Aborted m\<rparr>)
                 | Inl _ \<Rightarrow> None))
      | WReturned \<Rightarrow> None)"

inductive wait_step :: "'v sync_wait \<Rightarrow> 'v sync_wait \<Rightarrow> bool" where
  inner: "fate s = Going \<Longrightarrow> inner_step s = Some t \<Longrightarrow> wait_step s t"
| helper: "fate s = Going \<Longrightarrow> helper_step s = Some t \<Longrightarrow> wait_step s t"
| waiter: "fate s = Going \<Longrightarrow> waiter_step s = Some t \<Longrightarrow> wait_step s t"
| spurious: "fate s = Going \<Longrightarrow> waiterPc s = WAsleep \<Longrightarrow> wait_step s (s\<lparr>waiterPc := WTest\<rparr>)"

inductive wait_reach :: "'v sync_wait \<Rightarrow> bool" where
  call: "startable p pc out \<Longrightarrow> wait_reach (wait_call p pc out)"
| step: "wait_reach s \<Longrightarrow> wait_step s t \<Longrightarrow> wait_reach t"

inductive_cases wait_stepE: "wait_step s t"

subsection \<open>What the program counters say\<close>

text \<open>The helper has the outcome of the coroutine, or the promise of the coroutine still has it.\<close>

definition has_taken :: "helper_pc \<Rightarrow> bool" where
  "has_taken h \<longleftrightarrow> h \<in> {HFlag, HNotify, HReturn, HFinal, HDone}"

definition promise_keeps :: "'v promise \<Rightarrow> 'v outcome \<Rightarrow> bool" where
  "promise_keeps p out \<longleftrightarrow>
     mayBeChecked p \<and>
     (case out of Returned v \<Rightarrow> val p = v \<and> exceptionPtr p = None | Threw e \<Rightarrow> exceptionPtr p = Some e)"

definition inner_ok :: "'v sync_wait \<Rightarrow> bool" where
  "inner_ok s \<longleftrightarrow>
     (helper s \<in> {HReady, HRegister} \<longrightarrow> callerCoroutine (innerPromise s) = None) \<and>
     (helper s = HSuspended \<longrightarrow> callerCoroutine (innerPromise s) = Some helper_handle) \<and>
     (helper s = HTake \<or> has_taken (helper s) \<longrightarrow> inner s = IDone) \<and>
     (case inner s of
        IRunning \<Rightarrow> exceptionPtr (innerPromise s) = None
      | ICaptured c \<Rightarrow>
          promise_keeps (innerPromise s) (innerEnds s) \<and> (c = None \<or> helper s = HSuspended)
      | IDone \<Rightarrow> has_taken (helper s) \<or> promise_keeps (innerPromise s) (innerEnds s))"

definition helper_ok :: "'v sync_wait \<Rightarrow> bool" where
  "helper_ok s \<longleftrightarrow>
     callerCoroutine (helperPromise s) = None \<and> exceptionPtr (helperPromise s) = None \<and>
     mayBeChecked (helperPromise s) = (helper s \<in> {HFinal, HDone}) \<and>
     (has_taken (helper s) \<longrightarrow>
        (case innerEnds s of
           Returned v \<Rightarrow> retValues s = Some v \<and> caughtByHelper s = None
         | Threw e \<Rightarrow> caughtByHelper s = Some e)) \<and>
     (\<not> has_taken (helper s) \<longrightarrow> caughtByHelper s = None) \<and>
     (helper s \<in> {HFinal, HDone} \<longrightarrow> caughtByHelper s = None) \<and>
     (doneFlag s \<longleftrightarrow> helper s \<in> {HNotify, HReturn, HFinal, HDone})"

definition waiter_ok :: "'v sync_wait \<Rightarrow> bool" where
  "waiter_ok s \<longleftrightarrow>
     (waiterPc s = WCalling \<longrightarrow> helper s \<notin> {HSuspended, HDone}) \<and>
     (helper s \<in> {HReady, HRegister} \<longrightarrow> waiterPc s = WCalling) \<and>
     (waiterPc s \<in> {WCheck, WDestroy, WReturned} \<longrightarrow> doneFlag s) \<and>
     (waiterPc s = WDestroy \<longrightarrow>
        checked (helperPromise s) \<and> mayBeChecked (helperPromise s)) \<and>
     (waiterPc s = WReturned \<longrightarrow> helper s = HDone)"

definition wait_ok :: "'v sync_wait \<Rightarrow> bool" where
  "wait_ok s \<longleftrightarrow> inner_ok s \<and> helper_ok s \<and> waiter_ok s"

lemmas pc_congs = inner_pc.case_cong outcome.case_cong

lemmas wait_oks = wait_ok_def inner_ok_def helper_ok_def waiter_ok_def has_taken_def

lemma finish_keeps:
  assumes "finish out p = (Inr c, q)" "exceptionPtr p = None"
  shows "c = callerCoroutine p \<and> callerCoroutine q = callerCoroutine p \<and> promise_keeps q out"
proof (cases out)
  case (Returned v)
  with assms show ?thesis by (auto simp: finish_returned promise_keeps_def)
next
  case (Threw e)
  with assms show ?thesis
    by (cases "callerCoroutine p")
      (auto simp: finish_threw_awaited finish_threw_detached promise_keeps_def)
qed

lemma co_await_keeps:
  assumes "promise_keeps p out"
  shows "co_await_value p =
    ((case out of Returned v \<Rightarrow> Inr v | Threw e \<Rightarrow> Inl (Throw e)),
     p\<lparr>exceptionPtr := None, checked := True\<rparr>)"
  using assms by (cases out) (simp_all add: promise_keeps_def co_await_finished)

lemma inner_step_ok:
  assumes ok: "wait_ok s" and st: "inner_step s = Some t" and go: "fate t = Going" "fate s = Going"
  shows "wait_ok t"
proof (cases "inner s")
  case IRunning
  with st go obtain c p where c: "finish (innerEnds s) (innerPromise s) = (Inr c, p)"
    "t = s\<lparr>innerPromise := p, inner := ICaptured c\<rparr>"
    by (auto simp: inner_step_def split: prod.splits sum.splits err.splits)
  have "exceptionPtr (innerPromise s) = None" using ok IRunning by (simp cong: pc_congs add: wait_oks)
  with finish_keeps [OF c(1)] c(2) ok IRunning show ?thesis
    by (cases "helper s"; simp cong: pc_congs add: wait_oks)
next
  case (ICaptured c)
  with ok st show ?thesis
    by (cases "helper s"; cases "waiterPc s"; clarsimp cong: pc_congs simp: wait_oks inner_step_def final_await_suspend_def
        split: if_splits)
next
  case IDone
  with st show ?thesis by (simp add: inner_step_def)
qed

lemma take_keeps:
  assumes ok: "wait_ok s" and h: "helper s = HTake"
  shows "inner s = IDone \<and> promise_keeps (innerPromise s) (innerEnds s)"
proof -
  from ok h have "inner s = IDone" by (simp cong: pc_congs add: wait_oks)
  with ok h show ?thesis by (simp add: wait_oks)
qed

lemma helper_step_ok:
  assumes ok: "wait_ok s" and st: "helper_step s = Some t" and go: "fate t = Going" "fate s = Going"
  shows "wait_ok t"
proof (cases "helper s")
  case HReady
  with ok st show ?thesis
    by (cases "inner s"; clarsimp cong: pc_congs simp: wait_oks helper_step_def)
next
  case HRegister
  with ok have "callerCoroutine (innerPromise s) = None" by (simp cong: pc_congs add: wait_oks)
  with HRegister st have "t = ramp_returns (s\<lparr>innerPromise := (innerPromise s)
      \<lparr>callerCoroutine := Some helper_handle\<rparr>, helper := HSuspended\<rparr>)"
    by (simp add: helper_step_def set_caller_coroutine_def act_simps)
  with ok HRegister show ?thesis
    by (cases "inner s"; cases "innerEnds s"; simp cong: pc_congs add: wait_oks ramp_returns_def promise_keeps_def)
next
  case HTake
  note take_keeps [OF ok HTake]
  with ok st HTake show ?thesis
    by (cases "innerEnds s"; clarsimp cong: pc_congs simp: wait_oks helper_step_def co_await_keeps)
next
  case HReturn
  with ok st go show ?thesis
    by (cases "caughtByHelper s"; cases "innerEnds s";
        clarsimp cong: pc_congs simp: wait_oks helper_step_def promise_ops act_simps)
next
  case HNotify
  with ok st show ?thesis
    by (cases "waiterPc s"; cases "innerEnds s"; clarsimp cong: pc_congs simp: wait_oks helper_step_def)
next
  case HFinal
  with st have t: "t = ramp_returns (s\<lparr>helper := HDone\<rparr>)" by (simp add: helper_step_def)
  have "inner_ok t" using ok HFinal
    by (cases "inner s"; simp add: t wait_oks ramp_returns_def)
  moreover have "helper_ok t" using ok HFinal
    by (cases "innerEnds s"; simp add: t wait_oks ramp_returns_def)
  moreover have "waiter_ok t" using ok HFinal
    by (cases "waiterPc s"; simp add: t wait_oks ramp_returns_def)
  ultimately show ?thesis by (simp add: wait_ok_def)
qed (use ok st in \<open>cases "innerEnds s"; clarsimp cong: pc_congs simp: wait_oks helper_step_def\<close>)+

lemma waiter_step_ok:
  assumes ok: "wait_ok s" and st: "waiter_step s = Some t" and go: "fate t = Going" "fate s = Going"
  shows "wait_ok t"
proof (cases "waiterPc s")
  case WTest
  with ok st show ?thesis
    by (cases "helper s"; clarsimp cong: pc_congs simp: wait_oks waiter_step_def)
next
  case WToSleep
  with ok st show ?thesis
    by (cases "helper s"; clarsimp cong: pc_congs simp: wait_oks waiter_step_def)
next
  case WCheck
  with ok st go show ?thesis
    by (cases "helper s"; cases "mayBeChecked (helperPromise s)";
        clarsimp cong: pc_congs simp: wait_oks waiter_step_def promise_ops act_simps andthen_def)
next
  case WDestroy
  with ok st go show ?thesis
    by (cases "helper s"; clarsimp cong: pc_congs simp: wait_oks waiter_step_def split: sum.splits err.splits)
qed (use st in \<open>simp_all add: waiter_step_def\<close>)

lemma spurious_ok:
  assumes "wait_ok s" "waiterPc s = WAsleep"
  shows "wait_ok (s\<lparr>waiterPc := WTest\<rparr>)"
proof -
  have "inner_ok (s\<lparr>waiterPc := WTest\<rparr>) = inner_ok s" "helper_ok (s\<lparr>waiterPc := WTest\<rparr>) = helper_ok s"
    by (simp_all cong: pc_congs add: inner_ok_def helper_ok_def)
  moreover have "waiter_ok (s\<lparr>waiterPc := WTest\<rparr>)"
    using assms by (auto simp: wait_ok_def waiter_ok_def)
  ultimately show ?thesis using assms(1) by (simp add: wait_ok_def)
qed

lemma wait_step_ok: "wait_step s t \<Longrightarrow> wait_ok s \<Longrightarrow> fate t = Going \<Longrightarrow> wait_ok t"
  by (induction rule: wait_step.induct)
    (blast intro: inner_step_ok helper_step_ok waiter_step_ok spurious_ok)+

lemma startable_ok: "startable p pc out \<Longrightarrow> wait_ok (wait_call p pc out)"
  by (auto simp: startable_def wait_call_def wait_oks promise_new_def finish_returned promise_keeps_def)

lemma wait_reach_ok: "wait_reach s \<Longrightarrow> fate s = Going \<Longrightarrow> wait_ok s"
proof (induction rule: wait_reach.induct)
  case (step s t)
  then have "fate s = Going" by (auto elim: wait_step.cases)
  with step wait_step_ok show ?case by blast
qed (rule startable_ok)

subsection \<open>Replaying a schedule\<close>

datatype party = Inner | Helper | Waiter

fun party_step :: "party \<Rightarrow> 'v sync_wait \<Rightarrow> 'v sync_wait option" where
  "party_step Inner s = inner_step s"
| "party_step Helper s = helper_step s"
| "party_step Waiter s = waiter_step s"

fun wait_exec :: "party list \<Rightarrow> 'v sync_wait \<Rightarrow> 'v sync_wait option" where
  "wait_exec [] s = Some s"
| "wait_exec (p # ps) s =
     (if fate s \<noteq> Going then None
      else case party_step p s of None \<Rightarrow> None | Some t \<Rightarrow> wait_exec ps t)"

lemma wait_exec_reach: "wait_exec ps s = Some t \<Longrightarrow> wait_reach s \<Longrightarrow> wait_reach t"
proof (induction ps arbitrary: s)
  case (Cons p ps)
  then obtain u where u: "fate s = Going" "party_step p s = Some u" "wait_exec ps u = Some t"
    by (auto split: if_splits option.splits)
  then have "wait_step s u" by (cases p) (auto intro: wait_step.intros)
  with u Cons.IH Cons.prems(2) show ?case by (blast intro: wait_reach.step)
qed simp

lemmas wait_run = wait_call_def inner_step_def helper_step_def waiter_step_def ramp_returns_def
  finish_def promise_ops act_simps andthen_def promise_new_def final_await_suspend_def

lemma startable_running [simp]: "startable (promise_new v) IRunning out"
  by (auto simp: startable_def)

subsection \<open>When nothing can move\<close>

definition quiet :: "'v sync_wait \<Rightarrow> bool" where
  "quiet s \<longleftrightarrow> inner_step s = None \<and> helper_step s = None \<and> waiter_step s = None"

lemma inner_quiet: "inner_step s = None \<Longrightarrow> inner s = IDone"
  by (auto simp: inner_step_def split: inner_pc.splits prod.splits sum.splits err.splits)

lemma helper_quiet:
  assumes "wait_ok s" "helper_step s = None"
  shows "helper s = HSuspended \<or> helper s = HDone"
proof (cases "helper s")
  case HTake
  note co_await_keeps [OF conjunct2 [OF take_keeps [OF assms(1) HTake]]]
  with assms(2) HTake show ?thesis
    by (simp add: helper_step_def split: outcome.splits)
qed (use assms(2) in \<open>auto simp: helper_step_def split: sum.splits option.splits prod.splits\<close>)

lemma waiter_quiet:
  assumes "wait_ok s" "waiter_step s = None"
  shows "waiterPc s \<in> {WCalling, WAsleep, WReturned}"
proof (cases "waiterPc s")
  case WCheck
  with assms show ?thesis
    by (cases "mayBeChecked (helperPromise s)")
      (simp_all add: waiter_step_def promise_ops act_simps andthen_def split: option.splits)
next
  case WDestroy
  with assms show ?thesis
    by (cases "helper s")
      (auto simp: waiter_step_def destroy_promise_def act_simps andthen_def wait_oks
        split: sum.splits err.splits if_splits)
qed (use assms(2) in \<open>auto simp: waiter_step_def\<close>)

lemma wait_returns_core:
  assumes ok: "wait_ok s" and "waiterPc s = WReturned"
  shows "inner s = IDone \<and> helper s = HDone \<and> (\<exists>v. innerEnds s = Returned v \<and> retValues s = Some v)"
proof -
  from assms have "helper s = HDone" by (simp add: wait_ok_def waiter_ok_def)
  with ok show ?thesis
    by (cases "innerEnds s"; clarsimp cong: pc_congs simp: wait_oks)
qed

text \<open>
  C33: \<open>wait\<close> returns only after the coroutine has ended, and then with the value it returned; if the
  coroutine ends with an exception, \<open>wait\<close> never returns, and the exception never reaches its caller.
\<close>

theorem wait_returns_value:
  assumes "wait_reach s" "waiterPc s = WReturned" "fate s = Going"
  shows "inner s = IDone \<and> helper s = HDone \<and> (\<exists>v. innerEnds s = Returned v \<and> retValues s = Some v)"
  by (rule wait_returns_core [OF wait_reach_ok [OF assms(1,3)] assms(2)])

theorem wait_returns_value_witness:
  "\<exists>s. wait_exec [Helper, Helper, Waiter, Waiter, Inner, Inner, Helper, Helper, Helper, Helper, Helper,
       Waiter, Waiter, Waiter] (wait_call (promise_new 0) IRunning (Returned (7 :: nat))) = Some s \<and>
     waiterPc s = WReturned \<and> retValues s = Some 7"
proof -
  let ?ps = "[Helper, Helper, Waiter, Waiter, Inner, Inner, Helper, Helper, Helper, Helper, Helper,
       Waiter, Waiter, Waiter]"
  let ?s0 = "wait_call (promise_new 0) IRunning (Returned (7 :: nat))"
  obtain s where s: "wait_exec ?ps ?s0 = Some s" "waiterPc s = WReturned" "fate s = Going"
    "innerEnds s = Returned 7"
    by (simp add: wait_run)
  have "wait_reach ?s0" by (rule wait_reach.call) simp
  from wait_returns_value [OF wait_exec_reach [OF s(1) this] s(2,3)] s show ?thesis by auto
qed

text \<open>
  The two ways \<open>wait\<close> can hang.  When no party can move and \<open>wait\<close> has not returned, the thread
  sleeps although the helper has set the flag and notified (the notification came between the test of
  the predicate and the wait, since the helper does not take the mutex), or the helper stays suspended
  although the coroutine has ended (it ended between \<open>await_ready\<close> and the registration of the caller).
\<close>

lemma wait_hangs:
  assumes "wait_reach s" "fate s = Going" "quiet s" "waiterPc s \<noteq> WReturned"
  shows "waiterPc s = WAsleep \<and> inner s = IDone \<and>
    (doneFlag s \<and> helper s = HDone \<or>
     \<not> doneFlag s \<and> helper s = HSuspended \<and> promise_keeps (innerPromise s) (innerEnds s))"
proof -
  from wait_reach_ok [OF assms(1,2)] have ok: "wait_ok s" .
  have i: "inner s = IDone" using assms(3) inner_quiet [of s] by (simp add: quiet_def)
  have h: "helper s = HSuspended \<or> helper s = HDone"
    using assms(3) helper_quiet [OF ok] by (simp add: quiet_def)
  have "waiterPc s \<in> {WCalling, WAsleep, WReturned}"
    using assms(3) waiter_quiet [OF ok] by (simp add: quiet_def)
  then have w: "waiterPc s = WAsleep" using h ok assms(4) by (auto simp: wait_ok_def waiter_ok_def)
  from h show ?thesis
  proof
    assume "helper s = HSuspended"
    with ok i have "\<not> doneFlag s" "promise_keeps (innerPromise s) (innerEnds s)"
      by (simp_all add: wait_oks)
    with i w \<open>helper s = HSuspended\<close> show ?thesis by simp
  next
    assume "helper s = HDone"
    with ok i have "doneFlag s" by (simp add: wait_oks)
    with i w \<open>helper s = HDone\<close> show ?thesis by simp
  qed
qed

lemma wait_hangs_witness:
  "\<exists>s. wait_exec [Helper, Helper, Waiter, Inner, Inner, Helper, Helper, Helper, Helper, Helper, Waiter]
       (wait_call (promise_new 0) IRunning (Returned (7 :: nat))) = Some s \<and>
     waiterPc s = WAsleep \<and> inner s = IDone \<and>
     (doneFlag s \<and> helper s = HDone \<or>
      \<not> doneFlag s \<and> helper s = HSuspended \<and> promise_keeps (innerPromise s) (innerEnds s))"
proof -
  let ?ps = "[Helper, Helper, Waiter, Inner, Inner, Helper, Helper, Helper, Helper, Helper, Waiter]"
  let ?s0 = "wait_call (promise_new 0) IRunning (Returned (7 :: nat))"
  obtain s where s: "wait_exec ?ps ?s0 = Some s" "waiterPc s \<noteq> WReturned" "fate s = Going" "quiet s"
    by (simp add: wait_run quiet_def)
  have "wait_reach ?s0" by (rule wait_reach.call) simp
  from wait_hangs [OF wait_exec_reach [OF s(1) this] s(3,4,2)] s(1) show ?thesis by blast
qed

text \<open>
  Three reachable states in which \<open>wait\<close> fails although the coroutine returns a value: the
  notification is lost and the thread sleeps for ever; the coroutine ends between \<open>await_ready\<close> and
  \<open>setCallerCoroutine\<close> and nobody resumes the helper; the thread checks the promise of the helper
  before the helper has reached its final suspension, and the assertion in \<open>check\<close> aborts.
\<close>

lemma wait_races:
  "(\<exists>s :: nat sync_wait. wait_reach s \<and> fate s = Going \<and> quiet s \<and> waiterPc s = WAsleep \<and> doneFlag s) \<and>
   (\<exists>s :: nat sync_wait. wait_reach s \<and> fate s = Going \<and> quiet s \<and> inner s = IDone \<and>
      helper s = HSuspended) \<and>
   (\<exists>s :: nat sync_wait. wait_reach s \<and> fate s = Aborted ''check coroutine only after it exits'')"
proof -
  let ?s0 = "wait_call (promise_new 0) IRunning (Returned (7 :: nat))"
  have r: "wait_reach ?s0" by (rule wait_reach.call) simp
  have "\<exists>s. wait_exec [Helper, Helper, Waiter, Inner, Inner, Helper, Helper, Helper, Helper, Helper,
      Waiter] ?s0 = Some s \<and> fate s = Going \<and> quiet s \<and> waiterPc s = WAsleep \<and> doneFlag s"
    by (simp add: wait_run quiet_def)
  moreover have "\<exists>s. wait_exec [Helper, Inner, Helper, Inner, Waiter, Waiter] ?s0 = Some s \<and>
      fate s = Going \<and> quiet s \<and> inner s = IDone \<and> helper s = HSuspended"
    by (simp add: wait_run quiet_def)
  moreover have "\<exists>s. wait_exec [Helper, Helper, Inner, Inner, Helper, Helper, Waiter, Waiter] ?s0
      = Some s \<and> fate s = Aborted ''check coroutine only after it exits''"
    by (simp add: wait_run)
  ultimately show ?thesis using wait_exec_reach [OF _ r] by blast
qed

subsection \<open>A coroutine that has already ended\<close>

text \<open>
  When the coroutine is done before the call, the helper runs to its end inside the call and the
  thread then finds the flag set: nothing is shared.
\<close>

definition sequential :: "'v \<Rightarrow> 'v sync_wait \<Rightarrow> bool" where
  "sequential v s \<longleftrightarrow>
     fate s = Going \<and> inner s = IDone \<and> innerEnds s = Returned v \<and>
     (helper s = HReady \<or> helper s = HTake \<or> has_taken (helper s)) \<and>
     (if helper s = HDone then waiterPc s \<in> {WTest, WCheck, WDestroy, WReturned}
      else waiterPc s = WCalling)"

primrec helper_left :: "helper_pc \<Rightarrow> nat" where
  "helper_left HReady = 8" | "helper_left HRegister = 8" | "helper_left HSuspended = 8"
| "helper_left HTake = 7" | "helper_left HFlag = 6" | "helper_left HNotify = 5"
| "helper_left HReturn = 4" | "helper_left HFinal = 3" | "helper_left HDone = 0"

primrec waiter_left :: "waiter_pc \<Rightarrow> nat" where
  "waiter_left WCalling = 3" | "waiter_left WToSleep = 3" | "waiter_left WAsleep = 3"
| "waiter_left WTest = 3" | "waiter_left WCheck = 2" | "waiter_left WDestroy = 1"
| "waiter_left WReturned = 0"

definition wait_rank :: "'v sync_wait \<Rightarrow> nat" where
  "wait_rank s = helper_left (helper s) + waiter_left (waiterPc s)"

lemma sequential_start:
  "startable p IDone out \<Longrightarrow> \<exists>v. out = Returned v \<and> sequential v (wait_call p IDone out)"
  by (auto simp: startable_def sequential_def wait_call_def)

lemma sequential_helper:
  assumes ok: "wait_ok s" and seq: "sequential v s" and h: "helper s \<noteq> HDone"
  shows "\<exists>t. helper_step s = Some t \<and> inner_step s = None \<and> waiter_step s = None \<and>
    sequential v t \<and> wait_rank t < wait_rank s"
proof (cases "helper s")
  case HTake
  note co_await_keeps [OF conjunct2 [OF take_keeps [OF ok HTake]]]
  with seq HTake show ?thesis
    by (simp add: helper_step_def inner_step_def waiter_step_def sequential_def
        has_taken_def wait_rank_def)
next
  case HReturn
  with ok seq have "caughtByHelper s = None" by (simp add: wait_oks sequential_def)
  with seq HReturn show ?thesis
    by (simp add: helper_step_def inner_step_def waiter_step_def final_suspend_def sequential_def
        has_taken_def wait_rank_def)
qed (use seq h in \<open>auto simp: helper_step_def inner_step_def waiter_step_def sequential_def
        has_taken_def wait_rank_def ramp_returns_def\<close>)

lemma sequential_waiter:
  assumes ok: "wait_ok s" and seq: "sequential v s" and h: "helper s = HDone" "waiterPc s \<noteq> WReturned"
  shows "\<exists>t. waiter_step s = Some t \<and> inner_step s = None \<and> helper_step s = None \<and>
    waiterPc s \<noteq> WAsleep \<and> sequential v t \<and> wait_rank t < wait_rank s"
proof (cases "waiterPc s")
  case WDestroy
  with ok seq h show ?thesis
    by (simp add: waiter_step_def inner_step_def helper_step_def destroy_promise_def act_simps
        sequential_def has_taken_def wait_rank_def wait_oks)
qed (use ok seq h in \<open>simp_all add: waiter_step_def inner_step_def helper_step_def promise_ops act_simps
        sequential_def has_taken_def wait_rank_def wait_oks\<close>)

lemma sequential_step:
  assumes ok: "wait_ok s" and seq: "sequential v s" and st: "wait_step s t"
  shows "sequential v t \<and> wait_rank t < wait_rank s"
proof (cases "helper s = HDone")
  case False
  from sequential_helper [OF ok seq False] seq False st show ?thesis
    by (auto elim!: wait_stepE simp: sequential_def)
next
  case True
  show ?thesis
  proof (cases "waiterPc s = WReturned")
    case False
    from sequential_waiter [OF ok seq True False] st show ?thesis by (auto elim!: wait_stepE)
  next
    case ret: True
    with True seq st show ?thesis
      by (auto elim!: wait_stepE simp: sequential_def inner_step_def helper_step_def waiter_step_def)
  qed
qed

text \<open>
  If the coroutine has ended with a value before \<open>wait\<close> is called, every execution of \<open>wait\<close>
  returns that value: no step fails, some step is possible until it has returned, and each step
  decreases a rank.
\<close>

lemma wait_done_returns:
  assumes "startable p IDone out" "wait_step\<^sup>*\<^sup>* (wait_call p IDone out) s"
  shows "fate s = Going \<and>
    (waiterPc s = WReturned \<and> (\<exists>v. out = Returned v \<and> retValues s = Some v) \<or>
     (\<exists>t. wait_step s t) \<and> (\<forall>t. wait_step s t \<longrightarrow> wait_rank t < wait_rank s))"
proof -
  from sequential_start [OF assms(1)] obtain v where
    v: "out = Returned v" "sequential v (wait_call p IDone out)" by blast
  from assms(2) have s: "wait_reach s \<and> sequential v s"
  proof (induction rule: rtranclp_induct)
    case base
    with v(2) assms(1) show ?case by (blast intro: wait_reach.call)
  next
    case (step t u)
    then have "wait_ok t" using wait_reach_ok [of t] by (simp add: sequential_def)
    with step sequential_step [of t v u] wait_reach.step [of t u] show ?case by simp
  qed
  then have ok: "wait_ok s" using wait_reach_ok [of s] by (simp add: sequential_def)
  have go: "fate s = Going" using s by (simp add: sequential_def)
  show ?thesis
  proof (cases "waiterPc s = WReturned")
    case True
    with wait_returns_core [OF ok] s v(1) go show ?thesis by (auto simp: sequential_def)
  next
    case False
    have "\<exists>t. wait_step s t"
    proof (cases "helper s = HDone")
      case True
      with sequential_waiter [OF ok _ True False] s go show ?thesis by (blast intro: wait_step.waiter)
    next
      case False
      with sequential_helper [OF ok _ False] s go show ?thesis by (blast intro: wait_step.helper)
    qed
    with go sequential_step [OF ok] s show ?thesis by blast
  qed
qed

lemma wait_done_returns_witness:
  "let s = wait_call (snd (finish (Returned (7 :: nat)) (promise_new 0))) IDone (Returned 7) in
   fate s = Going \<and> (\<exists>t. wait_step s t) \<and> (\<forall>t. wait_step s t \<longrightarrow> wait_rank t < wait_rank s)"
proof -
  let ?p = "snd (finish (Returned (7 :: nat)) (promise_new 0))"
  have "startable ?p IDone (Returned 7)" by (auto simp: startable_def)
  from wait_done_returns [OF this rtranclp.rtrancl_refl] show ?thesis
    by (simp add: wait_call_def)
qed

end
