(* ===== verification/Void_Waiters.thy ===== *)
theory Void_Waiters
  imports Waiters Awaiting
begin

section \<open>Waiting for a coroutine without a value\<close>

text \<open>
  The specialisation of \<open>SyncCoroutineWaiter\<close> for \<open>Coroutine<>\<close> (\<open>async/SyncCoroutineWaiter.h\<close>), the one
  \<open>main.cpp\<close> uses: its helper discards the result with \<open>~co_await\<close>, and \<open>wait\<close> has no result.  The
  coroutine waited for and the conditions of the waiting thread are those of \<open>Waiters\<close>; what differs
  is the step in which the helper takes the result.
\<close>

text \<open>\<open>~co_await std::move(coroutine)\<close> on a coroutine that has ended.\<close>

definition co_await_void :: "(unit promise, unit) act" where
  "co_await_void =
     andthen await_resume_void (\<lambda>r p.
       case discard_result r of
         (Inl e, _) \<Rightarrow> (Inl e, p)
       | (Inr _, r') \<Rightarrow>
           (case fst (destroy_await_result r') of Inl e \<Rightarrow> (Inl e, p) | Inr _ \<Rightarrow> (Inr (), p)))"

definition void_helper_step :: "unit sync_wait \<Rightarrow> unit sync_wait option" where
  "void_helper_step s =
     (case helper s of
        HTake \<Rightarrow>
          (case co_await_void (innerPromise s) of
             (Inr _, p) \<Rightarrow> Some (s\<lparr>innerPromise := p, helper := HFlag\<rparr>)
           | (Inl (Throw e), p) \<Rightarrow>
               Some (s\<lparr>innerPromise := p, caughtByHelper := Some e, helper := HFlag\<rparr>)
           | (Inl (AssertFailed m), p) \<Rightarrow> Some (s\<lparr>fate := Aborted m\<rparr>)
           | (Inl _, p) \<Rightarrow> None)
      | _ \<Rightarrow> helper_step s)"

inductive void_wait_step :: "unit sync_wait \<Rightarrow> unit sync_wait \<Rightarrow> bool" where
  inner: "fate s = Going \<Longrightarrow> inner_step s = Some t \<Longrightarrow> void_wait_step s t"
| helper: "fate s = Going \<Longrightarrow> void_helper_step s = Some t \<Longrightarrow> void_wait_step s t"
| waiter: "fate s = Going \<Longrightarrow> waiter_step s = Some t \<Longrightarrow> void_wait_step s t"
| spurious: "fate s = Going \<Longrightarrow> waiterPc s = WAsleep \<Longrightarrow> void_wait_step s (s\<lparr>waiterPc := WTest\<rparr>)"

inductive void_wait_reach :: "unit sync_wait \<Rightarrow> bool" where
  call: "startable p pc out \<Longrightarrow> void_wait_reach (wait_call p pc out)"
| step: "void_wait_reach s \<Longrightarrow> void_wait_step s t \<Longrightarrow> void_wait_reach t"

subsection \<open>The general waiter without its result\<close>

definition forget :: "unit sync_wait \<Rightarrow> unit sync_wait" where
  "forget s = s\<lparr>retValues := None\<rparr>"

lemma forget_simps [simp]:
  "inner (forget s) = inner s" "innerPromise (forget s) = innerPromise s"
  "innerEnds (forget s) = innerEnds s" "helper (forget s) = helper s"
  "helperPromise (forget s) = helperPromise s" "caughtByHelper (forget s) = caughtByHelper s"
  "doneFlag (forget s) = doneFlag s" "waiterPc (forget s) = waiterPc s" "fate (forget s) = fate s"
  "forget (wait_call p pc out) = wait_call p pc out"
  by (simp_all add: forget_def wait_call_def)

lemma co_await_void_value: "co_await_void = co_await_value"
proof
  fix p :: "unit promise"
  show "co_await_void p = co_await_value p"
    by (cases "mayBeChecked p"; cases "exceptionPtr p")
      (simp_all add: co_await_void_def await_resume_void_def await_result_void_def discard_result_def
        promise_ops act_simps andthen_def)
qed

lemma inner_step_forget: "inner_step (forget s) = map_option forget (inner_step s)"
  by (cases "inner s")
    (simp_all add: inner_step_def split: prod.split sum.split err.split, simp_all add: forget_def)

lemma waiter_step_forget: "waiter_step (forget s) = map_option forget (waiter_step s)"
  by (cases "waiterPc s")
    (simp_all add: waiter_step_def split: prod.split sum.split err.split, simp_all add: forget_def)

lemma helper_step_forget: "void_helper_step (forget s) = map_option forget (helper_step s)"
  by (cases "helper s")
    (simp_all add: helper_step_def void_helper_step_def co_await_void_value ramp_returns_def
      split: prod.split sum.split err.split option.split, simp_all add: forget_def)

lemma forget_step: "wait_step s t \<Longrightarrow> void_wait_step (forget s) (forget t)"
proof (erule wait_stepE)
  assume "fate s = Going" "waiterPc s = WAsleep" "t = s\<lparr>waiterPc := WTest\<rparr>"
  with void_wait_step.spurious [of "forget s"] show "void_wait_step (forget s) (forget t)"
    by (cases s) (simp add: forget_def)
qed (auto intro: void_wait_step.intros simp: inner_step_forget helper_step_forget waiter_step_forget)

lemma forget_step_back:
  assumes "void_wait_step (forget s) u"
  shows "\<exists>t. wait_step s t \<and> u = forget t"
  using assms
proof cases
  case spurious
  then show ?thesis
    by (cases s) (auto simp: forget_def intro!: exI [of _ "s\<lparr>waiterPc := WTest\<rparr>"] intro: wait_step.intros)
qed (auto simp: inner_step_forget helper_step_forget waiter_step_forget intro: wait_step.intros)

lemma void_wait_reach_forget: "void_wait_reach u \<longleftrightarrow> (\<exists>s. wait_reach s \<and> u = forget s)"
proof
  show "\<exists>s. wait_reach s \<and> u = forget s" if "void_wait_reach u"
    using that
  proof induction
    case (call p pc out)
    then show ?case using wait_reach.call forget_simps(10) by metis
  next
    case (step s t)
    then show ?case using forget_step_back wait_reach.step by metis
  qed
  have "void_wait_reach (forget s)" if "wait_reach s" for s
    using that
  proof induction
    case (call p pc out)
    then show ?case by (simp add: void_wait_reach.call)
  next
    case (step s t)
    then show ?case using forget_step void_wait_reach.step by blast
  qed
  then show "\<exists>s. wait_reach s \<and> u = forget s \<Longrightarrow> void_wait_reach u" by blast
qed

lemma void_wait_returns:
  assumes "void_wait_reach u" "fate u = Going" "waiterPc u = WReturned"
  shows "inner u = IDone \<and> helper u = HDone \<and> innerEnds u = Returned ()"
proof -
  from assms(1) obtain s where s: "wait_reach s" "u = forget s" using void_wait_reach_forget by blast
  with assms(2,3) wait_returns_core [OF wait_reach_ok [OF s(1)]] show ?thesis by auto
qed

text \<open>
  C38: the specialisation for coroutines without a value is the general \<open>wait\<close> for a value that
  carries no information.  The states it can reach are exactly those of the general one, without the
  result: so it returns only when the coroutine has ended, and without an exception, and it has the
  same two ways to hang and the same race on the final suspension of the helper.
\<close>

theorem void_wait_is_wait:
  "(void_wait_reach u \<longleftrightarrow> (\<exists>s. wait_reach s \<and> u = forget s)) \<and>
   (void_wait_reach u \<and> fate u = Going \<and> waiterPc u = WReturned \<longrightarrow>
      inner u = IDone \<and> helper u = HDone \<and> innerEnds u = Returned ()) \<and>
   (\<exists>u. void_wait_reach u \<and> fate u = Aborted ''check coroutine only after it exits'')"
proof (intro conjI impI)
  show "void_wait_reach u \<longleftrightarrow> (\<exists>s. wait_reach s \<and> u = forget s)" by (rule void_wait_reach_forget)
  let ?s0 = "wait_call (promise_new ()) IRunning (Returned ())"
  have r: "wait_reach ?s0" by (rule wait_reach.call) simp
  obtain s where s: "wait_exec [Helper, Helper, Inner, Inner, Helper, Helper, Waiter, Waiter] ?s0 = Some s"
    "fate s = Aborted ''check coroutine only after it exits''"
    by (simp add: wait_run)
  have "void_wait_reach (forget s)"
    using wait_exec_reach [OF s(1) r] void_wait_reach_forget by blast
  with s(2) show "\<exists>u. void_wait_reach u \<and> fate u = Aborted ''check coroutine only after it exits''"
    by (intro exI [of _ "forget s"]) simp
next
  assume "void_wait_reach u \<and> fate u = Going \<and> waiterPc u = WReturned"
  then show "inner u = IDone" "helper u = HDone" "innerEnds u = Returned ()"
    using void_wait_returns [of u] by blast+
qed

theorem void_wait_is_wait_witness:
  "\<exists>u. void_wait_reach u \<and> waiterPc u = WReturned \<and> innerEnds u = Returned ()"
proof -
  let ?s0 = "wait_call (promise_new ()) IRunning (Returned ())"
  let ?ps = "[Helper, Helper, Waiter, Waiter, Inner, Inner, Helper, Helper, Helper, Helper, Helper,
       Waiter, Waiter, Waiter]"
  have r: "wait_reach ?s0" by (rule wait_reach.call) simp
  obtain s where s: "wait_exec ?ps ?s0 = Some s" "waiterPc s = WReturned" "fate s = Going"
    by (simp add: wait_run)
  from wait_exec_reach [OF s(1) r] void_wait_is_wait [of "forget s", THEN conjunct1]
  have v: "void_wait_reach (forget s)" by blast
  with void_wait_is_wait [of "forget s", THEN conjunct2, THEN conjunct1] s
  show ?thesis by (intro exI [of _ "forget s"]) simp
qed

end
