(* ===== verification/Thread_Pool.thy ===== *)
theory Thread_Pool
  imports Promises "HOL-Library.Multiset"
begin

section \<open>The thread pool\<close>

text \<open>
  \<open>async/ThreadPool.h\<close> and \<open>ThreadPool.cpp\<close>.  Workers take tasks (frame addresses, \<open>None\<close>
  for the null pointer that wakes a worker at shutdown) from the back of a vector.  One step of the
  model is one critical section, one evaluation of a flag, one blocking or one notification; a
  condition variable wakes only threads blocked on it at the time, which is where wake-ups get lost.
  Which frames are at their final suspension (\<open>done()\<close>) is decided outside the pool: \<open>doneFrames\<close>
  changes in any way at any time.  A worker that pops one of them fails an assertion, which ends the
  process (\<open>aborted\<close>): no thread takes another step.
\<close>

type_synonym task = "handle option"

datatype worker =
    AtTop              \<comment> \<open>about to evaluate \<open>while (!stopFlag)\<close>\<close>
  | Ready              \<comment> \<open>about to evaluate the predicate of \<open>popCondition.wait\<close>\<close>
  | Blocked            \<comment> \<open>asleep on \<open>popCondition\<close>\<close>
  | Running task       \<comment> \<open>has popped the task\<close>
  | Exited

datatype stopper = NotStopping | Pushing nat | Joining

datatype empty_waiter = NotWaiting | Evaluating | FoundTasks | Asleep | Returned

record tpool =
  tasks :: "task list"
  stopFlag :: bool
  workers :: "worker list"
  notifies :: nat            \<comment> \<open>calls of \<open>popCondition.notify_one()\<close> under way\<close>
  stopper :: stopper         \<comment> \<open>the thread in \<open>blockingStop\<close>\<close>
  waiter :: empty_waiter     \<comment> \<open>the thread in \<open>waitEmpty\<close>\<close>
  scheduled :: "handle list" \<comment> \<open>every handle given to \<open>resumeCoroutine\<close>\<close>
  resumed :: "handle list"   \<comment> \<open>every handle a worker resumed\<close>
  doneFrames :: "handle list" \<comment> \<open>the frames whose \<open>done()\<close> is true at present\<close>
  aborted :: bool            \<comment> \<open>an assertion failed and ended the process\<close>

definition pool_init :: "nat \<Rightarrow> tpool" where
  "pool_init threadNum =
     \<lparr>tasks = [], stopFlag = False, workers = replicate threadNum AtTop, notifies = 0,
      stopper = NotStopping, waiter = NotWaiting, scheduled = [], resumed = [], doneFrames = [], aborted = False\<rparr>"

subsection \<open>Operations\<close>

definition set_worker :: "nat \<Rightarrow> worker \<Rightarrow> tpool \<Rightarrow> tpool" where
  "set_worker i w s = s\<lparr>workers := (workers s)[i := w]\<rparr>"

text \<open>\<open>noTasksCondition.notify_all()\<close>\<close>

definition notify_empty :: "tpool \<Rightarrow> tpool" where
  "notify_empty s = (if waiter s = Asleep then s\<lparr>waiter := Evaluating\<rparr> else s)"

text \<open>The critical section of the worker loop when there is a task.\<close>

definition pop_task :: "nat \<Rightarrow> tpool \<Rightarrow> tpool" where
  "pop_task i s =
     (let s' = set_worker i (Running (last (tasks s))) s\<lparr>tasks := butlast (tasks s)\<rparr> in
      if tasks s' = [] then notify_empty s' else s')"

text \<open>\<open>assert(!done())\<close> and the resumption; a null task is passed over.\<close>

definition run_task :: "nat \<Rightarrow> task \<Rightarrow> tpool \<Rightarrow> tpool" where
  "run_task i t s =
     (case t of
        None \<Rightarrow> set_worker i AtTop s
      | Some h \<Rightarrow>
          if h \<in> set (doneFrames s) then s\<lparr>aborted := True\<rparr>
          else set_worker i AtTop s\<lparr>resumed := resumed s @ [h]\<rparr>)"

definition worker_step :: "nat \<Rightarrow> tpool \<Rightarrow> tpool option" where
  "worker_step i s =
     (case workers s ! i of
        AtTop \<Rightarrow> Some (set_worker i (if \<not> stopFlag s then Ready else Exited) s)
      | Ready \<Rightarrow> Some (if tasks s = [] then set_worker i Blocked s else pop_task i s)
      | Running t \<Rightarrow> Some (run_task i t s)
      | Blocked \<Rightarrow> None
      | Exited \<Rightarrow> None)"

definition push_task :: "task \<Rightarrow> tpool \<Rightarrow> tpool" where
  "push_task t s =
     s\<lparr>tasks := tasks s @ [t], notifies := Suc (notifies s),
       scheduled := scheduled s @ (case t of None \<Rightarrow> [] | Some h \<Rightarrow> [h])\<rparr>"

definition resume_coroutine :: "handle \<Rightarrow> tpool \<Rightarrow> tpool" where
  "resume_coroutine h = push_task (Some h)"

definition wait_empty_step :: "tpool \<Rightarrow> tpool" where
  "wait_empty_step s =
     (case waiter s of
        Evaluating \<Rightarrow> s\<lparr>waiter := (if tasks s = [] then Returned else FoundTasks)\<rparr>
      | FoundTasks \<Rightarrow> s\<lparr>waiter := Asleep\<rparr>
      | _ \<Rightarrow> s)"

definition blocking_stop_step :: "tpool \<Rightarrow> tpool" where
  "blocking_stop_step s =
     (case stopper s of
        NotStopping \<Rightarrow> s\<lparr>stopFlag := True, stopper := Pushing (length (workers s))\<rparr>
      | Pushing (Suc n) \<Rightarrow> push_task None s\<lparr>stopper := Pushing n\<rparr>
      | Pushing 0 \<Rightarrow> s\<lparr>stopper := Joining\<rparr>
      | Joining \<Rightarrow> s)"

fun is_scheduled_loop :: "handle \<Rightarrow> task list \<Rightarrow> bool" where
  "is_scheduled_loop a [] = False"
| "is_scheduled_loop a (t # ts) = (if Some a = t then True else is_scheduled_loop a ts)"

definition is_scheduled :: "handle \<Rightarrow> tpool \<Rightarrow> bool" where
  "is_scheduled a s = is_scheduled_loop a (tasks s)"

lemma is_scheduled_iff: "is_scheduled a s \<longleftrightarrow> Some a \<in> set (tasks s)"
proof -
  have "is_scheduled_loop a ts \<longleftrightarrow> Some a \<in> set ts" for ts by (induction ts) auto
  then show ?thesis by (simp add: is_scheduled_def)
qed

subsection \<open>Interleavings\<close>

inductive pool_step :: "tpool \<Rightarrow> tpool \<Rightarrow> bool" where
  work: "i < length (workers s) \<Longrightarrow> worker_step i s = Some t \<Longrightarrow> pool_step s t"
| schedule: "pool_step s (resume_coroutine h s)"
| notify_hit: "notifies s = Suc n \<Longrightarrow> i < length (workers s) \<Longrightarrow> workers s ! i = Blocked \<Longrightarrow>
    pool_step s (set_worker i Ready s\<lparr>notifies := n\<rparr>)"
| notify_miss: "notifies s = Suc n \<Longrightarrow> num (\<lambda>w. w = Blocked) (workers s) = 0 \<Longrightarrow>
    pool_step s (s\<lparr>notifies := n\<rparr>)"
| spurious: "i < length (workers s) \<Longrightarrow> workers s ! i = Blocked \<Longrightarrow>
    pool_step s (set_worker i Ready s)"
| call_wait_empty: "waiter s = NotWaiting \<Longrightarrow> pool_step s (s\<lparr>waiter := Evaluating\<rparr>)"
| wait_empty: "waiter s \<in> {Evaluating, FoundTasks} \<Longrightarrow> pool_step s (wait_empty_step s)"
| stop: "stopper s \<noteq> Joining \<Longrightarrow> pool_step s (blocking_stop_step s)"
| frames: "pool_step s (s\<lparr>doneFrames := hs\<rparr>)"

inductive pool_reach :: "nat \<Rightarrow> tpool \<Rightarrow> bool" for n where
  init: "pool_reach n (pool_init n)"
| step: "pool_reach n s \<Longrightarrow> \<not> aborted s \<Longrightarrow> pool_step s t \<Longrightarrow> pool_reach n t"

lemmas pool_defs = set_worker_def notify_empty_def pop_task_def run_task_def push_task_def
  resume_coroutine_def wait_empty_step_def blocking_stop_step_def

text \<open>An invariant of the pool: it holds at the start and every kind of step keeps it.\<close>

lemma pool_invariant:
  assumes "pool_reach n s" "P (pool_init n)" "\<And>s t. P s \<Longrightarrow> pool_step s t \<Longrightarrow> P t"
  shows "P s"
  using assms(1) by (induction rule: pool_reach.induct) (use assms(2,3) in blast)+

subsection \<open>Every scheduled coroutine is resumed once\<close>

definition task_handles :: "task \<Rightarrow> handle multiset" where
  "task_handles t = (case t of None \<Rightarrow> {#} | Some h \<Rightarrow> {#h#})"

definition running_handles :: "worker \<Rightarrow> handle multiset" where
  "running_handles w = (case w of Running t \<Rightarrow> task_handles t | _ \<Rightarrow> {#})"

definition total :: "('b \<Rightarrow> handle multiset) \<Rightarrow> 'b list \<Rightarrow> handle multiset" where
  "total f xs = sum_list (map f xs)"

lemma total_simps [simp]:
  "total f [] = {#}" "total f (x # xs) = f x + total f xs" "total f (xs @ ys) = total f xs + total f ys"
  by (simp_all add: total_def)

lemma total_update:
  "i < length xs \<Longrightarrow> total f (xs[i := x]) + f (xs ! i) = total f xs + f x"
proof (induction xs arbitrary: i)
  case (Cons y xs)
  then show ?case by (cases i) (auto simp: ac_simps)
qed simp

lemma total_set_worker:
  assumes "i < length (workers s)"
  shows "total f (workers (set_worker i w s)) + f (workers s ! i) = total f (workers s) + f w"
  using total_update [OF assms] by (simp add: set_worker_def)

lemma total_replicate [simp]: "f x = {#} \<Longrightarrow> total f (replicate n x) = {#}"
  by (induction n) simp_all

definition conserved :: "tpool \<Rightarrow> bool" where
  "conserved s \<longleftrightarrow>
     mset (scheduled s) =
       total task_handles (tasks s) + total running_handles (workers s) + mset (resumed s)"

lemma total_last: "xs \<noteq> [] \<Longrightarrow> total f xs = total f (butlast xs) + f (last xs)"
  by (metis append_butlast_last_id total_simps(1,2,3) add.right_neutral)

lemma conserved_worker:
  assumes "conserved s" "i < length (workers s)" "worker_step i s = Some t"
  shows "conserved t"
proof -
  note u = total_update [OF assms(2), of running_handles]
  show ?thesis
  proof (cases "workers s ! i")
    case AtTop
    with assms u show ?thesis
      by (auto simp: worker_step_def conserved_def set_worker_def running_handles_def)
  next
    case Ready
    with assms u [of "Running (last (tasks s))"] u [of Blocked] total_last [of "tasks s" task_handles]
    show ?thesis
      by (auto simp: worker_step_def conserved_def pool_defs running_handles_def Let_def
          ac_simps split: if_splits)
  next
    case (Running k)
    with assms u [of AtTop] show ?thesis
      by (auto simp: worker_step_def conserved_def pool_defs running_handles_def task_handles_def
          ac_simps split: option.splits if_splits)
  qed (use assms in \<open>simp_all add: worker_step_def\<close>)
qed

lemma conserved_step:
  assumes "conserved s" "pool_step s t"
  shows "conserved t"
  using assms(2)
proof cases
  case (work i)
  with assms(1) show ?thesis by (blast intro: conserved_worker)
next
  case (notify_hit n i)
  with assms(1) total_update [of i "workers s" running_handles Ready] show ?thesis
    by (simp add: conserved_def set_worker_def running_handles_def)
next
  case (spurious i)
  with assms(1) total_update [of i "workers s" running_handles Ready] show ?thesis
    by (simp add: conserved_def set_worker_def running_handles_def)
qed (use assms(1) in \<open>auto simp: conserved_def pool_defs task_handles_def ac_simps
    split: empty_waiter.splits stopper.splits nat.splits\<close>)

lemma conserved_init: "conserved (pool_init n)"
  by (simp add: conserved_def pool_init_def running_handles_def)

lemma conserved_reach: "pool_reach n s \<Longrightarrow> conserved s"
  by (rule pool_invariant) (blast intro: conserved_init conserved_step)+

subsection \<open>No wake-up of a worker is lost\<close>

text \<open>
  While some worker is asleep, every task has a worker that is awake and looking for one, or a
  notification on its way.
\<close>

definition wakeful :: "tpool \<Rightarrow> bool" where
  "wakeful s \<longleftrightarrow>
     (0 < num (\<lambda>w. w = Blocked) (workers s) \<longrightarrow>
      length (tasks s) \<le> num (\<lambda>w. w = Ready) (workers s) + notifies s)"

lemma wakeful_worker:
  assumes "wakeful s" "i < length (workers s)" "worker_step i s = Some t"
  shows "wakeful t"
  using assms num_pos [OF assms(2), of "\<lambda>w. w = Ready"]
  by (cases "workers s ! i")
    (auto simp: worker_step_def wakeful_def pool_defs Let_def num_update_out num_update_in
      split: if_splits option.splits)

lemma wakeful_step:
  assumes "wakeful s" "pool_step s t"
  shows "wakeful t"
  using assms(2)
proof cases
  case (work i)
  with assms(1) show ?thesis by (blast intro: wakeful_worker)
next
  case (notify_hit n i)
  with assms(1) num_pos [of i "workers s" "\<lambda>w. w = Blocked"] show ?thesis
    by (auto simp: wakeful_def set_worker_def num_update_out num_update_in)
next
  case (spurious i)
  with assms(1) num_pos [of i "workers s" "\<lambda>w. w = Blocked"] show ?thesis
    by (auto simp: wakeful_def set_worker_def num_update_out num_update_in)
qed (use assms(1) in \<open>auto simp: wakeful_def pool_defs
    split: empty_waiter.splits stopper.splits nat.splits\<close>)

lemma wakeful_init: "wakeful (pool_init n)"
  by (simp add: wakeful_def pool_init_def num_def)

lemma wakeful_reach: "pool_reach n s \<Longrightarrow> wakeful s"
  by (rule pool_invariant) (blast intro: wakeful_init wakeful_step)+

subsection \<open>Shutdown\<close>

text \<open>
  Once \<open>stopFlag\<close> is up no worker goes to sleep for good: the tasks still queued and the null
  tasks still to be pushed are at least as many as the workers that may ask for one.
\<close>

definition asking :: "worker \<Rightarrow> bool" where
  "asking w \<longleftrightarrow> w = Ready \<or> w = Blocked"

definition pushes_left :: "stopper \<Rightarrow> nat" where
  "pushes_left st = (case st of Pushing n \<Rightarrow> n | _ \<Rightarrow> 0)"

definition stop_supply :: "tpool \<Rightarrow> bool" where
  "stop_supply s \<longleftrightarrow>
     (stopFlag s \<longleftrightarrow> stopper s \<noteq> NotStopping) \<and>
     (stopFlag s \<longrightarrow> num asking (workers s) \<le> length (tasks s) + pushes_left (stopper s))"

lemma butlast_Nil_length: "butlast xs = [] \<Longrightarrow> length xs \<le> 1"
  by (cases xs rule: rev_cases) auto

lemma num_le_length: "num P xs \<le> length xs"
  by (simp add: num_def)

lemma stop_supply_worker:
  assumes "stop_supply s" "i < length (workers s)" "worker_step i s = Some t"
  shows "stop_supply t"
  using assms num_pos [OF assms(2), of asking] butlast_Nil_length [of "tasks s"]
  by (cases "workers s ! i")
    (auto simp: worker_step_def stop_supply_def pool_defs Let_def asking_def num_update_out
      num_update_in split: if_splits option.splits)

lemma stop_supply_step:
  assumes "stop_supply s" "pool_step s t"
  shows "stop_supply t"
  using assms(2)
proof cases
  case (work i)
  with assms(1) show ?thesis by (blast intro: stop_supply_worker)
next
  case (notify_hit n i)
  with assms(1) show ?thesis
    by (auto simp: stop_supply_def set_worker_def num_update_in asking_def)
next
  case (spurious i)
  with assms(1) show ?thesis
    by (auto simp: stop_supply_def set_worker_def num_update_in asking_def)
qed (use assms(1) num_le_length [of asking "workers s"] in
    \<open>auto simp: stop_supply_def pool_defs pushes_left_def
      split: empty_waiter.splits stopper.splits nat.splits\<close>)

lemma stop_supply_init: "stop_supply (pool_init n)"
  by (simp add: stop_supply_def pool_init_def)

lemma stop_supply_reach: "pool_reach n s \<Longrightarrow> stop_supply s"
  by (rule pool_invariant) (blast intro: stop_supply_init stop_supply_step)+

text \<open>What is left for each worker to do once the flag is up.\<close>

definition worker_rank :: "worker \<Rightarrow> nat" where
  "worker_rank w = (case w of Exited \<Rightarrow> 0 | AtTop \<Rightarrow> 1 | Running _ \<Rightarrow> 2 | Ready \<Rightarrow> 3 | Blocked \<Rightarrow> 4)"

definition pool_rank :: "tpool \<Rightarrow> nat" where
  "pool_rank s = (if aborted s then 0 else sum_list (map worker_rank (workers s)))"

lemma sum_list_update_nat:
  "i < length xs \<Longrightarrow>
     sum_list (map f (xs[i := x])) + f (xs ! i) = sum_list (map f xs) + (f x :: nat)"
proof (induction xs arbitrary: i)
  case (Cons y xs)
  then show ?case by (cases i) auto
qed simp

lemma worker_rank_pos:
  "i < length (workers s) \<Longrightarrow> workers s ! i \<noteq> Exited \<Longrightarrow> 0 < sum_list (map worker_rank (workers s))"
  using sum_list_update_nat [of i "workers s" worker_rank Exited]
  by (cases "workers s ! i") (simp_all add: worker_rank_def)

lemma worker_step_rank:
  assumes "stopFlag s" "\<not> aborted s" "i < length (workers s)" "worker_step i s = Some t"
    and "workers s ! i = Ready \<Longrightarrow> tasks s \<noteq> []"
  shows "pool_rank t < pool_rank s"
  using assms worker_rank_pos [OF assms(3)] sum_list_update_nat [OF assms(3), of worker_rank "workers t ! i"]
  by (cases "workers s ! i")
    (auto simp: worker_step_def pool_rank_def pool_defs Let_def worker_rank_def
      split: if_splits option.splits)

lemma joining_supplied:
  assumes "pool_reach n s" "stopper s = Joining" "i < length (workers s)" "workers s ! i = Ready"
  shows "tasks s \<noteq> []"
  using stop_supply_reach [OF assms(1)] assms(2,4) num_pos [OF assms(3), of asking]
  by (auto simp: stop_supply_def pushes_left_def asking_def)

lemma joining_awake:
  assumes "pool_reach n s" "stopper s = Joining" "notifies s = 0"
  shows "num (\<lambda>w. w = Blocked) (workers s) = 0"
proof (rule ccontr)
  assume b: "\<not> ?thesis"
  have "num asking (workers s) =
      num (\<lambda>w. w = Ready) (workers s) + num (\<lambda>w. w = Blocked) (workers s)"
    unfolding asking_def by (rule num_disj) simp
  with b stop_supply_reach [OF assms(1)] wakeful_reach [OF assms(1)] assms(2,3) show False
    by (auto simp: stop_supply_def wakeful_def pushes_left_def)
qed

text \<open>Until somebody stops the pool all its workers are there and none has exited.\<close>

definition staffed :: "nat \<Rightarrow> tpool \<Rightarrow> bool" where
  "staffed n s \<longleftrightarrow>
     length (workers s) = n \<and> (stopFlag s \<longleftrightarrow> stopper s \<noteq> NotStopping) \<and>
     (stopper s = NotStopping \<longrightarrow> Exited \<notin> set (workers s))"

lemma staffed_set_worker: "w \<noteq> Exited \<Longrightarrow> Exited \<notin> set ws \<Longrightarrow> Exited \<notin> set (ws[i := w])"
  using set_update_subset_insert [of ws i w] by blast

lemma staffed_worker:
  assumes "staffed n s" "worker_step i s = Some t"
  shows "staffed n t"
  using assms
  by (cases "workers s ! i")
    (auto simp: worker_step_def staffed_def pool_defs Let_def dest: staffed_set_worker [rotated, of _ _ i]
      split: if_splits option.splits)

lemma staffed_step:
  assumes "staffed n s" "pool_step s t"
  shows "staffed n t"
  using assms(2)
proof cases
  case (work i)
  with assms(1) show ?thesis by (blast intro: staffed_worker)
qed (use assms(1) in \<open>auto simp: staffed_def pool_defs staffed_set_worker
    split: empty_waiter.splits stopper.splits nat.splits\<close>)

lemma staffed_init: "staffed n (pool_init n)"
  by (simp add: staffed_def pool_init_def)

lemma staffed_reach: "pool_reach n s \<Longrightarrow> staffed n s"
  by (rule pool_invariant) (blast intro: staffed_init staffed_step)+

subsection \<open>Running a schedule\<close>

text \<open>The steps by name, so that one interleaving can be replayed.\<close>

datatype pool_event =
    PWork nat | PSchedule handle | PNotify nat | PMiss | PSpurious nat | PCallWait | PWait | PStop
  | PFrames "handle list"

fun pool_enabled :: "pool_event \<Rightarrow> tpool \<Rightarrow> bool" where
  "pool_enabled (PWork i) s = (i < length (workers s) \<and> worker_step i s \<noteq> None)"
| "pool_enabled (PSchedule h) s = True"
| "pool_enabled (PNotify i) s =
     (0 < notifies s \<and> i < length (workers s) \<and> workers s ! i = Blocked)"
| "pool_enabled PMiss s = (0 < notifies s \<and> num (\<lambda>w. w = Blocked) (workers s) = 0)"
| "pool_enabled (PSpurious i) s = (i < length (workers s) \<and> workers s ! i = Blocked)"
| "pool_enabled PCallWait s = (waiter s = NotWaiting)"
| "pool_enabled PWait s = (waiter s \<in> {Evaluating, FoundTasks})"
| "pool_enabled PStop s = (stopper s \<noteq> Joining)"
| "pool_enabled (PFrames hs) s = True"

fun pool_do :: "pool_event \<Rightarrow> tpool \<Rightarrow> tpool" where
  "pool_do (PWork i) s = (case worker_step i s of None \<Rightarrow> s | Some t \<Rightarrow> t)"
| "pool_do (PSchedule h) s = resume_coroutine h s"
| "pool_do (PNotify i) s = set_worker i Ready s\<lparr>notifies := notifies s - 1\<rparr>"
| "pool_do PMiss s = s\<lparr>notifies := notifies s - 1\<rparr>"
| "pool_do (PSpurious i) s = set_worker i Ready s"
| "pool_do PCallWait s = s\<lparr>waiter := Evaluating\<rparr>"
| "pool_do PWait s = wait_empty_step s"
| "pool_do PStop s = blocking_stop_step s"
| "pool_do (PFrames hs) s = s\<lparr>doneFrames := hs\<rparr>"

fun pool_exec :: "pool_event list \<Rightarrow> tpool \<Rightarrow> tpool option" where
  "pool_exec [] s = Some s"
| "pool_exec (e # es) s = (if \<not> aborted s \<and> pool_enabled e s then pool_exec es (pool_do e s) else None)"

lemma pool_enabled_step:
  assumes "pool_enabled e s"
  shows "pool_step s (pool_do e s)"
  using assms
proof (cases e)
  case (PNotify i)
  with assms pool_step.notify_hit [of s "notifies s - 1" i] show ?thesis by simp
next
  case PMiss
  with assms pool_step.notify_miss [of s "notifies s - 1"] show ?thesis by simp
qed (auto intro: pool_step.intros)

lemma pool_exec_reach: "pool_reach n s \<Longrightarrow> pool_exec es s = Some t \<Longrightarrow> pool_reach n t"
  by (induction es arbitrary: s) (auto split: if_splits intro: pool_reach.step pool_enabled_step)

lemma pool_exec_init: "pool_exec es (pool_init n) = Some t \<Longrightarrow> pool_reach n t"
  by (rule pool_exec_reach [OF pool_reach.init])

lemmas pool_run = pool_init_def worker_step_def pool_defs Let_def numeral_2_eq_2

subsection \<open>What the pool guarantees\<close>

text \<open>
  The specification: a bag of coroutines to resume, and the list of those that were resumed; what is
  taken out must be resumable.
\<close>

inductive bag_step ::
    "(handle \<Rightarrow> bool) \<Rightarrow> handle multiset \<times> handle list \<Rightarrow> handle multiset \<times> handle list \<Rightarrow> bool"
  for resumable where
  put: "bag_step resumable (b, l) (add_mset h b, l)"
| take_one: "resumable h \<Longrightarrow> bag_step resumable (add_mset h b, l) (b, l @ [h])"

definition bag_of :: "tpool \<Rightarrow> handle multiset \<times> handle list" where
  "bag_of s = (total task_handles (tasks s) + total running_handles (workers s), resumed s)"

lemma worker_step_logs:
  assumes "worker_step i s = Some t"
  shows "scheduled t = scheduled s \<and> doneFrames t = doneFrames s \<and>
    (resumed t = resumed s \<or>
     (\<exists>h. resumed t = resumed s @ [h] \<and> workers s ! i = Running (Some h) \<and> h \<notin> set (doneFrames s))) \<and>
    (aborted t \<longrightarrow> aborted s \<or> (\<exists>h. workers s ! i = Running (Some h) \<and> h \<in> set (doneFrames s)))"
  using assms
  by (cases "workers s ! i") (auto simp: worker_step_def pool_defs Let_def split: option.splits if_splits)

text \<open>Everything but a worker at work leaves \<open>resumed\<close> alone and goes on.\<close>

lemma pool_step_logs:
  assumes "pool_step s t"
  shows "(\<exists>i<length (workers s). worker_step i s = Some t) \<or>
    resumed t = resumed s \<and> (aborted t \<longleftrightarrow> aborted s) \<and>
    (scheduled t = scheduled s \<or> (\<exists>h. scheduled t = scheduled s @ [h]))"
  using assms
proof cases
  case (work i)
  then show ?thesis by blast
qed (auto simp: pool_defs split: empty_waiter.splits stopper.splits nat.splits)

lemma running_in_bag:
  assumes "i < length (workers s)" "workers s ! i = Running (Some h)"
  shows "h \<in># fst (bag_of s)"
proof -
  from total_update [OF assms(1), of running_handles AtTop] assms(2)
  have "total running_handles (workers s) = add_mset h (total running_handles ((workers s)[i := AtTop]))"
    by (simp add: running_handles_def task_handles_def)
  then show ?thesis by (simp add: bag_of_def)
qed

text \<open>
  C11: the pool is a bag of coroutines.  Every step of callers, workers and notifications puts one
  handle into the bag (\<open>resumeCoroutine\<close>), resumes one of the bag whose coroutine is not done, or
  changes nothing in it, where the bag is what is queued or taken by a worker; and the process is
  aborted only by a worker that took a handle of the bag whose coroutine is done.  So no task is lost
  and none runs twice: each handle was given to \<open>resumeCoroutine\<close> exactly as often as it is in the bag
  or already resumed; and \<open>isScheduled\<close> answers whether the handle is in the queue.
\<close>

theorem pool_refines_bag:
  assumes "pool_reach n s" "\<not> aborted s" "pool_step s t"
  shows "(bag_of t = bag_of s \<or> bag_step (\<lambda>h. h \<notin> set (doneFrames s)) (bag_of s) (bag_of t)) \<and>
    (aborted t \<longrightarrow> bag_of t = bag_of s \<and> (\<exists>h. h \<in># fst (bag_of s) \<and> h \<in> set (doneFrames s))) \<and>
    mset (scheduled t) = fst (bag_of t) + mset (snd (bag_of t)) \<and>
    (is_scheduled h s \<longleftrightarrow> Some h \<in> set (tasks s))"
proof -
  note c = conserved_reach [OF assms(1)]
  have s: "mset (scheduled s) = fst (bag_of s) + mset (resumed s)" using c by (simp add: conserved_def bag_of_def)
  have t: "mset (scheduled t) = fst (bag_of t) + mset (resumed t)"
    using conserved_step [OF c assms(3)] by (simp add: conserved_def bag_of_def)
  have bags: "bag_of s = (fst (bag_of s), resumed s)" "bag_of t = (fst (bag_of t), resumed t)"
    by (simp_all add: bag_of_def)
  have same: "bag_of t = bag_of s" if "scheduled t = scheduled s" "resumed t = resumed s"
    using that s t bags by simp
  from pool_step_logs [OF assms(3)]
  consider (work) i where "i < length (workers s)" "worker_step i s = Some t"
    | (quiet) "scheduled t = scheduled s" "resumed t = resumed s" "\<not> aborted t"
    | (put) h where "scheduled t = scheduled s @ [h]" "resumed t = resumed s" "\<not> aborted t"
    using assms(2) by blast
  then have "(bag_of t = bag_of s \<or> bag_step (\<lambda>h. h \<notin> set (doneFrames s)) (bag_of s) (bag_of t)) \<and>
    (aborted t \<longrightarrow> bag_of t = bag_of s \<and> (\<exists>h. h \<in># fst (bag_of s) \<and> h \<in> set (doneFrames s)))"
  proof cases
    case (work i)
    note w = worker_step_logs [OF work(2)]
    from w consider "resumed t = resumed s"
      | h where "resumed t = resumed s @ [h]" "workers s ! i = Running (Some h)" "h \<notin> set (doneFrames s)"
      by blast
    then show ?thesis
    proof cases
      case 1
      with w same have "bag_of t = bag_of s" by simp
      with w assms(2) running_in_bag [OF work(1)] show ?thesis by blast
    next
      case (2 h)
      with w assms(2) have "\<not> aborted t" by auto
      moreover from 2 s t w have "fst (bag_of s) = add_mset h (fst (bag_of t))" by simp
      ultimately show ?thesis using bags 2 by (metis bag_step.take_one)
    qed
  next
    case quiet
    with same show ?thesis by simp
  next
    case (put h)
    with s t have "fst (bag_of t) = add_mset h (fst (bag_of s))" by simp
    with bags put show ?thesis by (metis bag_step.put)
  qed
  with t show ?thesis by (simp add: is_scheduled_iff) (simp add: bag_of_def)
qed

text \<open>
  At the witness the worker resumes the first coroutine it took; the second one is done by the time
  the worker comes to it, and the process ends.
\<close>

theorem pool_refines_bag_witness:
  "\<exists>s t u. pool_exec [PSchedule 7, PWork 0, PWork 0] (pool_init 1) = Some s \<and>
     worker_step 0 s = Some t \<and> bag_step (\<lambda>h. h \<notin> set (doneFrames s)) (bag_of s) (bag_of t) \<and>
     pool_exec [PSchedule 7, PWork 0, PFrames [7], PWork 0, PWork 0] (pool_init 1) = Some u \<and>
     aborted u \<and> bag_of u = ({#7#}, [])"
proof -
  let ?es = "[PSchedule 7, PWork 0, PWork 0]"
  obtain s where s: "pool_exec ?es (pool_init 1) = Some s" "workers s = [Running (Some 7)]" "resumed s = []"
    "doneFrames s = []" "\<not> aborted s"
    by (simp add: pool_run)
  then obtain t where t: "worker_step 0 s = Some t" "resumed t = [7]"
    by (simp add: worker_step_def pool_defs)
  from t(2) s(3) have "bag_of t \<noteq> bag_of s" by (simp add: bag_of_def)
  with pool_refines_bag [OF pool_exec_init [OF s(1)] s(5) pool_step.work [OF _ t(1)]] s(2)
  have "bag_step (\<lambda>h. h \<notin> set (doneFrames s)) (bag_of s) (bag_of t)" by simp
  moreover obtain u where
    "pool_exec [PSchedule 7, PWork 0, PFrames [7], PWork 0, PWork 0] (pool_init 1) = Some u"
    "aborted u" "bag_of u = ({#7#}, [])"
    by (simp add: pool_run bag_of_def running_handles_def task_handles_def)
  ultimately show ?thesis using s(1) t(1) by blast
qed

text \<open>
  No wake-up of a worker is lost.  If some worker sleeps while the queue is not empty, then a
  worker is awake and about to look at the queue or a notification is still under way.
\<close>

lemma pool_no_lost_wakeup:
  assumes "pool_reach n s" "i < length (workers s)" "workers s ! i = Blocked" "tasks s \<noteq> []"
  shows "(\<exists>j<length (workers s). workers s ! j = Ready) \<or> 0 < notifies s"
proof -
  have "0 < num (\<lambda>w. w = Blocked) (workers s)" using num_pos [OF assms(2)] assms(3) by simp
  with wakeful_reach [OF assms(1)] assms(4)
  have "0 < num (\<lambda>w. w = Ready) (workers s) + notifies s"
    by (cases "tasks s") (auto simp: wakeful_def)
  then show ?thesis using num_0_iff [of "\<lambda>w. w = Ready" "workers s"] by auto
qed

lemma pool_no_lost_wakeup_witness:
  "\<exists>s. pool_reach 1 s \<and> tasks s = [Some 7] \<and> workers s = [Blocked] \<and> 0 < notifies s"
proof -
  let ?es = "[PWork 0, PWork 0, PSchedule 7]"
  let ?t = "the (pool_exec ?es (pool_init 1))"
  have r: "pool_exec ?es (pool_init 1) = Some ?t" "tasks ?t = [Some 7]" "workers ?t = [Blocked]"
    by code_simp+
  then obtain t where t: "pool_exec ?es (pool_init 1) = Some t" "tasks t = [Some 7]" "workers t = [Blocked]"
    by blast
  have "(\<exists>j<length (workers t). workers t ! j = Ready) \<or> 0 < notifies t"
    by (rule pool_no_lost_wakeup [OF pool_exec_init [OF t(1)], of 0]) (simp_all add: t(2,3))
  then show ?thesis using pool_exec_init [OF t(1)] t(2,3) by auto
qed

text \<open>
  C36: \<open>blockingStop\<close> returns.  Once it has pushed its null tasks and is joining, and every
  notification has been delivered, no worker sleeps; every worker that has not exited can take a
  step, and each such step brings the pool closer to the state where all have exited; only a worker
  that took a coroutine that is done ends the process instead.
\<close>

theorem pool_shutdown:
  assumes "pool_reach n s" "\<not> aborted s" "stopper s = Joining" "notifies s = 0" "i < length (workers s)"
  shows "workers s ! i \<noteq> Blocked \<and>
    (workers s ! i \<noteq> Exited \<longrightarrow>
      (\<exists>t. worker_step i s = Some t \<and> pool_rank t < pool_rank s \<and>
        (aborted t \<longrightarrow> (\<exists>h. workers s ! i = Running (Some h) \<and> h \<in> set (doneFrames s)))))"
proof -
  from joining_awake [OF assms(1,3,4)] assms(5) have b: "workers s ! i \<noteq> Blocked"
    by (simp add: num_0_iff)
  have f: "stopFlag s" using stop_supply_reach [OF assms(1)] assms(3) by (simp add: stop_supply_def)
  have "\<exists>t. worker_step i s = Some t" if "workers s ! i \<noteq> Exited"
    using b that by (cases "workers s ! i") (auto simp: worker_step_def)
  with b worker_step_rank [OF f assms(2,5)] joining_supplied [OF assms(1,3,5)] worker_step_logs assms(2)
  show ?thesis by blast
qed

theorem pool_shutdown_witness:
  "\<exists>s. pool_reach 1 s \<and> stopper s = Joining \<and> notifies s = 0 \<and> workers s ! 0 \<noteq> Blocked"
proof -
  let ?es = "[PWork 0, PWork 0, PStop, PStop, PStop, PNotify 0]"
  let ?t = "the (pool_exec ?es (pool_init 1))"
  have r: "pool_exec ?es (pool_init 1) = Some ?t" "stopper ?t = Joining" "notifies ?t = 0"
    "length (workers ?t) = 1" "\<not> aborted ?t"
    by code_simp+
  then obtain t where t: "pool_exec ?es (pool_init 1) = Some t" "stopper t = Joining" "notifies t = 0"
    "length (workers t) = 1" "\<not> aborted t"
    by blast
  have "workers t ! 0 \<noteq> Blocked"
    using pool_shutdown [OF pool_exec_init [OF t(1)] t(5,2,3), of 0] t(4) by simp
  then show ?thesis using pool_exec_init [OF t(1)] t(2,3) by blast
qed

text \<open>
  \<open>waitEmpty\<close> can miss its wake-up.  It waits on \<open>noTasksCondition\<close> under a mutex of its own while
  the workers notify under the mutex of the queue, so a worker can take the last task between the
  evaluation of the predicate and the wait: a state is reached where the queue is empty, every
  worker is asleep, no notification is pending and the caller of \<open>waitEmpty\<close> sleeps.
\<close>

lemma wait_empty_lost_wakeup:
  "\<exists>s. pool_reach 1 s \<and> waiter s = Asleep \<and> tasks s = [] \<and> workers s = [Blocked] \<and>
     notifies s = 0 \<and> mset (resumed s) = mset (scheduled s)"
proof -
  let ?es = "[PWork 0, PSchedule 7, PMiss, PCallWait, PWait, PWork 0, PWait, PWork 0, PWork 0, PWork 0]"
  let ?t = "the (pool_exec ?es (pool_init 1))"
  have r: "pool_exec ?es (pool_init 1) = Some ?t" "waiter ?t = Asleep" "tasks ?t = []"
    "workers ?t = [Blocked]" "notifies ?t = 0" "mset (resumed ?t) = mset (scheduled ?t)"
    by code_simp+
  show ?thesis using pool_exec_init [OF r(1)] r(2-6) by blast
qed

end
