(* ===== verification/Event_Loop.thy ===== *)
theory Event_Loop
  imports Errors
begin

section \<open>The event loop and its lock\<close>

text \<open>
  \<open>async/EventLoop.h\<close>, \<open>EventLoop.cpp\<close>, \<open>EventLoopLock.h\<close> and \<open>EventLoopLock.cpp\<close>: the
  libuv loop runs on a thread of its own; another thread that wants to touch libuv objects calls
  \<open>acquireEventLoopLock\<close>, which takes the mutex \<open>eventLoopExitedLock\<close>, wakes the loop with a byte
  on a pipe and waits for it to leave \<open>run\<close> by taking and releasing \<open>eventLoopEnteredLock\<close>.
  Thread 0 is the loop thread.  A step of the model is one lock, unlock, assignment or library
  call; a thread whose next action is to lock a mutex that is taken has no step.
\<close>

type_synonym thread = nat

definition loop_thread :: thread where "loop_thread = 0"

datatype loop_pc =
    LCheck        \<comment> \<open>\<open>while (!stopping)\<close>\<close>
  | LWantEntered  \<comment> \<open>\<open>eventLoopEnteredLock.lock()\<close>\<close>
  | LRun          \<comment> \<open>\<open>uvwEventLoop->run(ONCE)\<close>\<close>
  | LLeave        \<comment> \<open>\<open>eventLoopEnteredLock.unlock()\<close>\<close>
  | LWantExited   \<comment> \<open>\<open>eventLoopExitedLock.lock()\<close>\<close>
  | LGotExited    \<comment> \<open>\<open>eventLoopExitedLock.unlock()\<close>\<close>
  | LDone

datatype client_pc =
    COut
  | CWantExited   \<comment> \<open>\<open>eventLoopExitedLock.lock()\<close>\<close>
  | CSetOwner     \<comment> \<open>\<open>currentExitedLockOwner = id\<close>\<close>
  | CWrite        \<comment> \<open>\<open>writer->try_write(&c, 1)\<close>\<close>
  | CWantEntered  \<comment> \<open>\<open>eventLoopEnteredLock.lock()\<close>\<close>
  | CGotEntered   \<comment> \<open>\<open>eventLoopEnteredLock.unlock()\<close>\<close>
  | CHolding      \<comment> \<open>the \<open>EventLoopLock\<close> is returned\<close>
  | CUnlock       \<comment> \<open>\<open>eventLoopExitedLock.unlock()\<close>, the owner being cleared\<close>

record eloop =
  stopping :: bool
  loopPc :: loop_pc
  clientPc :: "thread \<Rightarrow> client_pc"
  enteredLock :: "thread option"
  exitedLock :: "thread option"
  lockOwner :: "thread option"   \<comment> \<open>\<open>currentExitedLockOwner\<close>\<close>
  wakeBytes :: nat               \<comment> \<open>bytes in the pipe\<close>
  caught :: bool                 \<comment> \<open>history: the loop was past its entry when the lock was taken\<close>

definition eloop_init :: eloop where
  "eloop_init =
     \<lparr>stopping = False, loopPc = LCheck, clientPc = (\<lambda>_. COut), enteredLock = None,
      exitedLock = None, lockOwner = None, wakeBytes = 0, caught = False\<rparr>"

text \<open>The lock object: \<open>el\<close> is null for a nested acquisition and after a move.\<close>

record event_loop_lock =
  el :: bool

definition eloop_lock_move :: "event_loop_lock \<Rightarrow> event_loop_lock \<times> event_loop_lock" where
  "eloop_lock_move l = (\<lparr>el = el l\<rparr>, l\<lparr>el := False\<rparr>)"

definition past_entry :: "loop_pc \<Rightarrow> bool" where
  "past_entry p \<longleftrightarrow> p = LRun \<or> p = LLeave \<or> p = LWantExited"

subsection \<open>Steps of the loop thread\<close>

text \<open>\<open>run(ONCE)\<close> returns after it has handled some event; it drains the wake-up bytes.\<close>

definition loop_step :: "eloop \<Rightarrow> eloop option" where
  "loop_step s =
     (case loopPc s of
        LCheck \<Rightarrow> Some (s\<lparr>loopPc := (if \<not> stopping s then LWantEntered else LDone)\<rparr>)
      | LWantEntered \<Rightarrow>
          (if enteredLock s = None
           then Some (s\<lparr>enteredLock := Some loop_thread, loopPc := LRun\<rparr>) else None)
      | LRun \<Rightarrow> Some (s\<lparr>wakeBytes := 0, loopPc := LLeave\<rparr>)
      | LLeave \<Rightarrow> Some (s\<lparr>enteredLock := None, loopPc := LWantExited\<rparr>)
      | LWantExited \<Rightarrow>
          (if exitedLock s = None
           then Some (s\<lparr>exitedLock := Some loop_thread, loopPc := LGotExited\<rparr>) else None)
      | LGotExited \<Rightarrow> Some (s\<lparr>exitedLock := None, loopPc := LCheck\<rparr>)
      | LDone \<Rightarrow> None)"

subsection \<open>Steps of a client\<close>

text \<open>The test for a nested acquisition: such a call returns at once with a null lock object.\<close>

definition nested_acquire :: "thread \<Rightarrow> eloop \<Rightarrow> bool" where
  "nested_acquire me s \<longleftrightarrow> lockOwner s = Some me \<or> loop_thread = me"

definition set_client :: "thread \<Rightarrow> client_pc \<Rightarrow> eloop \<Rightarrow> eloop" where
  "set_client c p s = s\<lparr>clientPc := (clientPc s)(c := p)\<rparr>"

text \<open>
  The assertion of \<open>acquireEventLoopLock\<close>, that the libuv loop exists and is alive, is checked where its
  callers are modelled (\<open>Loop_Control\<close>): from \<open>run\<close> on the loop has the handle that reads the pipe, which
  is never stopped or closed, so that it stays alive.
\<close>

definition acquire_call :: "thread \<Rightarrow> eloop \<Rightarrow> event_loop_lock option \<times> eloop" where
  "acquire_call me s =
     (if nested_acquire me s then (Some \<lparr>el = False\<rparr>, s) else (None, set_client me CWantExited s))"

text \<open>
  The pipe holds a bounded number of bytes (65536, the capacity of a pipe on Linux).  A byte that does
  not fit is answered with \<open>UV_EAGAIN\<close> and the loop tries again: the step leaves everything as it is.
  Nothing else is answered, as the reading end stays open, so the assertion \<open>rc == 1\<close> holds after the
  loop.
\<close>

definition pipe_capacity :: nat where "pipe_capacity = 65536"

lemma pipe_capacity_pos [simp]: "0 < pipe_capacity"
  by (simp add: pipe_capacity_def)

lemma pipe_capacity_small [simp]: "Suc 0 < pipe_capacity" "Suc (Suc 0) < pipe_capacity" "\<not> pipe_capacity \<le> Suc 0"
  by (simp_all add: pipe_capacity_def)

definition try_write :: "eloop \<Rightarrow> eloop option" where
  "try_write s = (if wakeBytes s < pipe_capacity then Some (s\<lparr>wakeBytes := Suc (wakeBytes s)\<rparr>) else None)"

lemma try_write_code [code]:
  "try_write s = (if int (wakeBytes s) < 65536 then Some (s\<lparr>wakeBytes := Suc (wakeBytes s)\<rparr>) else None)"
  by (simp add: try_write_def pipe_capacity_def)

definition acquire_step :: "thread \<Rightarrow> eloop \<Rightarrow> eloop option" where
  "acquire_step me s =
     (case clientPc s me of
        CWantExited \<Rightarrow>
          (if exitedLock s = None
           then Some (set_client me CSetOwner
                       (s\<lparr>exitedLock := Some me, caught := past_entry (loopPc s)\<rparr>)) else None)
      | CSetOwner \<Rightarrow> Some (set_client me CWrite (s\<lparr>lockOwner := Some me\<rparr>))
      | CWrite \<Rightarrow>
          (case try_write s of
             None \<Rightarrow> Some s
           | Some s' \<Rightarrow> Some (set_client me CWantEntered s'))
      | CWantEntered \<Rightarrow>
          (if enteredLock s = None
           then Some (set_client me CGotEntered (s\<lparr>enteredLock := Some me\<rparr>)) else None)
      | CGotEntered \<Rightarrow> Some (set_client me CHolding (s\<lparr>enteredLock := None\<rparr>))
      | _ \<Rightarrow> None)"

text \<open>\<open>~EventLoopLock\<close> on a non-null lock object calls \<open>unlockEventLoop\<close>.\<close>

definition unlock_event_loop_step :: "thread \<Rightarrow> eloop \<Rightarrow> eloop option" where
  "unlock_event_loop_step me s =
     (case clientPc s me of
        CHolding \<Rightarrow> Some (set_client me CUnlock (s\<lparr>lockOwner := None\<rparr>))
      | CUnlock \<Rightarrow> Some (set_client me COut (s\<lparr>exitedLock := None\<rparr>))
      | _ \<Rightarrow> None)"

definition lock_destroy :: "thread \<Rightarrow> event_loop_lock \<Rightarrow> eloop \<Rightarrow> eloop option" where
  "lock_destroy me l s = (if el l then unlock_event_loop_step me s else Some s)"

inductive el_step :: "eloop \<Rightarrow> eloop \<Rightarrow> bool" where
  loop: "loop_step s = Some t \<Longrightarrow> el_step s t"
| call: "clientPc s c = COut \<Longrightarrow> acquire_call c s = (r, t) \<Longrightarrow> el_step s t"
| acquire: "acquire_step c s = Some t \<Longrightarrow> el_step s t"
| release: "unlock_event_loop_step c s = Some t \<Longrightarrow> el_step s t"
| request_stop: "el_step s (s\<lparr>stopping := True\<rparr>)"

inductive el_reach :: "eloop \<Rightarrow> bool" where
  init: "el_reach eloop_init"
| step: "el_reach s \<Longrightarrow> el_step s t \<Longrightarrow> el_reach t"

subsection \<open>What the mutexes and the owner field say\<close>

definition holds_exited :: "client_pc \<Rightarrow> bool" where
  "holds_exited p \<longleftrightarrow> p \<in> {CSetOwner, CWrite, CWantEntered, CGotEntered, CHolding, CUnlock}"

definition is_owner :: "client_pc \<Rightarrow> bool" where
  "is_owner p \<longleftrightarrow> p \<in> {CWrite, CWantEntered, CGotEntered, CHolding}"

lemma pc_roles [simp]:
  "\<not> holds_exited COut" "\<not> holds_exited CWantExited" "holds_exited CSetOwner"
  "holds_exited CWrite" "holds_exited CWantEntered" "holds_exited CGotEntered"
  "holds_exited CHolding" "holds_exited CUnlock"
  "\<not> is_owner COut" "\<not> is_owner CWantExited" "\<not> is_owner CSetOwner"
  "is_owner CWrite" "is_owner CWantEntered" "is_owner CGotEntered"
  "is_owner CHolding" "\<not> is_owner CUnlock"
  by (simp_all add: holds_exited_def is_owner_def)

lemma owner_holds: "is_owner p \<Longrightarrow> holds_exited p"
  by (auto simp: holds_exited_def is_owner_def)

definition client_agrees :: "eloop \<Rightarrow> thread \<Rightarrow> bool" where
  "client_agrees s c \<longleftrightarrow>
     (enteredLock s = Some c) = (clientPc s c = CGotEntered) \<and>
     (exitedLock s = Some c) = holds_exited (clientPc s c) \<and>
     (lockOwner s = Some c) = is_owner (clientPc s c)"

definition loop_agrees :: "eloop \<Rightarrow> bool" where
  "loop_agrees s \<longleftrightarrow>
     (enteredLock s = Some loop_thread) = (loopPc s = LRun \<or> loopPc s = LLeave) \<and>
     (exitedLock s = Some loop_thread) = (loopPc s = LGotExited) \<and>
     lockOwner s \<noteq> Some loop_thread \<and> clientPc s loop_thread = COut"

definition locks_agree :: "eloop \<Rightarrow> bool" where
  "locks_agree s \<longleftrightarrow> loop_agrees s \<and> (\<forall>c. c \<noteq> loop_thread \<longrightarrow> client_agrees s c)"

lemmas el_ops = loop_step_def acquire_call_def acquire_step_def try_write_def unlock_event_loop_step_def
  set_client_def nested_acquire_def

lemma locks_agreeI:
  "loop_agrees s \<Longrightarrow> (\<And>c. c \<noteq> loop_thread \<Longrightarrow> client_agrees s c) \<Longrightarrow> locks_agree s"
  by (simp add: locks_agree_def)

lemma locks_agreeD:
  "locks_agree s \<Longrightarrow> loop_agrees s"
  "locks_agree s \<Longrightarrow> c \<noteq> loop_thread \<Longrightarrow> client_agrees s c"
  by (simp_all add: locks_agree_def)

lemma acquire_step_client: "loop_agrees s \<Longrightarrow> acquire_step c s = Some t \<Longrightarrow> c \<noteq> loop_thread"
  by (auto simp: loop_agrees_def acquire_step_def)

lemma unlock_step_client:
  "loop_agrees s \<Longrightarrow> unlock_event_loop_step c s = Some t \<Longrightarrow> c \<noteq> loop_thread"
  by (auto simp: loop_agrees_def unlock_event_loop_step_def)

text \<open>What a step of one thread leaves as it was for another.\<close>

definition same_for :: "thread \<Rightarrow> eloop \<Rightarrow> eloop \<Rightarrow> bool" where
  "same_for d s t \<longleftrightarrow>
     clientPc t d = clientPc s d \<and>
     (enteredLock t = Some d) = (enteredLock s = Some d) \<and>
     (exitedLock t = Some d) = (exitedLock s = Some d) \<and>
     (lockOwner t = Some d) = (lockOwner s = Some d)"

lemma client_agrees_same: "client_agrees s d \<Longrightarrow> same_for d s t \<Longrightarrow> client_agrees t d"
  by (simp add: client_agrees_def same_for_def)

lemma loop_agrees_same:
  "loop_agrees s \<Longrightarrow> same_for loop_thread s t \<Longrightarrow> loopPc t = loopPc s \<Longrightarrow> loop_agrees t"
  by (simp add: loop_agrees_def same_for_def)

lemma loop_step_same:
  "loop_agrees s \<Longrightarrow> loop_step s = Some t \<Longrightarrow> d \<noteq> loop_thread \<Longrightarrow> same_for d s t"
  by (cases "loopPc s"; clarsimp simp: loop_agrees_def same_for_def loop_step_def split: if_splits)

lemma locks_agree_loop:
  assumes "locks_agree s" "loop_step s = Some t"
  shows "locks_agree t"
proof (rule locks_agreeI)
  show "loop_agrees t"
    using assms(2) locks_agreeD(1) [OF assms(1)]
    by (cases "loopPc s"; clarsimp simp: loop_agrees_def loop_step_def split: if_splits)
  fix c assume "c \<noteq> loop_thread"
  with assms show "client_agrees t c"
    by (blast intro: client_agrees_same loop_step_same locks_agreeD)
qed

text \<open>The only thread whose entry in the lock fields a client's step can change is itself.\<close>

lemma client_step_same:
  assumes "client_agrees s c" "d \<noteq> c"
    and "\<not> (exitedLock s = Some c \<and> lockOwner s = Some d)"
    and "acquire_step c s = Some t \<or> unlock_event_loop_step c s = Some t"
  shows "same_for d s t"
  using assms(4)
proof
  assume "acquire_step c s = Some t"
  with assms(1-3) show ?thesis
    by (cases "clientPc s c";
        clarsimp simp: client_agrees_def same_for_def acquire_step_def try_write_def set_client_def split: if_splits)
next
  assume "unlock_event_loop_step c s = Some t"
  with assms(1-3) show ?thesis
    by (cases "clientPc s c";
        clarsimp simp: client_agrees_def same_for_def unlock_event_loop_step_def set_client_def)
qed

lemma client_step_self:
  assumes "client_agrees s c"
    and "acquire_step c s = Some t \<or> unlock_event_loop_step c s = Some t"
  shows "client_agrees t c \<and> loopPc t = loopPc s"
  using assms(2)
proof
  assume "acquire_step c s = Some t"
  with assms(1) show ?thesis
    by (cases "clientPc s c";
        clarsimp simp: client_agrees_def acquire_step_def try_write_def set_client_def split: if_splits)
next
  assume "unlock_event_loop_step c s = Some t"
  with assms(1) show ?thesis
    by (cases "clientPc s c";
        clarsimp simp: client_agrees_def unlock_event_loop_step_def set_client_def)
qed

lemma locks_agree_client:
  assumes "locks_agree s"
    and st: "acquire_step c s = Some t \<or> unlock_event_loop_step c s = Some t"
  shows "locks_agree t"
proof (rule locks_agreeI)
  note l = locks_agreeD(1) [OF assms(1)]
  have c: "c \<noteq> loop_thread" using st l acquire_step_client unlock_step_client by blast
  note cs = locks_agreeD(2) [OF assms(1) c]
  have "same_for loop_thread s t"
    using client_step_same [OF cs _ _ st, of loop_thread] c l by (auto simp: loop_agrees_def)
  with l client_step_self [OF cs st] show "loop_agrees t" by (blast intro: loop_agrees_same)
  fix d assume d: "d \<noteq> loop_thread"
  note ds = locks_agreeD(2) [OF assms(1) d]
  show "client_agrees t d"
  proof (cases "d = c")
    case True
    with client_step_self [OF cs st] show ?thesis by simp
  next
    case False
    have "\<not> (exitedLock s = Some c \<and> lockOwner s = Some d)"
      using ds owner_holds False by (auto simp: client_agrees_def)
    with False ds show ?thesis by (blast intro: client_agrees_same client_step_same [OF cs _ _ st])
  qed
qed

lemma locks_agree_call:
  assumes "locks_agree s" "clientPc s c = COut" "acquire_call c s = (r, t)"
  shows "locks_agree t"
proof (rule locks_agreeI)
  show "loop_agrees t"
    using assms(2,3) locks_agreeD(1) [OF assms(1)]
    by (clarsimp simp: loop_agrees_def acquire_call_def nested_acquire_def set_client_def split: if_splits)
  fix d assume d: "d \<noteq> loop_thread"
  show "client_agrees t d"
  proof (cases "nested_acquire c s")
    case True
    with assms(3) locks_agreeD(2) [OF assms(1) d] show ?thesis by (simp add: acquire_call_def)
  next
    case False
    with assms(3) have "t = set_client c CWantExited s" by (simp add: acquire_call_def)
    with assms(2) locks_agreeD(2) [OF assms(1) d] show ?thesis
      by (simp add: client_agrees_def set_client_def)
  qed
qed

lemma locks_agree_step: "el_step s t \<Longrightarrow> locks_agree s \<Longrightarrow> locks_agree t"
proof (induction rule: el_step.induct)
  case (request_stop s)
  then show ?case by (simp add: locks_agree_def loop_agrees_def client_agrees_def)
qed (blast intro: locks_agree_loop locks_agree_call locks_agree_client)+

lemma locks_agree_init: "locks_agree eloop_init"
  by (simp add: locks_agree_def loop_agrees_def client_agrees_def eloop_init_def)

lemma locks_agree_reach: "el_reach s \<Longrightarrow> locks_agree s"
  by (induction rule: el_reach.induct) (blast intro: locks_agree_init locks_agree_step)+

lemma el_invariant:
  assumes "el_reach s" "P eloop_init"
    and "\<And>s t. locks_agree s \<Longrightarrow> P s \<Longrightarrow> el_step s t \<Longrightarrow> P t"
  shows "P s"
  using assms(1) by (induction rule: el_reach.induct) (use assms(2,3) locks_agree_reach in blast)+

subsection \<open>One holder at a time\<close>

lemma exited_unique:
  assumes "locks_agree s" "c \<noteq> loop_thread" "d \<noteq> loop_thread"
    and "holds_exited (clientPc s c)" "holds_exited (clientPc s d)"
  shows "c = d"
  using locks_agreeD(2) [OF assms(1,2)] locks_agreeD(2) [OF assms(1,3)] assms(4,5)
  by (simp add: client_agrees_def)

lemma loop_pc_client: "locks_agree s \<Longrightarrow> clientPc s c \<noteq> COut \<Longrightarrow> c \<noteq> loop_thread"
  by (auto simp: locks_agree_def loop_agrees_def)

lemma acquire_nested_iff:
  assumes "locks_agree s" "c \<noteq> loop_thread"
  shows "nested_acquire c s \<longleftrightarrow> is_owner (clientPc s c)"
  using locks_agreeD(2) [OF assms] assms(2) by (simp add: nested_acquire_def client_agrees_def)

subsection \<open>What the wake-up handshake achieves\<close>

text \<open>
  If the loop was past its entry when the lock was taken, it is waiting outside \<open>run\<close> for as long as
  the lock is held.
\<close>

definition meets :: "loop_pc \<Rightarrow> client_pc \<Rightarrow> bool" where
  "meets l p \<longleftrightarrow>
     (case p of
        CSetOwner \<Rightarrow> past_entry l | CWrite \<Rightarrow> past_entry l | CWantEntered \<Rightarrow> past_entry l
      | CGotEntered \<Rightarrow> l = LWantExited | CHolding \<Rightarrow> l = LWantExited
      | _ \<Rightarrow> True)"

definition handshake :: "eloop \<Rightarrow> bool" where
  "handshake s \<longleftrightarrow> (caught s \<longrightarrow> (\<forall>c. meets (loopPc s) (clientPc s c)))"

lemma meets_outside: "\<not> holds_exited p \<Longrightarrow> meets l p"
  by (cases p) (simp_all add: meets_def)

lemma meets_free [simp]: "meets l COut" "meets l CWantExited" "meets l CUnlock"
  by (simp_all add: meets_def)

lemma meets_past: "meets l p \<Longrightarrow> holds_exited p \<Longrightarrow> p \<noteq> CUnlock \<Longrightarrow> past_entry l"
  by (cases p) (simp_all add: meets_def past_entry_def)

lemma holder_exited:
  assumes "locks_agree s" "holds_exited (clientPc s c)"
  shows "exitedLock s = Some c" "c \<noteq> loop_thread"
proof -
  show "c \<noteq> loop_thread"
  proof
    assume "c = loop_thread"
    with assms show False by (simp add: locks_agree_def loop_agrees_def)
  qed
  with assms show "exitedLock s = Some c" by (simp add: locks_agree_def client_agrees_def)
qed

text \<open>A step of the loop while a client holds the outer mutex.\<close>

lemma loop_step_meets:
  assumes "loop_step s = Some t" "exitedLock s \<noteq> None" "meets (loopPc s) p"
  shows "meets (loopPc t) p"
  using assms
  by (cases "loopPc s"; cases p; clarsimp simp: loop_step_def meets_def past_entry_def)

lemma loop_step_frame: "loop_step s = Some t \<Longrightarrow> clientPc t = clientPc s \<and> caught t = caught s"
  by (cases "loopPc s"; clarsimp simp: loop_step_def split: if_splits)

lemma handshake_loop:
  assumes "locks_agree s" "handshake s" "loop_step s = Some t"
  shows "handshake t"
proof -
  have "meets (loopPc t) (clientPc s c)" if "caught s" for c
  proof (cases "holds_exited (clientPc s c)")
    case True
    with holder_exited [OF assms(1) True] assms(2) that show ?thesis
      by (intro loop_step_meets [OF assms(3)]) (auto simp: handshake_def)
  qed (rule meets_outside)
  with loop_step_frame [OF assms(3)] show ?thesis by (simp add: handshake_def)
qed

lemma handshake_acquire:
  assumes "locks_agree s" "handshake s" "acquire_step c s = Some t"
  shows "handshake t"
proof -
  have c: "c \<noteq> loop_thread" and ls: "loop_agrees s" and cs: "client_agrees s c"
    using assms(1,3) acquire_step_client locks_agreeD by blast+
  have others: "meets (loopPc t) (clientPc t d)" if "d \<noteq> c" for d
  proof (rule meets_outside)
    have "\<not> holds_exited (clientPc s d)"
      using holder_exited [OF assms(1), of d] assms(3) cs that
      by (cases "clientPc s c"; clarsimp simp: acquire_step_def try_write_def client_agrees_def split: if_splits)
    moreover have "clientPc t d = clientPc s d"
      using assms(3) that
      by (cases "clientPc s c"; clarsimp simp: acquire_step_def try_write_def set_client_def split: if_splits)
    ultimately show "\<not> holds_exited (clientPc t d)" by simp
  qed
  have "meets (loopPc t) (clientPc t c)" if "caught t"
    using assms(2,3) that ls spec [of "\<lambda>c. meets (loopPc s) (clientPc s c)" c]
    by (cases "clientPc s c";
        clarsimp simp: handshake_def acquire_step_def try_write_def set_client_def meets_def past_entry_def
          loop_agrees_def split: if_splits)
  with others show ?thesis unfolding handshake_def by metis
qed

lemma handshake_release:
  "handshake s \<Longrightarrow> unlock_event_loop_step c s = Some t \<Longrightarrow> handshake t"
  by (cases "clientPc s c";
      clarsimp simp: handshake_def unlock_event_loop_step_def set_client_def meets_outside)

lemma handshake_call: "handshake s \<Longrightarrow> acquire_call c s = (r, t) \<Longrightarrow> handshake t"
  by (clarsimp simp: handshake_def acquire_call_def set_client_def meets_outside split: if_splits)

lemma handshake_step: "el_step s t \<Longrightarrow> locks_agree s \<Longrightarrow> handshake s \<Longrightarrow> handshake t"
proof (induction rule: el_step.induct)
  case (request_stop s)
  then show ?case by (simp add: handshake_def)
qed (blast intro: handshake_loop handshake_acquire handshake_release handshake_call)+

lemma handshake_reach: "el_reach s \<Longrightarrow> handshake s"
proof (rule el_invariant [of s handshake])
  show "handshake eloop_init" by (simp add: handshake_def eloop_init_def)
qed (blast intro: handshake_step)+

subsection \<open>The wake-up byte\<close>

text \<open>A client that waits for the loop to leave \<open>run\<close> has a byte in the pipe that makes it return.\<close>

definition wake_pending :: "eloop \<Rightarrow> bool" where
  "wake_pending s \<longleftrightarrow>
     (\<forall>c. clientPc s c = CWantEntered \<longrightarrow>
        0 < wakeBytes s \<or> loopPc s = LLeave \<or> loopPc s = LWantExited \<or> loopPc s = LDone)"

lemma wake_pending_loop:
  assumes "locks_agree s" "wake_pending s" "loop_step s = Some t"
  shows "wake_pending t"
proof (cases "\<exists>c. clientPc s c = CWantEntered")
  case True
  then obtain c where "clientPc s c = CWantEntered" by blast
  with holder_exited(1) [OF assms(1), of c] have "exitedLock s \<noteq> None" by simp
  with True assms(2,3) show ?thesis
    by (cases "loopPc s"; clarsimp simp: wake_pending_def loop_step_def split: if_splits)
next
  case False
  with loop_step_frame [OF assms(3)] show ?thesis by (simp add: wake_pending_def)
qed

lemma wake_pending_step: "el_step s t \<Longrightarrow> locks_agree s \<Longrightarrow> wake_pending s \<Longrightarrow> wake_pending t"
proof (induction rule: el_step.induct)
  case (loop s t)
  then show ?case by (blast intro: wake_pending_loop)
next
  case (call s c r t)
  then show ?case by (auto simp: wake_pending_def acquire_call_def set_client_def split: if_splits)
next
  case (acquire c s t)
  then show ?case
    by (cases "clientPc s c";
        clarsimp simp: wake_pending_def acquire_step_def try_write_def set_client_def split: if_splits)
next
  case (release c s t)
  then show ?case
    by (cases "clientPc s c";
        clarsimp simp: wake_pending_def unlock_event_loop_step_def set_client_def split: if_splits)
next
  case (request_stop s)
  then show ?case by (simp add: wake_pending_def)
qed

lemma wake_pending_reach: "el_reach s \<Longrightarrow> wake_pending s"
proof (rule el_invariant [of s wake_pending])
  show "wake_pending eloop_init" by (simp add: wake_pending_def eloop_init_def)
qed (blast intro: wake_pending_step)+

subsection \<open>Runs\<close>

datatype el_event = TLoop | TCall thread | TAcquire thread | TRelease thread

fun el_exec :: "el_event list \<Rightarrow> eloop \<Rightarrow> eloop option" where
  "el_exec [] s = Some s"
| "el_exec (TLoop # es) s = Option.bind (loop_step s) (el_exec es)"
| "el_exec (TCall c # es) s =
     (if clientPc s c = COut then el_exec es (snd (acquire_call c s)) else None)"
| "el_exec (TAcquire c # es) s = Option.bind (acquire_step c s) (el_exec es)"
| "el_exec (TRelease c # es) s = Option.bind (unlock_event_loop_step c s) (el_exec es)"

lemma el_exec_reach: "el_exec es s = Some t \<Longrightarrow> el_reach s \<Longrightarrow> el_reach t"
proof (induction es s rule: el_exec.induct)
  case (3 c es s)
  obtain r v where "acquire_call c s = (r, v)" by fastforce
  with 3 show ?case by (auto split: if_splits intro: el_reach.step el_step.call)
qed (auto simp: bind_eq_Some_conv intro: el_reach.step [OF _ el_step.loop]
    el_reach.step [OF _ el_step.acquire] el_reach.step [OF _ el_step.release])

lemmas el_run_simps = eloop_init_def el_ops past_entry_def loop_thread_def

subsection \<open>Properties\<close>

text \<open>
  Two threads never hold the event-loop lock at the same time: from the moment
  \<open>acquireEventLoopLock\<close> has locked \<open>eventLoopExitedLock\<close> until \<open>unlockEventLoop\<close> has unlocked it,
  no other thread is between those two points.
\<close>

lemma event_loop_lock_exclusive:
  assumes "el_reach s" "holds_exited (clientPc s c)" "holds_exited (clientPc s d)"
  shows "c = d"
proof -
  note inv = locks_agree_reach [OF assms(1)]
  from exited_unique [OF inv holder_exited(2) [OF inv assms(2)] holder_exited(2) [OF inv assms(3)] assms(2,3)]
  show ?thesis .
qed

lemma event_loop_lock_exclusive_witness:
  "\<exists>s. el_reach s \<and> holds_exited (clientPc s 1) \<and> \<not> holds_exited (clientPc s 2)"
proof -
  let ?es = "[TCall 1, TCall 2, TAcquire 1, TAcquire 1, TAcquire 1, TAcquire 1, TAcquire 1]"
  obtain s where s: "el_exec ?es eloop_init = Some s" "clientPc s 1 = CHolding"
    by (simp add: el_run_simps)
  with el_exec_reach el_reach.init have r: "el_reach s" by blast
  with s event_loop_lock_exclusive [OF r, of 1 2] show ?thesis by auto
qed

text \<open>
  The specification of the lock: it is free or has one owner, and passes from free to owned and back.
  A thread owns it while it has the lock object.
\<close>

inductive mutex_step :: "thread option \<Rightarrow> thread option \<Rightarrow> bool" where
  acquired: "mutex_step None (Some c)"
| released: "mutex_step (Some c) None"

definition owner_of :: "eloop \<Rightarrow> thread option" where
  "owner_of s =
     (case lockOwner s of
        None \<Rightarrow> None
      | Some c \<Rightarrow> if clientPc s c = CHolding then Some c else None)"

lemma owner_of_iff:
  assumes "locks_agree s"
  shows "owner_of s = Some c \<longleftrightarrow> clientPc s c = CHolding"
proof (cases "c = loop_thread")
  case True
  with locks_agreeD(1) [OF assms] show ?thesis
    by (auto simp: loop_agrees_def owner_of_def split: option.splits)
next
  case False
  with locks_agreeD(2) [OF assms, of c] show ?thesis
    by (auto simp: client_agrees_def owner_of_def split: option.splits)
qed

lemma owner_of_same:
  "lockOwner t = lockOwner s \<Longrightarrow> (\<And>c. lockOwner s = Some c \<Longrightarrow> (clientPc t c = CHolding) = (clientPc s c = CHolding)) \<Longrightarrow>
     owner_of t = owner_of s"
  by (simp add: owner_of_def split: option.split)

lemma acquire_refines:
  assumes "locks_agree s" "acquire_step c s = Some t"
  shows "owner_of t = owner_of s \<or> mutex_step (owner_of s) (owner_of t)"
proof -
  have "c \<noteq> loop_thread" using acquire_step_client [OF locks_agreeD(1) [OF assms(1)] assms(2)] .
  then have a: "(lockOwner s = Some c) = is_owner (clientPc s c)"
    using locks_agreeD(2) [OF assms(1)] by (simp add: client_agrees_def)
  show ?thesis
  proof (cases "clientPc s c")
    case CSetOwner
    then have x: "exitedLock s = Some c" by (intro holder_exited(1) [OF assms(1)]) simp
    have "owner_of s = None"
    proof (rule ccontr)
      assume "owner_of s \<noteq> None"
      then obtain d where "clientPc s d = CHolding" using owner_of_iff [OF assms(1)] by auto
      then have "exitedLock s = Some d" "d \<noteq> c"
        using CSetOwner by (auto intro: holder_exited(1) [OF assms(1)])
      with x show False by simp
    qed
    with CSetOwner assms(2) show ?thesis by (auto simp: acquire_step_def set_client_def owner_of_def)
  next
    case CGotEntered
    with a have o: "lockOwner s = Some c" by simp
    with CGotEntered assms(2) show ?thesis
      by (auto simp: acquire_step_def set_client_def owner_of_def intro: mutex_step.intros)
  qed (use assms(2) a in \<open>auto simp: acquire_step_def try_write_def set_client_def split: if_splits intro!: owner_of_same\<close>)
qed

lemma release_refines:
  assumes "locks_agree s" "unlock_event_loop_step c s = Some t"
  shows "owner_of t = owner_of s \<or> mutex_step (owner_of s) (owner_of t)"
proof -
  have "c \<noteq> loop_thread" using unlock_step_client [OF locks_agreeD(1) [OF assms(1)] assms(2)] .
  then have a: "(lockOwner s = Some c) = is_owner (clientPc s c)"
    using locks_agreeD(2) [OF assms(1)] by (simp add: client_agrees_def)
  then show ?thesis
    using assms(2)
    by (cases "clientPc s c")
      (auto simp: unlock_event_loop_step_def set_client_def owner_of_def intro: mutex_step.intros
        split: option.splits)
qed

text \<open>
  C6: the lock of the event loop is a mutex.  From the moment \<open>acquireEventLoopLock\<close> has locked
  \<open>eventLoopExitedLock\<close> until \<open>unlockEventLoop\<close> has unlocked it no other thread is between these two
  points; exactly one thread has the lock object when the mutex of the specification is owned; and
  every step of any thread, the loop thread included, is a step of the specification or changes
  nothing in it.
\<close>

theorem event_loop_lock_refines_mutex:
  assumes "el_reach s" "el_step s t"
  shows "(holds_exited (clientPc s c) \<and> holds_exited (clientPc s d) \<longrightarrow> c = d) \<and>
    (owner_of s = Some c \<longleftrightarrow> clientPc s c = CHolding) \<and>
    (owner_of t = owner_of s \<or> mutex_step (owner_of s) (owner_of t))"
proof (intro conjI impI)
  note inv = locks_agree_reach [OF assms(1)]
  show "c = d" if "holds_exited (clientPc s c) \<and> holds_exited (clientPc s d)"
    using event_loop_lock_exclusive [OF assms(1)] that by blast
  show "owner_of s = Some c \<longleftrightarrow> clientPc s c = CHolding" by (rule owner_of_iff [OF inv])
  show "owner_of t = owner_of s \<or> mutex_step (owner_of s) (owner_of t)"
    using assms(2)
  proof cases
    case loop
    then have "lockOwner t = lockOwner s \<and> clientPc t = clientPc s"
      by (cases "loopPc s"; clarsimp simp: loop_step_def split: if_splits)
    then have "owner_of t = owner_of s" by (intro owner_of_same) simp_all
    then show ?thesis by simp
  next
    case (call c r)
    then have "owner_of t = owner_of s"
      using locks_agreeD(1) [OF inv] locks_agreeD(2) [OF inv, of c]
      by (intro owner_of_same) (auto simp: acquire_call_def set_client_def nested_acquire_def split: if_splits)
    then show ?thesis by simp
  next
    case (acquire c)
    with acquire_refines [OF inv] show ?thesis by blast
  next
    case (release c)
    with release_refines [OF inv] show ?thesis by blast
  next
    case request_stop
    then have "owner_of t = owner_of s" by (intro owner_of_same) simp_all
    then show ?thesis by simp
  qed
qed

theorem event_loop_lock_refines_mutex_witness:
  "\<exists>s t. el_reach s \<and> unlock_event_loop_step 1 s = Some t \<and> mutex_step (owner_of s) (owner_of t) \<and>
     owner_of s = Some 1"
proof -
  let ?es = "[TCall 1, TCall 2, TAcquire 1, TAcquire 1, TAcquire 1, TAcquire 1, TAcquire 1]"
  obtain s where s: "el_exec ?es eloop_init = Some s" "clientPc s 1 = CHolding"
    by (simp add: el_run_simps)
  then obtain t where t: "unlock_event_loop_step 1 s = Some t" "lockOwner t = None"
    by (simp add: unlock_event_loop_step_def set_client_def)
  from s(1) el_exec_reach el_reach.init have r: "el_reach s" by blast
  have "owner_of s = Some 1" "owner_of t = owner_of s \<or> mutex_step (owner_of s) (owner_of t)"
    using event_loop_lock_refines_mutex [OF r el_step.release [OF t(1)], of 1 1] s(2) by blast+
  moreover from t(2) have "owner_of t = None" by (simp add: owner_of_def)
  ultimately show ?thesis using r t(1) by auto
qed

text \<open>
  When the loop thread was past its entry (inside \<open>run\<close>, or on its way out) at the moment a
  thread took the outer mutex, then as long as that thread holds the lock the loop thread waits on
  that mutex outside \<open>run\<close> and cannot move.
\<close>

lemma event_loop_handshake:
  assumes "el_reach s" "clientPc s c = CHolding" "caught s"
  shows "loopPc s = LWantExited \<and> loop_step s = None"
proof -
  have "meets (loopPc s) (clientPc s c)"
    using handshake_reach [OF assms(1)] assms(3) by (simp add: handshake_def)
  then have "loopPc s = LWantExited" using assms(2) by (simp add: meets_def)
  moreover have "exitedLock s = Some c"
    using holder_exited(1) [OF locks_agree_reach [OF assms(1)], of c] assms(2) by simp
  ultimately show ?thesis by (simp add: loop_step_def)
qed

lemma event_loop_handshake_witness:
  "\<exists>s. el_reach s \<and> clientPc s 1 = CHolding \<and> loop_step s = None"
proof -
  let ?es = "[TLoop, TLoop, TCall 1, TAcquire 1, TAcquire 1, TAcquire 1, TLoop, TLoop,
    TAcquire 1, TAcquire 1]"
  obtain s where s: "el_exec ?es eloop_init = Some s" "clientPc s 1 = CHolding" "caught s"
    by (simp add: el_run_simps)
  with el_exec_reach el_reach.init have r: "el_reach s" by blast
  with event_loop_handshake [OF r s(2,3)] s(2) show ?thesis by auto
qed

text \<open>
  The handshake has a gap.  A thread can return from \<open>acquireEventLoopLock\<close> while the loop
  thread has not yet locked \<open>eventLoopEnteredLock\<close>; the loop thread then enters
  \<open>uvwEventLoop->run\<close> while the lock is held, so the lock does not exclude it.
\<close>

lemma event_loop_lock_race:
  "\<exists>s. el_reach s \<and> clientPc s 1 = CHolding \<and> loopPc s = LRun"
proof -
  let ?es = "[TLoop, TCall 1, TAcquire 1, TAcquire 1, TAcquire 1, TAcquire 1, TAcquire 1, TLoop]"
  obtain s where "el_exec ?es eloop_init = Some s" "clientPc s 1 = CHolding" "loopPc s = LRun"
    by (simp add: el_run_simps)
  with el_exec_reach el_reach.init show ?thesis by blast
qed

text \<open>
  \<open>acquireEventLoopLock\<close> does not wait for ever on \<open>eventLoopEnteredLock\<close>: the mutex is free, or
  the loop thread is inside \<open>run\<close> with a wake-up byte to read, or it is about to unlock the mutex.
\<close>

lemma event_loop_acquire_progress:
  assumes "el_reach s" "clientPc s c = CWantEntered"
  shows "(\<exists>t. acquire_step c s = Some t) \<or> loopPc s = LRun \<and> 0 < wakeBytes s \<or> loopPc s = LLeave"
proof (cases "enteredLock s")
  case None
  with assms(2) show ?thesis by (simp add: acquire_step_def)
next
  case (Some d)
  note inv = locks_agree_reach [OF assms(1)]
  have "d = loop_thread"
  proof (rule ccontr)
    assume "d \<noteq> loop_thread"
    with inv Some have "clientPc s d = CGotEntered"
      using locks_agreeD(2) [OF inv, of d] by (simp add: client_agrees_def)
    with assms(2) holder_exited [OF inv] exited_unique [OF inv, of c d] show False by force
  qed
  with inv Some have "loopPc s = LRun \<or> loopPc s = LLeave"
    by (simp add: locks_agree_def loop_agrees_def)
  with wake_pending_reach [OF assms(1)] assms(2) show ?thesis
    by (auto simp: wake_pending_def)
qed

lemma event_loop_acquire_progress_witness:
  "\<exists>s. el_reach s \<and> loopPc s = LRun \<and> clientPc s 1 = CWantEntered \<and> 0 < wakeBytes s"
proof -
  let ?es = "[TLoop, TLoop, TCall 1, TAcquire 1, TAcquire 1, TAcquire 1]"
  obtain s where s: "el_exec ?es eloop_init = Some s" "clientPc s 1 = CWantEntered"
      "loopPc s = LRun" "acquire_step 1 s = None"
    by (simp add: el_run_simps)
  with el_exec_reach el_reach.init have r: "el_reach s" by blast
  with event_loop_acquire_progress [OF r s(2)] s show ?thesis by auto
qed

text \<open>
  A nested call of \<open>acquireEventLoopLock\<close> returns a null lock object at once exactly when the
  calling thread is already the recorded owner, changes nothing, and its destructor releases nothing.
\<close>

lemma event_loop_lock_nested:
  assumes "el_reach s" "c \<noteq> loop_thread"
  shows "(fst (acquire_call c s) \<noteq> None) = is_owner (clientPc s c) \<and>
    (fst (acquire_call c s) = Some l \<longrightarrow> snd (acquire_call c s) = s \<and> lock_destroy c l s = Some s)"
  using acquire_nested_iff [OF locks_agree_reach [OF assms(1)] assms(2)]
  by (auto simp: acquire_call_def lock_destroy_def)

lemma event_loop_lock_nested_witness:
  "\<exists>s. el_reach s \<and> clientPc s 1 = CHolding \<and> fst (acquire_call 1 s) \<noteq> None"
proof -
  let ?es = "[TCall 1, TAcquire 1, TAcquire 1, TAcquire 1, TAcquire 1, TAcquire 1]"
  obtain s where s: "el_exec ?es eloop_init = Some s" "clientPc s 1 = CHolding"
    by (simp add: el_run_simps)
  with el_exec_reach el_reach.init have r: "el_reach s" by blast
  with event_loop_lock_nested [OF r, of 1] s show ?thesis by (auto simp: loop_thread_def)
qed

end
