(* ===== verification/Loop_Control.thy ===== *)
theory Loop_Control
  imports Event_Loop
begin

section \<open>Starting and stopping the event loop\<close>

text \<open>
  \<open>EventLoop::run\<close>, \<open>stop\<close>, \<open>createTcpSocket\<close> and \<open>createAddrInfoReq\<close> of \<open>async/EventLoop.cpp\<close>, on top
  of the steps of the loop thread and of the lock in \<open>Event_Loop\<close>.  One thread (number 1) starts the
  loop and later stops it, while any number of other threads acquire and release the lock.  What libuv does is a parameter: whether the pipe could be created, whether
  an event makes \<open>run(ONCE)\<close> return, and the value it returns; without an event it returns only when
  there are bytes in the pipe.
\<close>

definition main_thread :: thread where "main_thread = 1"

datatype main_pc =
    MIdle
  | RunAcquire        \<comment> \<open>\<open>run\<close>, in \<open>acquireEventLoopLock\<close>\<close>
  | RunRelease        \<comment> \<open>the lock object goes out of scope\<close>
  | RunFailed         \<comment> \<open>\<open>run\<close> returned false\<close>
  | MUp               \<comment> \<open>\<open>run\<close> returned true\<close>
  | StopSet           \<comment> \<open>\<open>stopping = true\<close>\<close>
  | StopCall          \<comment> \<open>the call of \<open>acquireEventLoopLock\<close>\<close>
  | StopAcquire
  | StopLib           \<comment> \<open>\<open>uvwEventLoop->stop()\<close>\<close>
  | StopRelease
  | StopJoin          \<comment> \<open>\<open>eventLoopThread.join()\<close>\<close>
  | StopReturned int
  | MAborted string

text \<open>An \<open>EventLoop\<close> is created with all its fields zero (\<open>new EventLoop()\<close> in \<open>main.cpp\<close>).\<close>

record ctl =
  lp :: eloop
  created :: bool          \<comment> \<open>\<open>uvwEventLoop\<close> is not null\<close>
  started :: bool          \<comment> \<open>the loop thread has been started\<close>
  loopRunResult :: int
  loopStopped :: bool      \<comment> \<open>\<open>stop\<close> of libuv was called\<close>
  mainPc :: main_pc

definition ctl_init :: ctl where
  "ctl_init =
     \<lparr>lp = eloop_init, created = False, started = False, loopRunResult = 0, loopStopped = False,
      mainPc = MIdle\<rparr>"

definition on_loop :: "(eloop \<Rightarrow> eloop option) \<Rightarrow> ctl \<Rightarrow> ctl option" where
  "on_loop f s = map_option (\<lambda>l. s\<lparr>lp := l\<rparr>) (f (lp s))"

text \<open>The first stretch of \<open>run\<close>: the pipe, the loop thread, and the call for the lock.\<close>

definition run_call :: "bool \<Rightarrow> ctl \<Rightarrow> ctl" where
  "run_call pipe_ok s =
     (if created s then s\<lparr>mainPc := MAborted ''event loop re-entrance detected''\<rparr>
      else if \<not> pipe_ok then s\<lparr>mainPc := RunFailed\<rparr>
      else s\<lparr>created := True, started := True, lp := snd (acquire_call main_thread (lp s)),
             mainPc := RunAcquire\<rparr>)"

definition run_step :: "ctl \<Rightarrow> ctl option" where
  "run_step s =
     (case mainPc s of
        RunAcquire \<Rightarrow>
          if clientPc (lp s) main_thread = CHolding then Some (s\<lparr>mainPc := RunRelease\<rparr>)
          else on_loop (acquire_step main_thread) s
      | RunRelease \<Rightarrow>
          if clientPc (lp s) main_thread = COut then Some (s\<lparr>mainPc := MUp\<rparr>)
          else on_loop (unlock_event_loop_step main_thread) s
      | _ \<Rightarrow> None)"

text \<open>
  \<open>uvwEventLoop->alive()\<close>: a libuv loop with an active handle is alive.  The handle that reads the pipe is
  active once \<open>run\<close> has created the loop, and nothing stops or closes it, also not \<open>stop\<close>.
\<close>

definition loop_alive :: "ctl \<Rightarrow> bool" where
  "loop_alive s \<longleftrightarrow> created s"

definition stop_call :: "ctl \<Rightarrow> ctl" where
  "stop_call s =
     (if \<not> (created s \<and> loop_alive s) then s\<lparr>mainPc := MAborted ''event loop must be alive''\<rparr>
      else s\<lparr>mainPc := StopSet\<rparr>)"

definition stop_step :: "ctl \<Rightarrow> ctl option" where
  "stop_step s =
     (case mainPc s of
        StopSet \<Rightarrow> Some (s\<lparr>lp := (lp s)\<lparr>stopping := True\<rparr>, mainPc := StopCall\<rparr>)
      | StopCall \<Rightarrow> Some (s\<lparr>lp := snd (acquire_call main_thread (lp s)), mainPc := StopAcquire\<rparr>)
      | StopAcquire \<Rightarrow>
          if clientPc (lp s) main_thread = CHolding then Some (s\<lparr>mainPc := StopLib\<rparr>)
          else on_loop (acquire_step main_thread) s
      | StopLib \<Rightarrow> Some (s\<lparr>loopStopped := True, mainPc := StopRelease\<rparr>)
      | StopRelease \<Rightarrow>
          if clientPc (lp s) main_thread = COut then Some (s\<lparr>mainPc := StopJoin\<rparr>)
          else on_loop (unlock_event_loop_step main_thread) s
      | StopJoin \<Rightarrow>
          if loopPc (lp s) = LDone then Some (s\<lparr>mainPc := StopReturned (loopRunResult s)\<rparr>) else None
      | _ \<Rightarrow> None)"

text \<open>
  A step of the loop thread, with \<open>ev\<close> an event that makes \<open>run(ONCE)\<close> return and \<open>rc\<close> its result.
\<close>

definition loop_turn :: "bool \<Rightarrow> int \<Rightarrow> ctl \<Rightarrow> ctl option" where
  "loop_turn ev rc s =
     (if \<not> started s then None
      else if loopPc (lp s) = LRun
      then (if ev \<or> 0 < wakeBytes (lp s)
            then map_option (\<lambda>t. t\<lparr>loopRunResult := rc\<rparr>) (on_loop loop_step s) else None)
      else on_loop loop_step s)"

text \<open>Where the thread can call \<open>run\<close>.\<close>

fun may_run :: "main_pc \<Rightarrow> bool" where
  "may_run MIdle = True" | "may_run RunFailed = True" | "may_run MUp = True"
| "may_run (StopReturned _) = True" | "may_run _ = False"

text \<open>
  Another thread: its call of \<open>acquireEventLoopLock\<close> (before \<open>run\<close> has created the loop it fails its
  assertion), and then each step up to the end of its lock object.
\<close>

definition client_step :: "thread \<Rightarrow> eloop \<Rightarrow> eloop option" where
  "client_step c l =
     (case acquire_step c l of None \<Rightarrow> unlock_event_loop_step c l | Some l' \<Rightarrow> Some l')"

definition other_call :: "thread \<Rightarrow> ctl \<Rightarrow> ctl option" where
  "other_call c s =
     (if c \<noteq> main_thread \<and> (created s \<and> loop_alive s) \<and> clientPc (lp s) c = COut
      then Some (s\<lparr>lp := snd (acquire_call c (lp s))\<rparr>) else None)"

definition other_step :: "thread \<Rightarrow> ctl \<Rightarrow> ctl option" where
  "other_step c s = (if c \<noteq> main_thread then on_loop (client_step c) s else None)"

datatype ctl_event = Run bool | Stop | Main | Turn bool int | OtherCall thread | OtherStep thread

definition ctl_do :: "ctl_event \<Rightarrow> ctl \<Rightarrow> ctl option" where
  "ctl_do e s =
     (case e of
        Run ok \<Rightarrow> if may_run (mainPc s) then Some (run_call ok s) else None
      | Stop \<Rightarrow> if mainPc s \<in> {MIdle, RunFailed, MUp} then Some (stop_call s) else None
      | Main \<Rightarrow> (case run_step s of None \<Rightarrow> stop_step s | Some t \<Rightarrow> Some t)
      | Turn ev rc \<Rightarrow> loop_turn ev rc s
      | OtherCall c \<Rightarrow> other_call c s
      | OtherStep c \<Rightarrow> other_step c s)"

inductive ctl_reach :: "ctl \<Rightarrow> bool" where
  init: "ctl_reach ctl_init"
| step: "ctl_reach s \<Longrightarrow> ctl_do e s = Some t \<Longrightarrow> ctl_reach t"

fun ctl_exec :: "ctl_event list \<Rightarrow> ctl \<Rightarrow> ctl option" where
  "ctl_exec [] s = Some s"
| "ctl_exec (e # es) s = Option.bind (ctl_do e s) (ctl_exec es)"

lemma ctl_exec_append: "ctl_exec (es @ fs) s = Option.bind (ctl_exec es s) (ctl_exec fs)"
  by (induction es arbitrary: s) (auto split: bind_split)

lemma ctl_exec_reach: "ctl_exec es s = Some t \<Longrightarrow> ctl_reach s \<Longrightarrow> ctl_reach t"
  by (induction es arbitrary: s) (auto simp: bind_eq_Some_conv intro: ctl_reach.step)

subsection \<open>The invariant\<close>

fun acquiring :: "client_pc \<Rightarrow> bool" where
  "acquiring COut = False" | "acquiring CUnlock = False" | "acquiring _ = True"

primrec client_left :: "client_pc \<Rightarrow> nat" where
  "client_left COut = 0" | "client_left CWantExited = 7" | "client_left CSetOwner = 6"
| "client_left CWrite = 5" | "client_left CWantEntered = 4" | "client_left CGotEntered = 3"
| "client_left CHolding = 2" | "client_left CUnlock = 1"

fun wrote_byte :: "client_pc \<Rightarrow> bool" where
  "wrote_byte CWantEntered = True" | "wrote_byte CGotEntered = True" | "wrote_byte CHolding = True"
| "wrote_byte _ = False"

text \<open>Where the thread is in the lock protocol at each point of \<open>run\<close> and \<open>stop\<close>.\<close>

definition pc_agrees :: "ctl \<Rightarrow> bool" where
  "pc_agrees s \<longleftrightarrow>
     (let p = clientPc (lp s) main_thread in
      case mainPc s of
        MIdle \<Rightarrow> \<not> created s \<and> p = COut
      | RunFailed \<Rightarrow> \<not> created s \<and> p = COut
      | RunAcquire \<Rightarrow> created s \<and> acquiring p
      | RunRelease \<Rightarrow> created s \<and> p \<in> {CHolding, CUnlock, COut}
      | MUp \<Rightarrow> created s \<and> p = COut
      | StopSet \<Rightarrow> created s \<and> p = COut
      | StopCall \<Rightarrow> created s \<and> p = COut
      | StopAcquire \<Rightarrow> created s \<and> acquiring p
      | StopLib \<Rightarrow> created s \<and> p = CHolding
      | StopRelease \<Rightarrow> created s \<and> p \<in> {CHolding, CUnlock, COut}
      | StopJoin \<Rightarrow> created s \<and> p = COut
      | StopReturned r \<Rightarrow> created s \<and> p = COut \<and> loopPc (lp s) = LDone \<and> r = loopRunResult s
      | MAborted _ \<Rightarrow> p = COut)"

fun in_stop :: "main_pc \<Rightarrow> bool" where
  "in_stop StopCall = True" | "in_stop StopAcquire = True" | "in_stop StopLib = True"
| "in_stop StopRelease = True" | "in_stop StopJoin = True" | "in_stop _ = False"

text \<open>Once \<open>stop\<close> has written its byte, the loop does not block in \<open>run\<close> any more.\<close>

definition byte_ready :: "ctl \<Rightarrow> bool" where
  "byte_ready s \<longleftrightarrow>
     (mainPc s = StopAcquire \<and> wrote_byte (clientPc (lp s) main_thread) \<or>
      mainPc s \<in> {StopLib, StopRelease, StopJoin}) \<longrightarrow>
     loopPc (lp s) \<in> {LWantEntered, LRun} \<longrightarrow> 0 < wakeBytes (lp s)"

definition ctl_inv :: "ctl \<Rightarrow> bool" where
  "ctl_inv s \<longleftrightarrow>
     el_reach (lp s) \<and>
     started s = created s \<and> pc_agrees s \<and> (in_stop (mainPc s) \<longrightarrow> stopping (lp s)) \<and> byte_ready s"

text \<open>A thread that finds the pipe full when it writes its byte.\<close>

definition pipe_full :: "thread \<Rightarrow> eloop \<Rightarrow> bool" where
  "pipe_full c l \<longleftrightarrow> clientPc l c = CWrite \<and> pipe_capacity \<le> wakeBytes l"

text \<open>What the steps of a client leave as it was.\<close>

lemma acquire_client_pc:
  assumes "acquire_step c l = Some l'"
  shows "acquiring (clientPc l c)" "acquiring (clientPc l' c)" "loopPc l' = loopPc l"
    "stopping l' = stopping l" "clientPc l' = (clientPc l)(c := clientPc l' c)" "wakeBytes l \<le> wakeBytes l'"
    "client_left (clientPc l' c) < client_left (clientPc l c) \<or> l' = l \<and> pipe_full c l"
    "wrote_byte (clientPc l' c) \<Longrightarrow>
      (wrote_byte (clientPc l c) \<and> wakeBytes l' = wakeBytes l) \<or> 0 < wakeBytes l'"
  using assms
  by (cases "clientPc l c"; clarsimp simp: acquire_step_def try_write_def pipe_full_def set_client_def fun_eq_iff
      split: if_splits)+

lemma unlock_client_pc:
  assumes "unlock_event_loop_step c l = Some l'"
  shows "clientPc l' c \<in> {CUnlock, COut}" "loopPc l' = loopPc l" "stopping l' = stopping l"
    "clientPc l' = (clientPc l)(c := clientPc l' c)" "wakeBytes l' = wakeBytes l"
    "client_left (clientPc l' c) < client_left (clientPc l c)"
  using assms by (cases "clientPc l c"; auto simp: unlock_event_loop_step_def set_client_def)+

lemma client_step_cases:
  assumes "client_step c l = Some l'"
  shows "acquire_step c l = Some l' \<or> unlock_event_loop_step c l = Some l'"
  using assms by (auto simp: client_step_def split: option.splits)

lemma client_step_pc:
  assumes "client_step c l = Some l'"
  shows "loopPc l' = loopPc l" "stopping l' = stopping l" "clientPc l' = (clientPc l)(c := clientPc l' c)"
    "wakeBytes l \<le> wakeBytes l'"
    "client_left (clientPc l' c) < client_left (clientPc l c) \<or> l' = l \<and> pipe_full c l"
  using client_step_cases [OF assms] acquire_client_pc [of c l l'] unlock_client_pc [of c l l'] by auto

lemma client_step_reach: "el_reach l \<Longrightarrow> client_step c l = Some l' \<Longrightarrow> el_reach l'"
  by (blast dest: client_step_cases intro: el_reach.step el_step.acquire el_step.release)

lemma call_main_pc:
  assumes "el_reach l" "clientPc l main_thread = COut"
  shows "snd (acquire_call main_thread l) = set_client main_thread CWantExited l"
  using acquire_nested_iff [OF locks_agree_reach [OF assms(1)], of main_thread] assms(2)
  by (simp add: acquire_call_def main_thread_def loop_thread_def)

lemma call_reach:
  assumes "el_reach l" "clientPc l c = COut"
  shows "el_reach (snd (acquire_call c l))"
proof -
  obtain r l' where c: "acquire_call c l = (r, l')" by fastforce
  from el_reach.step [OF assms(1) el_step.call [OF assms(2) c]] show ?thesis by (simp add: c)
qed

lemma ctl_inv_init: "ctl_inv ctl_init"
  by (simp add: ctl_inv_def ctl_init_def el_reach.init pc_agrees_def byte_ready_def)
    (simp add: eloop_init_def)

lemma ctl_inv_run_call:
  assumes "ctl_inv s" "may_run (mainPc s)"
  shows "ctl_inv (run_call ok s)"
proof -
  have p: "clientPc (lp s) main_thread = COut"
    using assms by (cases "mainPc s") (auto simp: ctl_inv_def pc_agrees_def)
  with assms call_reach [of "lp s" main_thread] call_main_pc [of "lp s"] show ?thesis
    by (cases "created s"; cases ok; cases "mainPc s")
      (auto simp: ctl_inv_def run_call_def pc_agrees_def byte_ready_def set_client_def)
qed

lemma ctl_inv_stop_call:
  assumes "ctl_inv s" "mainPc s \<in> {MIdle, RunFailed, MUp}"
  shows "ctl_inv (stop_call s)"
  using assms
  by (cases "mainPc s") (simp_all add: ctl_inv_def stop_call_def pc_agrees_def byte_ready_def Let_def)

lemma ctl_inv_run_step:
  assumes "ctl_inv s" "run_step s = Some t"
  shows "ctl_inv t"
proof (cases "mainPc s")
  case RunAcquire
  with assms show ?thesis
    by (auto simp: run_step_def on_loop_def ctl_inv_def pc_agrees_def byte_ready_def
        dest: acquire_client_pc(2-4) split: if_splits intro: el_reach.step [OF _ el_step.acquire])
next
  case RunRelease
  with assms show ?thesis
    by (auto simp: run_step_def on_loop_def ctl_inv_def pc_agrees_def byte_ready_def
        dest: unlock_client_pc(1-3,5) split: if_splits intro: el_reach.step [OF _ el_step.release])
qed (use assms in \<open>simp_all add: run_step_def\<close>)

lemma ctl_inv_stop_step:
  assumes "ctl_inv s" "stop_step s = Some t"
  shows "ctl_inv t"
proof (cases "mainPc s")
  case StopSet
  with assms el_reach.step [OF _ el_step.request_stop, of "lp s"] show ?thesis
    by (auto simp: stop_step_def ctl_inv_def pc_agrees_def byte_ready_def)
next
  case StopCall
  with assms call_reach [of "lp s" main_thread] call_main_pc [of "lp s"] show ?thesis
    by (auto simp: stop_step_def ctl_inv_def pc_agrees_def byte_ready_def set_client_def)
next
  case StopAcquire
  show ?thesis
  proof (cases "clientPc (lp s) main_thread = CHolding")
    case True
    with StopAcquire assms show ?thesis
      by (auto simp: stop_step_def ctl_inv_def pc_agrees_def byte_ready_def)
  next
    case False
    with StopAcquire assms(2) obtain l where l: "acquire_step main_thread (lp s) = Some l" "t = s\<lparr>lp := l\<rparr>"
      by (auto simp: stop_step_def on_loop_def)
    note m = acquire_client_pc [OF l(1)]
    have "el_reach l" using assms(1) l(1) by (auto simp: ctl_inv_def intro: el_reach.step el_step.acquire)
    moreover have "byte_ready t"
      using assms(1) StopAcquire m(3,8) by (auto simp: ctl_inv_def byte_ready_def l(2))
    ultimately show ?thesis
      using assms(1) StopAcquire m(2-4) by (auto simp: ctl_inv_def pc_agrees_def l(2))
  qed
next
  case StopRelease
  with assms show ?thesis
    by (auto simp: stop_step_def on_loop_def ctl_inv_def pc_agrees_def byte_ready_def
        dest: unlock_client_pc(1-3,5) split: if_splits intro: el_reach.step [OF _ el_step.release])
qed (use assms in \<open>auto simp: stop_step_def ctl_inv_def pc_agrees_def byte_ready_def split: if_splits\<close>)

lemma loop_turn_cases:
  assumes "loop_turn ev rc s = Some t"
  obtains l where "loop_step (lp s) = Some l"
    "t = s\<lparr>lp := l, loopRunResult := (if loopPc (lp s) = LRun then rc else loopRunResult s)\<rparr>"
    "loopPc (lp s) = LRun \<Longrightarrow> ev \<or> 0 < wakeBytes (lp s)" "started s"
  using assms by (auto simp: loop_turn_def on_loop_def split: if_splits)

lemma ctl_inv_turn:
  assumes "ctl_inv s" "loop_turn ev rc s = Some t"
  shows "ctl_inv t"
proof -
  from assms(2) obtain l where l: "loop_step (lp s) = Some l"
    "t = s\<lparr>lp := l, loopRunResult := (if loopPc (lp s) = LRun then rc else loopRunResult s)\<rparr>"
    by (rule loop_turn_cases)
  note f = loop_step_frame [OF l(1)]
  have st: "stopping l = stopping (lp s)"
    using l(1) by (cases "loopPc (lp s)"; clarsimp simp: loop_step_def split: if_splits)
  have e: "el_reach l" using assms(1) l(1) by (auto simp: ctl_inv_def intro: el_reach.step el_step.loop)
  have pc: "pc_agrees t"
    using assms(1) l(1,2) f
    by (cases "mainPc s") (simp_all add: ctl_inv_def pc_agrees_def loop_step_def)
  have "byte_ready t"
    unfolding byte_ready_def
  proof (intro impI)
    assume c: "mainPc t = StopAcquire \<and> wrote_byte (clientPc (lp t) main_thread) \<or>
        mainPc t \<in> {StopLib, StopRelease, StopJoin}" and "loopPc (lp t) \<in> {LWantEntered, LRun}"
    then have "loopPc l = LWantEntered \<or> loopPc l = LRun" by (simp add: l(2))
    moreover have "stopping (lp s)"
    proof -
      from c have "in_stop (mainPc s)" by (auto simp: l(2))
      with assms(1) show ?thesis by (simp add: ctl_inv_def)
    qed
    ultimately have "loopPc (lp s) = LWantEntered" "wakeBytes l = wakeBytes (lp s)"
      using l(1) by (cases "loopPc (lp s)"; clarsimp simp: loop_step_def split: if_splits)+
    moreover have "byte_ready s" using assms(1) by (simp add: ctl_inv_def)
    ultimately show "0 < wakeBytes (lp t)" using c f by (auto simp: byte_ready_def l(2))
  qed
  with assms(1) e pc l(2) f st show ?thesis by (simp add: ctl_inv_def)
qed

text \<open>Another thread leaves the main thread and the loop thread where they are; it can only add a byte.\<close>

lemma other_cases:
  assumes "ctl_inv s" "other_call c s = Some t \<or> other_step c s = Some t"
  obtains l where "t = s\<lparr>lp := l\<rparr>" "el_reach l" "clientPc l main_thread = clientPc (lp s) main_thread"
    "loopPc l = loopPc (lp s)" "stopping l = stopping (lp s)" "wakeBytes (lp s) \<le> wakeBytes l"
proof (cases "other_call c s = Some t")
  case True
  let ?l = "snd (acquire_call c (lp s))"
  from True have c: "c \<noteq> main_thread" "clientPc (lp s) c = COut" "t = s\<lparr>lp := ?l\<rparr>"
    by (auto simp: other_call_def split: if_splits)
  have "el_reach ?l" using assms(1) c(2) by (simp add: ctl_inv_def call_reach)
  moreover have "clientPc ?l main_thread = clientPc (lp s) main_thread \<and> loopPc ?l = loopPc (lp s) \<and>
      stopping ?l = stopping (lp s) \<and> wakeBytes ?l = wakeBytes (lp s)"
    using c(1) by (simp add: acquire_call_def set_client_def)
  ultimately show thesis using c(3) by (intro that [of ?l]) simp_all
next
  case False
  with assms(2) obtain l where l: "c \<noteq> main_thread" "client_step c (lp s) = Some l" "t = s\<lparr>lp := l\<rparr>"
    by (auto simp: other_step_def on_loop_def split: if_splits)
  have "el_reach l" using assms(1) client_step_reach [OF _ l(2)] by (simp add: ctl_inv_def)
  moreover have "clientPc l main_thread = clientPc (lp s) main_thread"
    using l(1) by (subst client_step_pc(3) [OF l(2)]) simp
  ultimately show thesis using client_step_pc [OF l(2)] l(3) by (intro that [of l]) simp_all
qed

lemma ctl_inv_other:
  assumes "ctl_inv s" "other_call c s = Some t \<or> other_step c s = Some t"
  shows "ctl_inv t"
proof -
  from assms obtain l where l: "t = s\<lparr>lp := l\<rparr>" "el_reach l"
    "clientPc l main_thread = clientPc (lp s) main_thread" "loopPc l = loopPc (lp s)"
    "stopping l = stopping (lp s)" "wakeBytes (lp s) \<le> wakeBytes l"
    by (rule other_cases)
  have "pc_agrees t" using assms(1) l(1,3,4) by (cases "mainPc s") (simp_all add: ctl_inv_def pc_agrees_def)
  moreover have "byte_ready t"
  proof -
    have "byte_ready s" using assms(1) by (simp add: ctl_inv_def)
    moreover have "0 < wakeBytes (lp s) \<Longrightarrow> 0 < wakeBytes l" using l(6) by simp
    ultimately show ?thesis by (simp add: byte_ready_def l(1,3,4))
  qed
  ultimately show ?thesis using assms(1) l(1,2,5) by (simp add: ctl_inv_def)
qed

lemma ctl_inv_do: "ctl_inv s \<Longrightarrow> ctl_do e s = Some t \<Longrightarrow> ctl_inv t"
  by (auto simp: ctl_do_def split: ctl_event.splits if_splits option.splits
      intro: ctl_inv_run_call ctl_inv_stop_call ctl_inv_run_step ctl_inv_stop_step ctl_inv_turn ctl_inv_other)

lemma ctl_inv_reach: "ctl_reach s \<Longrightarrow> ctl_inv s"
  by (induction rule: ctl_reach.induct) (auto intro: ctl_inv_init ctl_inv_do)

subsection \<open>Stopping ends\<close>

primrec loop_left :: "loop_pc \<Rightarrow> nat" where
  "loop_left LCheck = 1" | "loop_left LWantEntered = 6" | "loop_left LRun = 5"
| "loop_left LLeave = 4" | "loop_left LWantExited = 3" | "loop_left LGotExited = 2"
| "loop_left LDone = 0"

fun main_left :: "main_pc \<Rightarrow> nat" where
  "main_left StopCall = 20" | "main_left StopAcquire = 9" | "main_left StopLib = 8"
| "main_left StopRelease = 2" | "main_left StopJoin = 1" | "main_left _ = 0"

text \<open>The steps the threads in the lock protocol still have to take.\<close>

definition clients_left :: "eloop \<Rightarrow> nat" where
  "clients_left l = (\<Sum>c | clientPc l c \<noteq> COut. client_left (clientPc l c))"

definition stop_rank :: "ctl \<Rightarrow> nat" where
  "stop_rank s = 3 * main_left (mainPc s) + 2 * clients_left (lp s) + loop_left (loopPc (lp s))"

definition few_clients :: "eloop \<Rightarrow> bool" where
  "few_clients l \<longleftrightarrow> finite {c. clientPc l c \<noteq> COut}"

lemma few_clients_upd:
  assumes "few_clients l" "clientPc l' = (clientPc l)(c := p)"
  shows "few_clients l'"
proof -
  have "{d. clientPc l' d \<noteq> COut} \<subseteq> insert c {d. clientPc l d \<noteq> COut}" using assms(2) by auto
  with assms(1) show ?thesis by (auto simp: few_clients_def intro: finite_subset)
qed

lemma few_clients_step: "el_step l l' \<Longrightarrow> few_clients l \<Longrightarrow> few_clients l'"
proof (induction rule: el_step.induct)
  case (loop s t)
  with loop_step_frame [OF loop.hyps] show ?case by (simp add: few_clients_def)
next
  case (call s c r t)
  then show ?case
    by (auto simp: acquire_call_def set_client_def split: if_splits intro: few_clients_upd)
next
  case (acquire c s t)
  from few_clients_upd [OF acquire.prems acquire_client_pc(5) [OF acquire.hyps]] show ?case .
next
  case (release c s t)
  from few_clients_upd [OF release.prems unlock_client_pc(4) [OF release.hyps]] show ?case .
next
  case (request_stop s)
  then show ?case by (simp add: few_clients_def)
qed

lemma few_clients_reach: "el_reach l \<Longrightarrow> few_clients l"
proof (rule el_invariant [of l few_clients])
  show "few_clients eloop_init" by (simp add: few_clients_def eloop_init_def)
qed (blast intro: few_clients_step)+

lemma clients_left_upd:
  assumes "few_clients l" "clientPc l' = (clientPc l)(c := p)"
  shows "clients_left l' + client_left (clientPc l c) = clients_left l + client_left p"
proof -
  let ?C = "insert c {d. clientPc l d \<noteq> COut}"
  have f: "finite ?C" using assms(1) by (simp add: few_clients_def)
  have "clients_left l = (\<Sum>d\<in>?C. client_left (clientPc l d))"
    unfolding clients_left_def by (rule sum.mono_neutral_left [OF f]) auto
  moreover have "clients_left l' = (\<Sum>d\<in>?C. client_left (clientPc l' d))"
    unfolding clients_left_def by (rule sum.mono_neutral_left [OF f]) (use assms(2) in auto)
  moreover have "(\<Sum>d\<in>?C - {c}. client_left (clientPc l' d)) = (\<Sum>d\<in>?C - {c}. client_left (clientPc l d))"
    by (rule sum.cong) (use assms(2) in auto)
  ultimately show ?thesis
    using assms(2) by (simp add: sum.remove [OF f, of c])
qed

lemma client_step_left:
  assumes "el_reach l" "client_step c l = Some l'"
  shows "clients_left l' < clients_left l \<or> l' = l \<and> pipe_full c l"
  using clients_left_upd [OF few_clients_reach [OF assms(1)] client_step_pc(3) [OF assms(2)]]
    client_step_pc(5) [OF assms(2)] by linarith

text \<open>A thread that holds a mutex can move, or the loop thread can.\<close>

lemma holder_can_move:
  assumes "el_reach l" "exitedLock l = Some d" "d \<noteq> loop_thread"
  shows "client_step d l \<noteq> None \<or> loopPc l = LRun \<and> 0 < wakeBytes l \<or> loopPc l = LLeave"
proof -
  have "holds_exited (clientPc l d)"
    using locks_agreeD(2) [OF locks_agree_reach [OF assms(1)] assms(3)] assms(2) by (simp add: client_agrees_def)
  then show ?thesis
  proof (cases "clientPc l d")
    case CWantEntered
    from event_loop_acquire_progress [OF assms(1) this] show ?thesis by (auto simp: client_step_def)
  qed (simp_all add: client_step_def acquire_step_def unlock_event_loop_step_def split: option.split)
qed

lemma entered_can_move:
  assumes "el_reach l" "enteredLock l = Some d" "d \<noteq> loop_thread"
  shows "client_step d l \<noteq> None \<and> clientPc l d = CGotEntered"
  using locks_agreeD(2) [OF locks_agree_reach [OF assms(1)] assms(3)] assms(2)
  by (simp add: client_agrees_def client_step_def acquire_step_def)

lemma loop_holds:
  assumes "el_reach l"
  shows "exitedLock l = Some loop_thread \<longleftrightarrow> loopPc l = LGotExited"
    "enteredLock l = Some loop_thread \<longleftrightarrow> loopPc l = LRun \<or> loopPc l = LLeave"
  using locks_agreeD(1) [OF locks_agree_reach [OF assms]] by (simp_all add: loop_agrees_def)

text \<open>
  While the main thread waits in \<open>stop\<close>, the loop thread can move, without any event, or another
  thread that is in the lock protocol.
\<close>

lemma exited_not_stuck:
  assumes "el_reach (lp s)" "started s" "exitedLock (lp s) = Some d"
    and "clientPc (lp s) main_thread \<in> {COut, CWantExited}"
  shows "loop_turn False rc s \<noteq> None \<or> other_step d s \<noteq> None"
proof (cases "d = loop_thread")
  case True
  with assms(2,3) loop_holds(1) [OF assms(1)] show ?thesis
    by (simp add: loop_turn_def on_loop_def loop_step_def)
next
  case False
  then have "d \<noteq> main_thread"
    using locks_agreeD(2) [OF locks_agree_reach [OF assms(1)] False] assms(3,4) by (auto simp: client_agrees_def)
  with holder_can_move [OF assms(1,3) False] assms(2) show ?thesis
    by (auto simp: other_step_def loop_turn_def on_loop_def loop_step_def)
qed

lemma stop_not_stuck:
  assumes "ctl_inv s" "in_stop (mainPc s)"
  shows "stop_step s \<noteq> None \<or> loop_turn False rc s \<noteq> None \<or> (\<exists>c. other_step c s \<noteq> None)"
proof (cases "mainPc s")
  case StopAcquire
  let ?p = "clientPc (lp s) main_thread"
  have st: "started s" "acquiring ?p" "el_reach (lp s)"
    using assms(1) StopAcquire by (auto simp: ctl_inv_def pc_agrees_def)
  consider "?p = CWantExited" | "?p = CWantEntered" | "?p = CSetOwner" | "?p = CWrite"
    | "?p = CGotEntered" | "?p = CHolding"
    using st(2) by (cases ?p) auto
  then show ?thesis
  proof cases
    case 1
    show ?thesis
    proof (cases "exitedLock (lp s)")
      case None
      with 1 StopAcquire show ?thesis by (simp add: stop_step_def on_loop_def acquire_step_def)
    next
      case (Some d)
      from exited_not_stuck [OF st(3,1) Some] 1 show ?thesis by blast
    qed
  next
    case 2
    from event_loop_acquire_progress [OF st(3) 2] 2 StopAcquire st(1) show ?thesis
      by (auto simp: stop_step_def on_loop_def loop_turn_def loop_step_def)
  qed (use StopAcquire in \<open>auto simp: stop_step_def on_loop_def acquire_step_def split: option.split\<close>)
next
  case StopRelease
  with assms(1) show ?thesis
    by (auto simp: ctl_inv_def pc_agrees_def Let_def stop_step_def on_loop_def unlock_event_loop_step_def)
next
  case StopJoin
  have st: "started s" "clientPc (lp s) main_thread = COut" "byte_ready s" "el_reach (lp s)"
    using assms StopJoin by (auto simp: ctl_inv_def pc_agrees_def)
  show ?thesis
  proof (cases "loopPc (lp s)")
    case LDone
    with StopJoin show ?thesis by (simp add: stop_step_def)
  next
    case LWantEntered
    show ?thesis
    proof (cases "enteredLock (lp s)")
      case None
      with LWantEntered st(1) show ?thesis by (simp add: loop_turn_def on_loop_def loop_step_def)
    next
      case (Some d)
      with LWantEntered loop_holds(2) [OF st(4)] have "d \<noteq> loop_thread" by auto
      from entered_can_move [OF st(4) Some this] st(2) have "other_step d s \<noteq> None"
        by (auto simp: other_step_def on_loop_def)
      then show ?thesis by blast
    qed
  next
    case LRun
    with st StopJoin show ?thesis by (simp add: byte_ready_def loop_turn_def on_loop_def loop_step_def)
  next
    case LWantExited
    show ?thesis
    proof (cases "exitedLock (lp s)")
      case None
      with LWantExited st(1) show ?thesis by (simp add: loop_turn_def on_loop_def loop_step_def)
    next
      case (Some d)
      from exited_not_stuck [OF st(4,1) Some] st(2) show ?thesis by blast
    qed
  qed (use st in \<open>simp_all add: loop_turn_def on_loop_def loop_step_def\<close>)
qed (use assms(2) in \<open>simp_all add: stop_step_def\<close>)

lemma stop_step_rank:
  assumes "ctl_inv s" "stop_step s = Some t" "in_stop (mainPc s)"
  shows "stop_rank t < stop_rank s \<or> t = s \<and> pipe_full main_thread (lp s)"
proof (cases "mainPc s")
  case StopCall
  with assms(1) have e: "el_reach (lp s)" "clientPc (lp s) main_thread = COut"
    by (simp_all add: ctl_inv_def pc_agrees_def)
  let ?l = "set_client main_thread CWantExited (lp s)"
  from StopCall assms(2) call_main_pc [OF e] have t: "t = s\<lparr>lp := ?l, mainPc := StopAcquire\<rparr>"
    by (simp add: stop_step_def)
  have "clients_left ?l = clients_left (lp s) + 7"
    using clients_left_upd [OF few_clients_reach [OF e(1)], of ?l main_thread CWantExited] e(2)
    by (simp add: set_client_def)
  with StopCall t show ?thesis by (simp add: stop_rank_def set_client_def)
next
  case StopAcquire
  show ?thesis
  proof (cases "clientPc (lp s) main_thread = CHolding")
    case True
    with StopAcquire assms(2) show ?thesis by (auto simp: stop_step_def stop_rank_def)
  next
    case False
    with StopAcquire assms(2) obtain l where "acquire_step main_thread (lp s) = Some l" and t: "t = s\<lparr>lp := l\<rparr>"
      by (auto simp: stop_step_def on_loop_def)
    then have l: "client_step main_thread (lp s) = Some l" by (simp add: client_step_def)
    have "el_reach (lp s)" using assms(1) by (simp add: ctl_inv_def)
    with client_step_left [OF _ l] client_step_pc(1) [OF l] t show ?thesis by (auto simp: stop_rank_def)
  qed
next
  case StopRelease
  show ?thesis
  proof (cases "clientPc (lp s) main_thread = COut")
    case True
    with StopRelease assms(2) show ?thesis by (auto simp: stop_step_def stop_rank_def)
  next
    case False
    with StopRelease assms(2) obtain l where u: "unlock_event_loop_step main_thread (lp s) = Some l"
      and t: "t = s\<lparr>lp := l\<rparr>"
      by (auto simp: stop_step_def on_loop_def)
    from u have "acquire_step main_thread (lp s) = None"
      by (cases "clientPc (lp s) main_thread") (simp_all add: acquire_step_def unlock_event_loop_step_def)
    with u have l: "client_step main_thread (lp s) = Some l" by (simp add: client_step_def)
    have "el_reach (lp s)" using assms(1) by (simp add: ctl_inv_def)
    with client_step_left [OF _ l] client_step_pc(1) [OF l] t show ?thesis by (auto simp: stop_rank_def)
  qed
qed (use assms(2,3) in \<open>auto simp: stop_step_def stop_rank_def split: if_splits\<close>)

lemma loop_turn_rank:
  assumes "ctl_inv s" "loop_turn ev rc s = Some t" "in_stop (mainPc s)"
  shows "stop_rank t < stop_rank s"
proof -
  from assms(2) obtain l where l: "loop_step (lp s) = Some l"
    "t = s\<lparr>lp := l, loopRunResult := (if loopPc (lp s) = LRun then rc else loopRunResult s)\<rparr>"
    by (rule loop_turn_cases)
  have "stopping (lp s)" using assms(1,3) by (simp add: ctl_inv_def)
  with l(1) have "loop_left (loopPc l) < loop_left (loopPc (lp s))"
    by (cases "loopPc (lp s)"; clarsimp simp: loop_step_def split: if_splits)
  moreover have "clients_left l = clients_left (lp s)"
    using loop_step_frame [OF l(1)] by (simp add: clients_left_def)
  ultimately show ?thesis using l(2) by (simp add: stop_rank_def)
qed

lemma other_step_rank:
  assumes "ctl_inv s" "other_step c s = Some t"
  shows "stop_rank t < stop_rank s \<or> t = s \<and> pipe_full c (lp s)"
proof -
  from assms(2) obtain l where l: "client_step c (lp s) = Some l" "t = s\<lparr>lp := l\<rparr>"
    by (auto simp: other_step_def on_loop_def split: if_splits)
  have "el_reach (lp s)" using assms(1) by (simp add: ctl_inv_def)
  with client_step_left [OF _ l(1)] client_step_pc(1) [OF l(1)] l(2) show ?thesis by (auto simp: stop_rank_def)
qed

text \<open>
  The pipe is jammed when a thread has to write while the pipe is full and the loop thread, which would
  read it, has ended or waits for the mutex that the writer holds.
\<close>

definition pipe_jam :: "thread \<Rightarrow> eloop \<Rightarrow> bool" where
  "pipe_jam c l \<longleftrightarrow> pipe_full c l \<and> (loopPc l = LDone \<or> loopPc l = LWantExited)"

text \<open>Otherwise the loop thread can go on while a writer tries again and again.\<close>

lemma full_pipe_moves:
  assumes "ctl_inv s" "in_stop (mainPc s)" "pipe_full c (lp s)" "\<not> pipe_jam c (lp s)"
  shows "loop_turn False rc s \<noteq> None"
proof -
  from assms(1) have e: "el_reach (lp s)" by (simp add: ctl_inv_def)
  from assms(1,2) have st: "started s" by (cases "mainPc s") (auto simp: ctl_inv_def pc_agrees_def Let_def)
  note a = locks_agree_reach [OF e]
  from assms(3) have c: "clientPc (lp s) c = CWrite" "0 < wakeBytes (lp s)"
    using pipe_capacity_pos by (auto simp: pipe_full_def simp del: pipe_capacity_pos)
  note h = holder_exited [OF a, of c]
  show ?thesis
  proof (cases "loopPc (lp s)")
    case LWantEntered
    have "enteredLock (lp s) = None"
    proof (rule ccontr)
      assume "enteredLock (lp s) \<noteq> None"
      then obtain d where d: "enteredLock (lp s) = Some d" by blast
      with LWantEntered loop_holds(2) [OF e] have "d \<noteq> loop_thread" by auto
      with entered_can_move [OF e d] have "clientPc (lp s) d = CGotEntered" by simp
      with holder_exited [OF a, of d] h c show False by auto
    qed
    with LWantEntered st show ?thesis by (simp add: loop_turn_def on_loop_def loop_step_def)
  next
    case LGotExited
    with loop_holds(1) [OF e] h c show ?thesis by auto
  qed (use st c assms(3,4) in \<open>simp_all add: loop_turn_def on_loop_def loop_step_def pipe_jam_def\<close>)
qed

text \<open>A jam lasts.\<close>

lemma pipe_jam_stays:
  assumes "ctl_inv s" "pipe_jam c (lp s)" "ctl_do e s = Some t"
  shows "pipe_jam c (lp t)"
proof -
  from assms(1) have e: "el_reach (lp s)" by (simp add: ctl_inv_def)
  note a = locks_agree_reach [OF e]
  from assms(2) have c: "clientPc (lp s) c = CWrite" "pipe_capacity \<le> wakeBytes (lp s)"
    "loopPc (lp s) = LDone \<or> loopPc (lp s) = LWantExited"
    by (auto simp: pipe_jam_def pipe_full_def)
  have x: "exitedLock (lp s) = Some c" "c \<noteq> loop_thread" using holder_exited [OF a, of c] c(1) by simp_all
  have others: "\<not> holds_exited (clientPc (lp s) d)" if "d \<noteq> c" for d
    using holder_exited [OF a, of d] x that by auto
  have self: "l' = lp s" if "acquire_step d (lp s) = Some l'" for d l'
    using that c(1,2) x(1) others [of d]
    by (cases "d = c"; cases "clientPc (lp s) d") (simp_all add: acquire_step_def try_write_def)
  have none: "unlock_event_loop_step d (lp s) = None" for d
    using c(1) others [of d] by (cases "d = c"; cases "clientPc (lp s) d") (simp_all add: unlock_event_loop_step_def)
  have call: "pipe_jam c (snd (acquire_call d (lp s)))" if "clientPc (lp s) d = COut" for d
    using assms(2) c(1) that by (auto simp: pipe_jam_def pipe_full_def acquire_call_def set_client_def)
  have main: "created s \<Longrightarrow> mainPc s \<noteq> StopCall \<or> clientPc (lp s) main_thread = COut"
    "may_run (mainPc s) \<Longrightarrow> clientPc (lp s) main_thread = COut"
    using assms(1) by (cases "mainPc s"; auto simp: ctl_inv_def pc_agrees_def Let_def)+
  from assms(3) show ?thesis
  proof (cases e)
    case (Run ok)
    with assms(2,3) main(2) call show ?thesis by (auto simp: ctl_do_def run_call_def split: if_splits)
  next
    case Stop
    with assms(2,3) show ?thesis by (auto simp: ctl_do_def stop_call_def split: if_splits)
  next
    case Main
    show ?thesis
    proof (cases "run_step s")
      case None
      with Main assms(3) have st: "stop_step s = Some t" by (simp add: ctl_do_def)
      show ?thesis
      proof (cases "mainPc s")
        case StopCall
        with assms(1) have "clientPc (lp s) main_thread = COut" by (simp add: ctl_inv_def pc_agrees_def)
        with st StopCall call show ?thesis by (auto simp: stop_step_def)
      next
        case StopSet
        with st assms(2) show ?thesis by (auto simp: stop_step_def pipe_jam_def pipe_full_def)
      qed (use st assms(2) none in \<open>auto simp: stop_step_def on_loop_def split: if_splits dest: self\<close>)
    next
      case (Some u)
      with Main assms(3) have "run_step s = Some t" by (simp add: ctl_do_def)
      with assms(2) none show ?thesis
        by (cases "mainPc s") (auto simp: run_step_def on_loop_def split: if_splits dest: self)
    qed
  next
    case (Turn ev rc)
    with assms(3) c(3) x(1) show ?thesis
      by (auto simp: ctl_do_def loop_turn_def on_loop_def loop_step_def split: if_splits)
  next
    case (OtherCall d)
    with assms(3) call show ?thesis by (auto simp: ctl_do_def other_call_def split: if_splits)
  next
    case (OtherStep d)
    with assms(2,3) none show ?thesis
      by (auto simp: ctl_do_def other_step_def on_loop_def client_step_def split: if_splits option.splits dest: self)
  qed
qed

subsection \<open>Creating libuv objects\<close>

text \<open>
  \<open>createTcpSocket\<close> and \<open>createAddrInfoReq\<close>: the lock object that \<open>acquireEventLoopLock\<close> returns is not
  kept, so that it is destroyed before the object is created.
\<close>

datatype create_pc =
    CreateCall       \<comment> \<open>the assertion and the call of \<open>acquireEventLoopLock\<close>\<close>
  | CreateAcquire
  | CreateRelease    \<comment> \<open>the destructor of the unnamed lock object\<close>
  | CreateObject     \<comment> \<open>\<open>uvwEventLoop->resource\<close>\<close>
  | CreateDone

definition create_step :: "thread \<Rightarrow> create_pc \<times> eloop \<Rightarrow> (create_pc \<times> eloop) option" where
  "create_step me k =
     (case k of (pc, s) \<Rightarrow>
       (case pc of
          CreateCall \<Rightarrow>
            (case acquire_call me s of
               (Some l, t) \<Rightarrow> Some (CreateObject, t)
             | (None, t) \<Rightarrow> Some (CreateAcquire, t))
        | CreateAcquire \<Rightarrow>
            if clientPc s me = CHolding then Some (CreateRelease, s)
            else map_option (Pair CreateAcquire) (acquire_step me s)
        | CreateRelease \<Rightarrow>
            if clientPc s me = COut then Some (CreateObject, s)
            else map_option (Pair CreateRelease) (unlock_event_loop_step me s)
        | CreateObject \<Rightarrow> Some (CreateDone, s)
        | CreateDone \<Rightarrow> None))"

text \<open>The creating thread and whatever the others do in between.\<close>

inductive create_run :: "thread \<Rightarrow> create_pc \<times> eloop \<Rightarrow> create_pc \<times> eloop \<Rightarrow> bool" for me k where
  refl: "create_run me k k"
| own: "create_run me k k' \<Longrightarrow> create_step me k' = Some k'' \<Longrightarrow> create_run me k k''"
| other: "create_run me k (pc, s) \<Longrightarrow> el_step s t \<Longrightarrow> clientPc t me = clientPc s me \<Longrightarrow>
    create_run me k (pc, t)"

lemma create_step_reach:
  assumes "create_step me (pc, s) = Some (pc', t)" "el_reach s" "pc = CreateCall \<Longrightarrow> clientPc s me = COut \<or> t = s"
  shows "el_reach t"
proof (cases pc)
  case CreateCall
  show ?thesis
  proof (cases "clientPc s me = COut")
    case True
    obtain r u where c: "acquire_call me s = (r, u)" by fastforce
    with CreateCall assms(1) have "u = t" by (auto simp: create_step_def split: option.splits)
    with el_reach.step [OF assms(2) el_step.call [OF True c]] show ?thesis by simp
  qed (use CreateCall assms in auto)
qed (use assms(1,2) in \<open>auto simp: create_step_def split: if_splits
    intro: el_reach.step [OF _ el_step.acquire] el_reach.step [OF _ el_step.release]\<close>)

text \<open>A thread without the lock creates the object without it, one that owns it keeps it.\<close>

lemma create_run_inv:
  assumes "create_run me (CreateCall, s) k" "el_reach s" "me \<noteq> loop_thread"
    and "clientPc s me = COut \<or> clientPc s me = CHolding"
  shows "el_reach (snd k) \<and>
    (case fst k of
       CreateCall \<Rightarrow> clientPc (snd k) me = clientPc s me
     | CreateAcquire \<Rightarrow> clientPc s me = COut \<and> acquiring (clientPc (snd k) me)
     | CreateRelease \<Rightarrow> clientPc s me = COut \<and> clientPc (snd k) me \<in> {CHolding, CUnlock, COut}
     | _ \<Rightarrow> clientPc (snd k) me = clientPc s me)"
  using assms(1)
proof induction
  case refl
  then show ?case by (simp add: assms(2))
next
  case (own k' k'')
  obtain pc u pc' t where k: "k' = (pc, u)" "k'' = (pc', t)" by fastforce
  note i = own.IH [unfolded k, simplified]
  have n: "nested_acquire me u \<longleftrightarrow> is_owner (clientPc u me)"
    using acquire_nested_iff [OF locks_agree_reach assms(3)] i by blast
  have st: "create_step me (pc, u) = Some (pc', t)" using own.hyps(2) by (simp add: k)
  have "pc = CreateCall \<Longrightarrow> clientPc u me = COut \<or> t = u"
    using i st n assms(4) by (auto simp: create_step_def acquire_call_def)
  with i have "el_reach t" by (intro create_step_reach [OF st]) simp_all
  with i st n assms(4) show ?case
    by (cases pc; cases "clientPc u me")
      (auto simp: k create_step_def acquire_call_def acquire_step_def try_write_def unlock_event_loop_step_def
        set_client_def split: if_splits)
next
  case (other pc u t)
  then show ?case by (cases pc) (auto intro: el_reach.step)
qed

subsection \<open>Properties\<close>


text \<open>A start, one turn of the loop up to \<open>run(ONCE)\<close>, and the beginning of \<open>stop\<close>.\<close>

definition stopping_events :: "ctl_event list" where
  "stopping_events =
     [Run True, Main, Main, Main, Main, Main, Main, Main, Main, Main, Turn False 0, Turn False 0,
      Stop, Main, Main]"

lemma stopping_exec:
  "\<exists>s. ctl_exec stopping_events ctl_init = Some s \<and> mainPc s = StopAcquire \<and> loopPc (lp s) = LRun"
  by (simp add: stopping_events_def ctl_init_def ctl_do_def run_call_def run_step_def stop_call_def loop_alive_def
      stop_step_def loop_turn_def on_loop_def el_run_simps main_thread_def)


text \<open>
  New calls can delay it: the mutexes are not fair, and after the loop thread has ended another thread
  can acquire and release the lock again and again while \<open>stop\<close> waits for it.  Each time it leaves a byte
  in the pipe that nobody reads any more.
\<close>

definition overtaking :: "ctl_event list" where
  "overtaking = OtherCall 2 # replicate 7 (OtherStep 2)"

definition waits_in_stop :: "nat \<Rightarrow> ctl \<Rightarrow> bool" where
  "waits_in_stop n s \<longleftrightarrow>
     ctl_reach s \<and> mainPc s = StopAcquire \<and> created s \<and> loopPc (lp s) = LDone \<and>
     clientPc (lp s) main_thread = CWantExited \<and> clientPc (lp s) 2 = COut \<and>
     exitedLock (lp s) = None \<and> enteredLock (lp s) = None \<and> lockOwner (lp s) = None \<and> wakeBytes (lp s) = n"

lemma overtaking_once:
  assumes "waits_in_stop n s" "n < pipe_capacity"
  shows "\<exists>t. ctl_exec overtaking s = Some t \<and> waits_in_stop (Suc n) t"
proof -
  have "\<exists>t. ctl_exec overtaking s = Some t \<and> mainPc t = StopAcquire \<and> created t \<and> loopPc (lp t) = LDone \<and>
     clientPc (lp t) main_thread = CWantExited \<and> clientPc (lp t) 2 = COut \<and>
     exitedLock (lp t) = None \<and> enteredLock (lp t) = None \<and> lockOwner (lp t) = None \<and> wakeBytes (lp t) = Suc n"
    using assms
    by (simp add: waits_in_stop_def overtaking_def eval_nat_numeral ctl_do_def other_call_def other_step_def
        loop_alive_def client_step_def on_loop_def main_thread_def loop_thread_def el_ops)
  then obtain t where t: "ctl_exec overtaking s = Some t" "mainPc t = StopAcquire" "created t"
    "loopPc (lp t) = LDone" "clientPc (lp t) main_thread = CWantExited" "clientPc (lp t) 2 = COut"
    "exitedLock (lp t) = None" "enteredLock (lp t) = None" "lockOwner (lp t) = None"
    "wakeBytes (lp t) = Suc n" by blast
  with assms ctl_exec_reach [OF t(1)] show ?thesis by (auto simp: waits_in_stop_def)
qed

lemma overtaking_often:
  "waits_in_stop k s \<Longrightarrow> k + n \<le> pipe_capacity \<Longrightarrow>
     \<exists>t. ctl_exec (concat (replicate n overtaking)) s = Some t \<and> waits_in_stop (k + n) t"
proof (induction n arbitrary: k s)
  case (Suc n)
  then obtain u where u: "ctl_exec overtaking s = Some u" "waits_in_stop (Suc k) u"
    using overtaking_once [of k s] by auto
  from Suc.IH [OF u(2)] Suc.prems(2) u(1) show ?case by (auto simp: ctl_exec_append)
qed simp

definition stop_waiting :: "ctl_event list" where
  "stop_waiting =
     [Run True] @ replicate 9 Main @ [Turn False 0, Turn False 0, Stop, Main, Turn True 0, Turn False 0,
      Turn False 0, Turn False 0, Turn False 0, Main]"

lemma stop_waits: "\<exists>s. ctl_exec stop_waiting ctl_init = Some s \<and> waits_in_stop 0 s"
proof -
  have "\<exists>s. ctl_exec stop_waiting ctl_init = Some s \<and> mainPc s = StopAcquire \<and> created s \<and>
     loopPc (lp s) = LDone \<and> clientPc (lp s) main_thread = CWantExited \<and> clientPc (lp s) 2 = COut \<and>
     exitedLock (lp s) = None \<and> enteredLock (lp s) = None \<and> lockOwner (lp s) = None \<and> wakeBytes (lp s) = 0"
    by (simp add: stop_waiting_def ctl_init_def ctl_do_def run_call_def run_step_def stop_call_def loop_alive_def
        stop_step_def loop_turn_def on_loop_def el_run_simps main_thread_def eval_nat_numeral)
  then show ?thesis
    using ctl_exec_reach [OF _ ctl_reach.init, of stop_waiting] by (auto simp: waits_in_stop_def)
qed

text \<open>
  After as many calls as the pipe has room for, \<open>stop\<close> finds the pipe full: it is jammed, and \<open>stop\<close> never
  returns.
\<close>

lemma stop_jammed:
  "\<exists>s. ctl_exec (stop_waiting @ concat (replicate pipe_capacity overtaking) @ [Main, Main]) ctl_init = Some s \<and>
     pipe_jam main_thread (lp s) \<and> mainPc s = StopAcquire \<and> ctl_do Main s = Some s"
proof -
  obtain s where s: "ctl_exec stop_waiting ctl_init = Some s" "waits_in_stop 0 s" using stop_waits by blast
  obtain t where t: "ctl_exec (concat (replicate pipe_capacity overtaking)) s = Some t"
    "waits_in_stop pipe_capacity t"
    using overtaking_often [OF s(2), of pipe_capacity] by auto
  from t(2) obtain u where "ctl_exec [Main, Main] t = Some u" "pipe_jam main_thread (lp u)"
    "mainPc u = StopAcquire" "ctl_do Main u = Some u"
    by (simp add: waits_in_stop_def ctl_do_def run_step_def stop_step_def on_loop_def acquire_step_def set_client_def
        try_write_def pipe_jam_def pipe_full_def)
  with s(1) t(1) show ?thesis by (auto simp: ctl_exec_append)
qed

text \<open>
  What \<open>stop\<close> leaves behind.  When it has returned, the loop thread has ended and can do nothing
  more, neither it nor the stopping thread holds a mutex or is recorded as the owner (if no other thread
  uses the lock, both mutexes and the owner field are free), and the result is the one of the last
  \<open>run(ONCE)\<close>.  The object cannot be used again: \<open>uvwEventLoop\<close> is still set, and a second \<open>run\<close>
  fails its assertion.
\<close>

lemma event_loop_stopped:
  assumes "ctl_reach s" "mainPc s = StopReturned r"
  shows "loopPc (lp s) = LDone \<and> ctl_do (Turn ev rc) s = None \<and> r = loopRunResult s \<and>
    (\<forall>m\<in>{enteredLock (lp s), exitedLock (lp s), lockOwner (lp s)}. m \<noteq> Some main_thread \<and> m \<noteq> Some loop_thread) \<and>
    ((\<forall>c. clientPc (lp s) c = COut) \<longrightarrow>
      enteredLock (lp s) = None \<and> exitedLock (lp s) = None \<and> lockOwner (lp s) = None) \<and>
    mainPc (run_call ok s) = MAborted ''event loop re-entrance detected''"
proof -
  have i: "ctl_inv s" using ctl_inv_reach [OF assms(1)] .
  then have p: "created s" "started s" "clientPc (lp s) main_thread = COut" "loopPc (lp s) = LDone"
    "r = loopRunResult s" "el_reach (lp s)"
    using assms(2) by (auto simp: ctl_inv_def pc_agrees_def Let_def)
  note a = locks_agree_reach [OF p(6)]
  have free: "enteredLock (lp s) \<noteq> Some c \<and> exitedLock (lp s) \<noteq> Some c \<and> lockOwner (lp s) \<noteq> Some c"
    if "clientPc (lp s) c = COut" for c
  proof (cases "c = loop_thread")
    case True
    with locks_agreeD(1) [OF a] p(4) show ?thesis by (simp add: loop_agrees_def)
  next
    case False
    from locks_agreeD(2) [OF a False] that show ?thesis by (simp add: client_agrees_def)
  qed
  have "clientPc (lp s) loop_thread = COut" using locks_agreeD(1) [OF a] by (simp add: loop_agrees_def)
  with free p(3) have "\<forall>m\<in>{enteredLock (lp s), exitedLock (lp s), lockOwner (lp s)}.
      m \<noteq> Some main_thread \<and> m \<noteq> Some loop_thread" by auto
  moreover have "enteredLock (lp s) = None \<and> exitedLock (lp s) = None \<and> lockOwner (lp s) = None"
    if "\<forall>c. clientPc (lp s) c = COut"
    using free that by (metis not_None_eq)
  ultimately show ?thesis
    using p by (simp add: ctl_do_def loop_turn_def on_loop_def loop_step_def run_call_def)
qed

lemma event_loop_stopped_witness:
  "\<exists>s. ctl_exec (stopping_events @ [Main, Main, Main, Turn False 7, Turn False 0, Main, Main, Main,
       Main, Main, Main, Main, Turn False 0, Turn False 0, Turn False 0, Main]) ctl_init = Some s \<and>
     mainPc s = StopReturned 7 \<and> exitedLock (lp s) \<noteq> Some main_thread"
proof -
  let ?es = "stopping_events @ [Main, Main, Main, Turn False 7, Turn False 0, Main, Main, Main,
       Main, Main, Main, Main, Turn False 0, Turn False 0, Turn False 0, Main]"
  obtain s where s: "ctl_exec ?es ctl_init = Some s" "mainPc s = StopReturned 7"
    by (simp add: stopping_events_def ctl_init_def ctl_do_def run_call_def run_step_def stop_call_def loop_alive_def
        stop_step_def loop_turn_def on_loop_def el_run_simps main_thread_def)
  with event_loop_stopped [OF ctl_exec_reach [OF s(1) ctl_reach.init] s(2)] show ?thesis by blast
qed

text \<open>
  \<open>createTcpSocket\<close> and \<open>createAddrInfoReq\<close> do not protect what they create.  A thread that does
  not hold the loop lock calls them, whatever other threads do meanwhile: at the moment the libuv
  object is created it does not hold the lock, which it has acquired and released just before.  Only
  a caller that already holds the lock still holds it then.
\<close>

lemma create_without_lock:
  assumes "create_run me (CreateCall, s) (CreateObject, t)" "el_reach s" "me \<noteq> loop_thread"
    and "clientPc s me = COut \<or> clientPc s me = CHolding"
  shows "(exitedLock t = Some me) = (clientPc s me = CHolding) \<and>
    (lockOwner t = Some me) = (clientPc s me = CHolding)"
proof -
  from create_run_inv [OF assms] have t: "el_reach t" "clientPc t me = clientPc s me" by simp_all
  from locks_agreeD(2) [OF locks_agree_reach [OF t(1)] assms(3)] t(2) assms(4) show ?thesis
    by (auto simp: client_agrees_def)
qed

lemma create_without_lock_witness:
  "\<exists>t. create_run 1 (CreateCall, eloop_init) (CreateObject, t) \<and> exitedLock t \<noteq> Some 1"
proof -
  let ?k = "(CreateCall, eloop_init)"
  obtain t1 where "create_step 1 ?k = Some (CreateAcquire, t1)" "clientPc t1 1 = CWantExited"
    by (simp add: create_step_def el_run_simps)
  let ?f = "\<lambda>k. the (create_step 1 k)"
  have "\<exists>t. (?f ^^ 10) ?k = (CreateObject, t) \<and> (\<forall>n<10. create_step 1 ((?f ^^ n) ?k) \<noteq> None)"
    by (simp add: create_step_def el_run_simps eval_nat_numeral All_less_Suc)
  then obtain t where t: "(?f ^^ 10) ?k = (CreateObject, t)"
    "\<forall>n<10. create_step 1 ((?f ^^ n) ?k) \<noteq> None" by blast
  have "create_run 1 ?k ((?f ^^ n) ?k)" if "n \<le> 10" for n
    using that
  proof (induction n)
    case (Suc n)
    with t(2) have "create_step 1 ((?f ^^ n) ?k) = Some ((?f ^^ Suc n) ?k)" by auto
    with Suc show ?case by (auto intro: create_run.own)
  qed (simp add: create_run.refl)
  from this [of 10] t(1) have r: "create_run 1 ?k (CreateObject, t)" by simp
  with create_without_lock [OF r el_reach.init] show ?thesis
    by (auto simp: eloop_init_def loop_thread_def)
qed

end
