(* ===== verification/Sockets.thy ===== *)
theory Sockets
  imports Promises
begin

section \<open>The plain socket transport\<close>

text \<open>
  \<open>transport/PlainSocketTransport.h\<close> and \<open>.cpp\<close>.  A coroutine that reads registers a destination
  and its own handle and suspends; the callbacks of the event loop fill the destination as data
  arrive and resume the reader when it is full, or leave a \<open>ClosedTransportException\<close> in its promise.
  The model keeps the fields of the object, the two flags of the TCP handle the code depends on
  (\<open>reading\<close>, \<open>closing\<close>), the memory the destinations point into, and the promises of the reading
  coroutines.  \<open>to_resume\<close> lists the calls of \<open>scheduleCoroutineResume\<close>; \<open>begun\<close> is a ghost: the
  reads that suspended, in order.  The error codes of libuv are parameters.
\<close>

subsection \<open>Memory\<close>

definition store_bytes :: "nat \<Rightarrow> bytes \<Rightarrow> (nat \<Rightarrow> u8) \<Rightarrow> nat \<Rightarrow> u8" where
  "store_bytes p bs m = (\<lambda>a. if p \<le> a \<and> a < p + length bs then bs ! (a - p) else m a)"

definition load_bytes :: "nat \<Rightarrow> nat \<Rightarrow> (nat \<Rightarrow> u8) \<Rightarrow> bytes" where
  "load_bytes p n m = map (\<lambda>i. m (p + i)) [0..<n]"

lemma store_bytes_Nil [simp]: "store_bytes p [] m = m"
  by (rule ext) (auto simp: store_bytes_def)

lemma store_bytes_append:
  "store_bytes (p + length as) bs (store_bytes p as m) = store_bytes p (as @ bs) m"
  by (rule ext) (auto simp: store_bytes_def nth_append diff_diff_left)

lemma load_store_bytes [simp]: "n = length bs \<Longrightarrow> load_bytes p n (store_bytes p bs m) = bs"
  by (rule nth_equalityI) (simp_all add: load_bytes_def store_bytes_def)

lemma store_bytes_outside: "store_bytes p bs m a \<noteq> m a \<Longrightarrow> p \<le> a \<and> a < p + length bs"
  by (auto simp: store_bytes_def split: if_splits)

subsection \<open>State and operations\<close>

record socket =
  readBufferData :: "nat option"
  readBufferSize :: u32
  readBufferOffset :: u32
  readPromiseHandle :: "handle option"
  readFlag :: bool
  writeFlag :: bool
  peerAddress :: "string \<times> int"
  bindAddress :: "string \<times> int"
  reading :: bool
  closing :: bool
  alive :: bool
  memory :: "nat \<Rightarrow> u8"
  promises :: "handle \<Rightarrow> unit promise"
  to_resume :: "handle list"
  begun :: "handle list"

definition socket_new ::
    "string \<times> int \<Rightarrow> string \<times> int \<Rightarrow> (nat \<Rightarrow> u8) \<Rightarrow> (handle \<Rightarrow> unit promise) \<Rightarrow> socket" where
  "socket_new sock_name peer_name m ps =
     \<lparr>readBufferData = None, readBufferSize = 0, readBufferOffset = 0, readPromiseHandle = None,
      readFlag = False, writeFlag = False, peerAddress = peer_name, bindAddress = sock_name,
      reading = False, closing = False, alive = True, memory = m, promises = ps,
      to_resume = [], begun = []\<rparr>"

definition on_promise :: "handle \<Rightarrow> (unit promise, 'a) act \<Rightarrow> (socket, 'a) act" where
  "on_promise h m s = (case m (promises s h) of (r, p) \<Rightarrow> (r, s\<lparr>promises := (promises s)(h := p)\<rparr>))"

definition schedule_resume :: "handle \<Rightarrow> (socket, unit) act" where
  "schedule_resume h = modify (\<lambda>s. s\<lparr>to_resume := to_resume s @ [h]\<rparr>)"

definition raise_closed :: "handle \<Rightarrow> (socket, unit) act" where
  "raise_closed h =
     andthen (modify (\<lambda>s. s\<lparr>readBufferOffset := 0, readBufferSize := 0, readBufferData := None,
                            readPromiseHandle := None\<rparr>)) (\<lambda>_.
     andthen (\<lambda>s. assert_that (readFlag s) ''read flag must be raised'' s) (\<lambda>_.
     andthen (modify (\<lambda>s. s\<lparr>readFlag := False\<rparr>)) (\<lambda>_.
       on_promise h (raise_exception (throw_default ClosedTransportException)))))"

text \<open>
  How a call of \<open>rawRead\<close> goes on: it is over at once, the coroutine was resumed with an exception,
  or it is suspended.
\<close>

datatype read_start = Completed | ResumedClosed | Suspended

definition raw_read :: "handle \<Rightarrow> nat \<Rightarrow> u32 \<Rightarrow> (socket, read_start) act" where
  "raw_read h p sz =
     andthen (\<lambda>s. assert_that (\<not> readFlag s) ''simultaneous read on tcp socket''
                (s\<lparr>readFlag := True\<rparr>)) (\<lambda>_.
     if sz = 0 then andthen (modify (\<lambda>s. s\<lparr>readFlag := False\<rparr>)) (\<lambda>_. ret Completed)
     else
       andthen (modify (\<lambda>s. s\<lparr>readBufferData := Some p, readBufferOffset := 0,
                              readBufferSize := sz\<rparr>)) (\<lambda>_ s.
         if closing s then andthen (raise_closed h) (\<lambda>_. ret ResumedClosed) s
         else (Inr Suspended,
               s\<lparr>readPromiseHandle := Some h, reading := True, begun := begun s @ [h]\<rparr>)))"

text \<open>The allocation callback: where the next bytes go, and how many fit.\<close>

definition alloc_callback :: "socket \<Rightarrow> nat option \<times> u32" where
  "alloc_callback s =
     (if alive s
      then (map_option (\<lambda>p. p + unat (readBufferOffset s)) (readBufferData s),
            readBufferSize s - readBufferOffset s)
      else (None, 0))"

definition data_event :: "u64 \<Rightarrow> u64 \<Rightarrow> (socket, unit) act" where
  "data_event nobufs len =
     andthen (\<lambda>s. assert_that (alive s) ''transport must be still alive on read event'' s) (\<lambda>_ s.
     if len = nobufs then (Inr (), s\<lparr>reading := False\<rparr>)
     else if 0 <s len then
       andthen (assert_that (readPromiseHandle s \<noteq> None)
                  ''must have pending request to process data event'') (\<lambda>_.
       andthen (modify (\<lambda>s. s\<lparr>readBufferOffset := readBufferOffset s + ucast len\<rparr>)) (\<lambda>_ s.
         if readBufferOffset s = readBufferSize s then
           (case readPromiseHandle s of
              None \<Rightarrow> (Inl (AssertFailed ''read promise handle must be set on data read finish''),
                       s\<lparr>readBufferData := None, readBufferOffset := 0, readBufferSize := 0\<rparr>)
            | Some h \<Rightarrow>
                andthen (modify (\<lambda>s. s\<lparr>readBufferData := None, readBufferOffset := 0,
                    readBufferSize := 0, readPromiseHandle := None, reading := False\<rparr>)) (\<lambda>_.
                andthen (\<lambda>s. assert_that (readFlag s) ''read flag must be raised'' s) (\<lambda>_.
                andthen (modify (\<lambda>s. s\<lparr>readFlag := False\<rparr>)) (\<lambda>_.
                  schedule_resume h))) s)
         else (Inr (), s))) s
     else (Inr (), s))"

definition end_event :: "(socket, unit) act" where
  "end_event s =
     (if alive s then
        (case readPromiseHandle s of
           None \<Rightarrow> (Inr (), s)
         | Some h \<Rightarrow> andthen (raise_closed h) (\<lambda>_. schedule_resume h) s)
      else (Inr (), s))"

text \<open>\<open>tcpHandler->close()\<close> stops the handle; further calls do nothing.\<close>

definition tcp_close :: "(socket, unit) act" where
  "tcp_close = modify (\<lambda>s. s\<lparr>closing := True, reading := False\<rparr>)"

definition on_close :: "(socket, unit) act" where
  "on_close s =
     andthen (case readPromiseHandle s of
                None \<Rightarrow> ret ()
              | Some h \<Rightarrow> andthen (raise_closed h) (\<lambda>_. schedule_resume h)) (\<lambda>_. tcp_close) s"

definition close_event :: "(socket, unit) act" where
  "close_event s = (if alive s then on_close s else (Inr (), s))"

definition error_event :: "(socket, unit) act" where
  "error_event s = (if alive s then on_close s else (Inr (), s))"

definition socket_close :: "(socket, unit) act" where
  "socket_close = tcp_close"

definition destroy_socket :: "(socket, unit) act" where
  "destroy_socket = andthen (modify (\<lambda>s. s\<lparr>alive := False\<rparr>)) (\<lambda>_. on_close)"

text \<open>
  \<open>connect\<close>: the result of the resolver, the code \<open>tcpHandler->connect\<close> returned, and the event
  that came, if one did.  \<open>None\<close>: the coroutine stays suspended.
\<close>

datatype connect_event = Connected "string \<times> int" "string \<times> int" | ConnectError int

definition socket_connect ::
    "bool \<Rightarrow> int \<Rightarrow> connect_event option \<Rightarrow> socket \<Rightarrow> int option \<times> socket" where
  "socket_connect resolved rc ev s =
     (if \<not> resolved then (Some (- 1), s)
      else
        (case ev of
           None \<Rightarrow> (None, s)
         | Some (Connected peer_name sock_name) \<Rightarrow>
             (Some rc, s\<lparr>peerAddress := peer_name, bindAddress := sock_name\<rparr>)
         | Some (ConnectError c) \<Rightarrow> (Some c, s)))"

subsection \<open>Writing\<close>

text \<open>
  \<open>try_write\<close> is libuv's: from a state of the kernel and the bytes it gives the count accepted or
  an error code, and the new state of the kernel.  The loop of \<open>rawWrite\<close> may not end.
\<close>

partial_function (option) try_write_loop ::
    "('k \<Rightarrow> bytes \<Rightarrow> int \<times> 'k) \<Rightarrow> int \<Rightarrow> bytes \<Rightarrow> 'k \<Rightarrow> 'k option" where
  "try_write_loop try_write eagain bs k =
     (let r = try_write k bs in
      if fst r = eagain then try_write_loop try_write eagain bs (snd r) else Some (snd r))"

definition raw_write ::
    "('k \<Rightarrow> bytes \<Rightarrow> int \<times> 'k) \<Rightarrow> int \<Rightarrow> bytes \<Rightarrow> socket \<times> 'k \<Rightarrow>
      ((err + unit) \<times> socket \<times> 'k) option" where
  "raw_write try_write eagain bs x =
     (case x of (s, k) \<Rightarrow>
       if writeFlag s then Some (Inl (AssertFailed ''simultaneous write to tcp socket''), s, k)
       else
         (case try_write_loop try_write eagain bs k of
            None \<Rightarrow> None
          | Some k' \<Rightarrow> Some (Inr (), s\<lparr>writeFlag := False\<rparr>, k')))"

declare try_write_loop.simps [code]

subsection \<open>What the event loop does to the transport\<close>

text \<open>
  A chunk arrives: libuv asks for room, stores the bytes there and reports the count.  It only
  stores bytes in the room it was given.
\<close>

definition deliver :: "u64 \<Rightarrow> bytes \<Rightarrow> (socket, unit) act" where
  "deliver nobufs bs s =
     (case alloc_callback s of
        (None, n) \<Rightarrow> data_event nobufs nobufs s
      | (Some p, n) \<Rightarrow>
          data_event nobufs (of_nat (length bs)) (s\<lparr>memory := store_bytes p bs (memory s)\<rparr>))"

definition chunk_fits :: "bytes \<Rightarrow> socket \<Rightarrow> bool" where
  "chunk_fits bs s \<longleftrightarrow> reading s \<and> bs \<noteq> [] \<and> length bs \<le> unat (snd (alloc_callback s))"

fun deliver_all :: "u64 \<Rightarrow> bytes list \<Rightarrow> (socket, unit) act" where
  "deliver_all nobufs [] = ret ()"
| "deliver_all nobufs (c # cs) = andthen (deliver nobufs c) (\<lambda>_. deliver_all nobufs cs)"

text \<open>The reader \<open>h\<close> waits for \<open>sz\<close> bytes at \<open>p\<close> and has \<open>k\<close> of them.\<close>

definition waiting_for :: "handle \<Rightarrow> nat \<Rightarrow> u32 \<Rightarrow> nat \<Rightarrow> socket \<Rightarrow> bool" where
  "waiting_for h p sz k s \<longleftrightarrow>
     readBufferData s = Some p \<and> readBufferSize s = sz \<and> readBufferOffset s = of_nat k \<and>
     k < unat sz \<and> readPromiseHandle s = Some h \<and> readFlag s \<and> alive s"

definition idle :: "socket \<Rightarrow> bool" where
  "idle s \<longleftrightarrow> readBufferData s = None \<and> readBufferSize s = 0 \<and> readBufferOffset s = 0 \<and>
     readPromiseHandle s = None \<and> \<not> readFlag s"

text \<open>A reading coroutine that is awaited and has not ended.\<close>

definition awaited :: "unit promise \<Rightarrow> bool" where
  "awaited pr \<longleftrightarrow> callerCoroutine pr \<noteq> None \<and> exceptionPtr pr = None"

definition closed_promise :: "unit promise \<Rightarrow> unit promise" where
  "closed_promise pr =
     pr\<lparr>mayBeChecked := True, exceptionPtr := Some (throw_default ClosedTransportException)\<rparr>"

lemma raise_exception_awaited:
  "awaited pr \<Longrightarrow>
     raise_exception (throw_default ClosedTransportException) pr = (Inr (), closed_promise pr)"
  by (auto simp: awaited_def closed_promise_def promise_ops act_simps andthen_def)

lemma raise_exception_unawaited:
  "callerCoroutine pr = None \<Longrightarrow>
     raise_exception e pr = (Inl (Throw e), pr\<lparr>mayBeChecked := True\<rparr>)"
  by (simp add: promise_ops act_simps andthen_def)

lemma raise_closed_throws:
  assumes "readFlag s" "callerCoroutine (promises s h) = None"
  shows "raise_closed h s =
    (Inl (Throw (throw_default ClosedTransportException)),
     s\<lparr>readBufferOffset := 0, readBufferSize := 0, readBufferData := None, readPromiseHandle := None,
       readFlag := False, promises := (promises s)(h := (promises s h)\<lparr>mayBeChecked := True\<rparr>)\<rparr>)"
  using assms
  by (simp add: raise_closed_def act_simps andthen_def on_promise_def raise_exception_unawaited)

lemma raise_closed_run:
  assumes "readFlag s" "awaited (promises s h)"
  shows "raise_closed h s =
    (Inr (), s\<lparr>readBufferOffset := 0, readBufferSize := 0, readBufferData := None,
       readPromiseHandle := None, readFlag := False,
       promises := (promises s)(h := closed_promise (promises s h))\<rparr>)"
  using assms
  by (simp add: raise_closed_def act_simps andthen_def on_promise_def raise_exception_awaited)

lemma raw_read_suspends:
  assumes "\<not> readFlag s" "sz \<noteq> 0" "\<not> closing s"
  shows "raw_read h p sz s =
    (Inr Suspended, s\<lparr>readFlag := True, readBufferData := Some p, readBufferOffset := 0,
       readBufferSize := sz, readPromiseHandle := Some h, reading := True,
       begun := begun s @ [h]\<rparr>)"
  using assms by (simp add: raw_read_def act_simps andthen_def)

lemma waiting_after_raw_read:
  assumes "\<not> readFlag s" "sz \<noteq> 0" "\<not> closing s" "alive s"
  shows "waiting_for h p sz 0 (snd (raw_read h p sz s))"
  using assms
  by (simp add: raw_read_suspends waiting_for_def unat_gt_0)

lemma of_nat_u32_inj:
  "a < 2 ^ 32 \<Longrightarrow> b < 2 ^ 32 \<Longrightarrow> ((of_nat a :: u32) = of_nat b) = (a = b)"
proof -
  assume "a < 2 ^ 32" "b < 2 ^ 32"
  then have "unat (of_nat a :: u32) = a" "unat (of_nat b :: u32) = b" by (simp_all add: unat_of_nat)
  then show ?thesis by metis
qed

lemma small_length:
  assumes "0 < n" "n < 2 ^ 32"
  shows "0 <s (of_nat n :: u64)" "(ucast (of_nat n :: u64) :: u32) = of_nat n"
proof -
  have "sint (of_nat n :: u64) = int n"
    using assms by (simp add: sint_uint unsigned_of_nat take_bit_nat_eq_self signed_take_bit_int_eq_self)
  then show "0 <s (of_nat n :: u64)" using assms by (simp add: word_sless_alt)
  show "(ucast (of_nat n :: u64) :: u32) = of_nat n"
    using assms by (simp add: unsigned_of_nat take_bit_nat_eq_self)
qed

lemma alloc_waiting:
  assumes "waiting_for h p sz k s"
  shows "fst (alloc_callback s) = Some (p + k)" "unat (snd (alloc_callback s)) = unat sz - k"
proof -
  have "unat sz < 2 ^ 32" using unsigned_less [where w = sz and 'a = nat] by simp
  with assms have "unat (of_nat k :: u32) = k" by (simp add: waiting_for_def unat_of_nat)
  with assms show "fst (alloc_callback s) = Some (p + k)"
    "unat (snd (alloc_callback s)) = unat sz - k"
    by (simp_all add: alloc_callback_def waiting_for_def unat_sub_fits)
qed

text \<open>One chunk: the reader moves on, and is resumed when its destination is full.\<close>

definition after_chunk :: "handle \<Rightarrow> nat \<Rightarrow> u32 \<Rightarrow> nat \<Rightarrow> bytes \<Rightarrow> socket \<Rightarrow> socket" where
  "after_chunk h p sz k bs s =
     (let s' = s\<lparr>memory := store_bytes (p + k) bs (memory s)\<rparr> in
      if k + length bs = unat sz
      then s'\<lparr>readBufferData := None, readBufferOffset := 0, readBufferSize := 0,
              readPromiseHandle := None, reading := False, readFlag := False,
              to_resume := to_resume s @ [h]\<rparr>
      else s'\<lparr>readBufferOffset := of_nat (k + length bs)\<rparr>)"

lemma deliver_waiting:
  assumes w: "waiting_for h p sz k s" and b: "bs \<noteq> []" "k + length bs \<le> unat sz"
    and n: "nobufs <s 0"
  shows "deliver nobufs bs s = (Inr (), after_chunk h p sz k bs s)"
proof -
  have z: "unat sz < 2 ^ 32" using unsigned_less [where w = sz and 'a = nat] by simp
  let ?l = "of_nat (length bs) :: u64"
  have l: "0 <s ?l" "(ucast ?l :: u32) = of_nat (length bs)"
    using small_length [of "length bs"] b z by auto
  with n have "?l \<noteq> nobufs" by (auto simp: word_sless_alt)
  moreover have "(of_nat k + of_nat (length bs) = sz) = (k + length bs = unat sz)"
    using of_nat_u32_inj [of "k + length bs" "unat sz"] b z by simp
  moreover have "alloc_callback s = (Some (p + k), snd (alloc_callback s))"
    using alloc_waiting(1) [OF w] by (metis prod.collapse)
  ultimately show ?thesis
    using w l
    by (auto simp: deliver_def data_event_def act_simps andthen_def schedule_resume_def
        after_chunk_def waiting_for_def Let_def split: prod.splits)
qed

lemma after_chunk_waiting:
  "waiting_for h p sz k s \<Longrightarrow> k + length bs < unat sz \<Longrightarrow>
     waiting_for h p sz (k + length bs) (after_chunk h p sz k bs s)"
  by (simp add: waiting_for_def after_chunk_def Let_def)

lemma after_chunk_memory:
  "memory (after_chunk h p sz k bs s) = store_bytes (p + k) bs (memory s)"
  by (simp add: after_chunk_def Let_def)

lemma after_chunk_idle:
  "waiting_for h p sz k s \<Longrightarrow> k + length bs = unat sz \<Longrightarrow>
     idle (after_chunk h p sz k bs s) \<and> \<not> reading (after_chunk h p sz k bs s) \<and>
     to_resume (after_chunk h p sz k bs s) = to_resume s @ [h]"
  by (simp add: idle_def after_chunk_def Let_def)

lemma deliver_all_waiting:
  assumes "waiting_for h p sz k s" "\<forall>c\<in>set cs. c \<noteq> []" "k + length (concat cs) \<le> unat sz"
    and "nobufs <s 0"
  shows "\<exists>t. deliver_all nobufs cs s = (Inr (), t) \<and>
    memory t = store_bytes (p + k) (concat cs) (memory s) \<and>
    (if k + length (concat cs) = unat sz
     then idle t \<and> \<not> reading t \<and> to_resume t = to_resume s @ [h]
     else waiting_for h p sz (k + length (concat cs)) t \<and> to_resume t = to_resume s)"
  using assms
proof (induction cs arbitrary: k s)
  case Nil
  then show ?case by (auto simp: ret_run waiting_for_def)
next
  case (Cons c cs)
  let ?s = "after_chunk h p sz k c s"
  from Cons.prems have d: "deliver nobufs c s = (Inr (), ?s)"
    by (intro deliver_waiting) simp_all
  show ?case
  proof (cases "cs = []")
    case True
    with Cons.prems d show ?thesis
      using after_chunk_idle [of h p sz k s c] after_chunk_waiting [of h p sz k s c]
      by (auto simp: andthen_def ret_run after_chunk_memory) (auto simp: after_chunk_def Let_def)
  next
    case False
    with Cons.prems(2) obtain x xs where "concat cs = x # xs"
      by (cases cs) (auto simp: neq_Nil_conv)
    with Cons.prems(3) have l: "k + length c < unat sz" by simp
    from Cons.IH [OF after_chunk_waiting [OF Cons.prems(1) l]] Cons.prems l d
    show ?thesis
      by (auto simp: andthen_def after_chunk_memory add.assoc store_bytes_append [symmetric]
          simp del: store_bytes_append) (auto simp: after_chunk_def Let_def add.assoc)
  qed
qed

subsection \<open>Runs\<close>

text \<open>
  What may happen to a transport, in any order: \<open>rawRead\<close> is called (which starts a new coroutine, that
  nobody awaits yet), the caller of a \<open>rawRead\<close> registers in its promise (\<open>co_await\<close>, after \<open>rawRead\<close> has
  suspended), chunks that fit, the three callbacks of the handle and calls of \<open>close\<close>.
\<close>

datatype sock_event =
    EvRead handle nat u32 | EvAwait handle handle | EvData bytes | EvEnd | EvClosed | EvError | EvCallClose

text \<open>A new coroutine does not have the frame of the one that waits; a coroutine is awaited once.\<close>

fun sock_allowed :: "sock_event \<Rightarrow> socket \<Rightarrow> bool" where
  "sock_allowed (EvRead h p n) s = (readPromiseHandle s \<noteq> Some h)"
| "sock_allowed (EvAwait h c) s = (callerCoroutine (promises s h) = None)"
| "sock_allowed (EvData bs) s = chunk_fits bs s"
| "sock_allowed _ s = True"

definition start_read :: "handle \<Rightarrow> nat \<Rightarrow> u32 \<Rightarrow> (socket, read_start) act" where
  "start_read h p n =
     andthen (modify (\<lambda>s. s\<lparr>promises := (promises s)(h := promise_new ())\<rparr>)) (\<lambda>_. raw_read h p n)"

fun sock_do :: "u64 \<Rightarrow> sock_event \<Rightarrow> (socket, unit) act" where
  "sock_do nobufs (EvRead h p n) = andthen (start_read h p n) (\<lambda>_. ret ())"
| "sock_do nobufs (EvAwait h c) = on_promise h (set_caller_coroutine c)"
| "sock_do nobufs (EvData bs) = deliver nobufs bs"
| "sock_do nobufs EvEnd = end_event"
| "sock_do nobufs EvClosed = close_event"
| "sock_do nobufs EvError = error_event"
| "sock_do nobufs EvCallClose = socket_close"

fun sock_run :: "u64 \<Rightarrow> sock_event list \<Rightarrow> (socket, unit) act" where
  "sock_run nobufs [] s = (Inr (), s)"
| "sock_run nobufs (e # es) s =
     (if sock_allowed e s
      then (case sock_do nobufs e s of (Inl x, t) \<Rightarrow> (Inl x, t) | (Inr _, t) \<Rightarrow> sock_run nobufs es t)
      else sock_run nobufs es s)"

definition sock_base :: "socket \<Rightarrow> bool" where
  "sock_base s \<longleftrightarrow>
     alive s \<and>
     (case readPromiseHandle s of
        None \<Rightarrow> idle s
      | Some h \<Rightarrow>
          exceptionPtr (promises s h) = None \<and>
          (\<exists>p k. waiting_for h p (readBufferSize s) k s))"

definition sock_inv :: "socket \<Rightarrow> bool" where
  "sock_inv s \<longleftrightarrow> sock_base s \<and>
     begun s = to_resume s @ (case readPromiseHandle s of None \<Rightarrow> [] | Some h \<Rightarrow> [h])"

lemma sock_inv_new: "sock_inv (socket_new a b m ps)"
  by (simp add: sock_inv_def sock_base_def socket_new_def idle_def)

lemma sock_base_reader:
  assumes "sock_base s" "readPromiseHandle s = Some h"
  shows "\<exists>p k. waiting_for h p (readBufferSize s) k s" "exceptionPtr (promises s h) = None" "alive s"
    "readFlag s" "callerCoroutine (promises s h) \<noteq> None \<Longrightarrow> awaited (promises s h)"
  using assms by (auto simp: sock_base_def waiting_for_def awaited_def)

lemma sock_inv_reader:
  assumes "sock_inv s" "readPromiseHandle s = Some h"
  shows "\<exists>p k. waiting_for h p (readBufferSize s) k s \<and> exceptionPtr (promises s h) = None \<and> alive s \<and>
    begun s = to_resume s @ [h] \<and> readFlag s"
  using assms sock_base_reader [of s h] by (auto simp: sock_inv_def)

lemma sock_base_idle: "sock_base s \<Longrightarrow> readPromiseHandle s = None \<Longrightarrow> idle s \<and> alive s"
  by (simp add: sock_base_def)

lemma sock_inv_idle:
  "sock_inv s \<Longrightarrow> readPromiseHandle s = None \<Longrightarrow> idle s \<and> begun s = to_resume s \<and> alive s"
  by (simp add: sock_inv_def sock_base_def)

lemma sock_base_flag: "sock_base s \<Longrightarrow> readFlag s \<longleftrightarrow> readPromiseHandle s \<noteq> None"
  by (auto simp: sock_base_def idle_def waiting_for_def split: option.splits)

text \<open>Closing, by any of the callbacks, resumes the reader with the exception.\<close>

definition closed_reader :: "handle \<Rightarrow> socket \<Rightarrow> socket" where
  "closed_reader h s =
     s\<lparr>readBufferOffset := 0, readBufferSize := 0, readBufferData := None, readPromiseHandle := None,
       readFlag := False, promises := (promises s)(h := closed_promise (promises s h)),
       to_resume := to_resume s @ [h]\<rparr>"

lemma raise_and_schedule:
  assumes "readFlag s" "awaited (promises s h)"
  shows "andthen (raise_closed h) (\<lambda>_. schedule_resume h) s = (Inr (), closed_reader h s)"
  using assms
  by (simp add: andthen_def raise_closed_run schedule_resume_def act_simps closed_reader_def)

text \<open>
  How the reader that waits fares: the exception is thrown in the thread of the event loop when
  nobody awaits it.
\<close>

definition reader_result :: "socket \<Rightarrow> err + unit" where
  "reader_result s =
     (case readPromiseHandle s of
        None \<Rightarrow> Inr ()
      | Some h \<Rightarrow>
          if callerCoroutine (promises s h) = None
          then Inl (Throw (throw_default ClosedTransportException)) else Inr ())"

lemma raise_and_schedule_throws:
  assumes "sock_base s" "readPromiseHandle s = Some h" "callerCoroutine (promises s h) = None"
  shows "\<exists>t. andthen (raise_closed h) (\<lambda>_. schedule_resume h) s =
    (Inl (Throw (throw_default ClosedTransportException)), t) \<and> sock_base t"
  using assms sock_base_reader [OF assms(1,2)]
  by (auto simp: andthen_def raise_closed_throws sock_base_def idle_def)

lemma end_event_reader:
  assumes "sock_inv s" "readPromiseHandle s = Some h" "callerCoroutine (promises s h) \<noteq> None"
  shows "end_event s = (Inr (), closed_reader h s)"
  using sock_inv_reader [OF assms(1,2)] sock_base_reader(5) [of s h] assms
  by (auto simp: end_event_def raise_and_schedule sock_inv_def)

lemma on_close_reader:
  assumes "sock_base s" "readPromiseHandle s = Some h" "callerCoroutine (promises s h) \<noteq> None"
  shows "on_close s = (Inr (), (closed_reader h s)\<lparr>closing := True, reading := False\<rparr>)"
  using raise_and_schedule [of s h] sock_base_reader(4,5) [OF assms(1,2)] assms
  by (simp add: on_close_def andthen_Inr tcp_close_def modify_run)

lemma on_close_idle:
  "readPromiseHandle s = None \<Longrightarrow> on_close s = (Inr (), s\<lparr>closing := True, reading := False\<rparr>)"
  by (simp add: on_close_def tcp_close_def act_simps)

lemma sock_inv_closed_reader:
  assumes "sock_inv s" "readPromiseHandle s = Some h"
  shows "sock_inv (closed_reader h s)"
  using sock_inv_reader [OF assms] by (auto simp: sock_inv_def sock_base_def closed_reader_def idle_def)

lemma sock_base_tcp:
  "sock_base s \<Longrightarrow> sock_base (s\<lparr>closing := c, reading := r\<rparr>)"
  by (auto simp: sock_base_def idle_def waiting_for_def split: option.splits)

lemma sock_inv_tcp:
  "sock_inv s \<Longrightarrow> sock_inv (s\<lparr>closing := c, reading := r\<rparr>)"
  by (simp add: sock_inv_def sock_base_tcp)

text \<open>What a failed step leaves, and what a step that succeeds does.\<close>

definition step_ok :: "socket \<Rightarrow> err + unit \<Rightarrow> bool" where
  "step_ok t r \<longleftrightarrow> (case r of Inl x \<Rightarrow> sock_base t | Inr _ \<Rightarrow> sock_inv t)"

lemma end_event_result:
  assumes "sock_inv s"
  shows "\<exists>t. end_event s = (reader_result s, t) \<and> step_ok t (reader_result s)"
proof (cases "readPromiseHandle s")
  case None
  with sock_inv_idle [OF assms] assms show ?thesis
    by (simp add: end_event_def reader_result_def step_ok_def)
next
  case (Some h)
  show ?thesis
  proof (cases "callerCoroutine (promises s h) = None")
    case True
    with raise_and_schedule_throws [of s h] Some assms sock_inv_reader [OF assms Some] show ?thesis
      by (auto simp: end_event_def reader_result_def step_ok_def sock_inv_def)
  next
    case False
    with Some end_event_reader [OF assms] sock_inv_closed_reader [OF assms] show ?thesis
      by (simp add: reader_result_def step_ok_def)
  qed
qed

lemma on_close_result:
  assumes "sock_inv s"
  shows "\<exists>t. on_close s = (reader_result s, t) \<and> step_ok t (reader_result s)"
proof (cases "readPromiseHandle s")
  case None
  with assms show ?thesis by (simp add: on_close_idle reader_result_def step_ok_def sock_inv_tcp)
next
  case (Some h)
  from assms have b: "sock_base s" by (simp add: sock_inv_def)
  show ?thesis
  proof (cases "callerCoroutine (promises s h) = None")
    case True
    with raise_and_schedule_throws [OF b Some] Some show ?thesis
      by (auto simp: on_close_def andthen_Inl reader_result_def step_ok_def)
  next
    case False
    with Some on_close_reader [OF b] sock_inv_closed_reader [OF assms] show ?thesis
      by (simp add: reader_result_def step_ok_def sock_inv_tcp)
  qed
qed

lemma chunk_fits_reader:
  assumes "sock_base s" "chunk_fits bs s"
  shows "\<exists>h p k. waiting_for h p (readBufferSize s) k s \<and> readPromiseHandle s = Some h \<and>
    bs \<noteq> [] \<and> k + length bs \<le> unat (readBufferSize s)"
proof (cases "readPromiseHandle s")
  case None
  with sock_base_idle [OF assms(1)] assms(2) show ?thesis
    by (auto simp: idle_def chunk_fits_def alloc_callback_def)
next
  case (Some h)
  with sock_base_reader(1) [OF assms(1)] obtain p k where "waiting_for h p (readBufferSize s) k s" by blast
  with alloc_waiting(2) [OF this] assms(2) Some show ?thesis
    by (auto simp: chunk_fits_def waiting_for_def intro!: exI [of _ p] exI [of _ k])
qed

lemma sock_inv_deliver:
  assumes "sock_inv s" "chunk_fits bs s" "nobufs <s 0"
  shows "\<exists>t. deliver nobufs bs s = (Inr (), t) \<and> sock_inv t"
proof -
  from chunk_fits_reader [OF _ assms(2)] assms(1) obtain h p k where w:
    "waiting_for h p (readBufferSize s) k s" "readPromiseHandle s = Some h" "bs \<noteq> []"
    "k + length bs \<le> unat (readBufferSize s)" unfolding sock_inv_def by blast
  let ?t = "after_chunk h p (readBufferSize s) k bs s"
  have "sock_inv ?t"
  proof (cases "k + length bs = unat (readBufferSize s)")
    case True
    with sock_inv_reader [OF assms(1) w(2)] show ?thesis
      by (auto simp: sock_inv_def sock_base_def after_chunk_def Let_def idle_def)
  next
    case False
    with w have "waiting_for h p (readBufferSize s) (k + length bs) ?t"
      by (intro after_chunk_waiting) simp_all
    moreover have "readBufferSize ?t = readBufferSize s" "promises ?t = promises s"
      "begun ?t = begun s" "to_resume ?t = to_resume s" "alive ?t = alive s"
      "readPromiseHandle ?t = Some h"
      using False w(2) by (simp_all add: after_chunk_def Let_def)
    ultimately show ?thesis
      using sock_inv_reader [OF assms(1) w(2)] by (auto simp: sock_inv_def sock_base_def)
  qed
  with deliver_waiting [OF w(1,3,4) assms(3)] show ?thesis by blast
qed

text \<open>How every event ends.\<close>

fun sock_result :: "sock_event \<Rightarrow> socket \<Rightarrow> err + unit" where
  "sock_result (EvRead h p n) s =
     (if readFlag s then Inl (AssertFailed ''simultaneous read on tcp socket'')
      else if n \<noteq> 0 \<and> closing s then Inl (Throw (throw_default ClosedTransportException))
      else Inr ())"
| "sock_result EvEnd s = reader_result s"
| "sock_result EvClosed s = reader_result s"
| "sock_result EvError s = reader_result s"
| "sock_result _ s = Inr ()"

lemma sock_inv_start_read:
  assumes "sock_inv s" "readPromiseHandle s \<noteq> Some h"
  shows "\<exists>t. andthen (start_read h p n) (\<lambda>_. ret ()) s = (sock_result (EvRead h p n) s, t) \<and>
    step_ok t (sock_result (EvRead h p n) s)"
proof -
  let ?s = "s\<lparr>promises := (promises s)(h := promise_new ())\<rparr>"
  have i: "sock_inv ?s"
    using assms by (auto simp: sock_inv_def sock_base_def idle_def waiting_for_def split: option.splits)
  have eq: "andthen (start_read h p n) (\<lambda>_. ret ()) s = andthen (raw_read h p n) (\<lambda>_. ret ()) ?s"
    by (simp add: start_read_def andthen_def modify_run)
  show ?thesis
  proof (cases "readFlag s")
    case True
    then have same: "?s\<lparr>readFlag := True\<rparr> = ?s" by (cases s) simp
    have "raw_read h p n ?s = (Inl (AssertFailed ''simultaneous read on tcp socket''), ?s)"
      using True by (simp only: raw_read_def andthen_def assert_that_run same) simp
    with True i show ?thesis unfolding eq by (simp add: andthen_Inl step_ok_def sock_inv_def)
  next
    case False
    with sock_base_flag [of s] assms(1) have n: "readPromiseHandle s = None" by (simp add: sock_inv_def)
    note idle = sock_inv_idle [OF assms(1) n]
    consider "n = 0" | "n \<noteq> 0" "closing s" | "n \<noteq> 0" "\<not> closing s" by blast
    then show ?thesis
    proof cases
      case 3
      then have "waiting_for h p n 0 (snd (raw_read h p n ?s))"
        using False idle by (intro waiting_after_raw_read) simp_all
      with 3 False idle show ?thesis
        unfolding eq by (auto simp: raw_read_suspends andthen_Inr ret_run step_ok_def sock_inv_def sock_base_def
            promise_new_def)
    qed (use False idle n in \<open>unfold eq, auto simp: raw_read_def act_simps andthen_def raise_closed_throws
        step_ok_def sock_inv_def sock_base_def idle_def promise_new_def\<close>)
  qed
qed

lemma sock_do_result:
  assumes "sock_inv s" "sock_allowed e s" "nobufs <s 0"
  shows "\<exists>t. sock_do nobufs e s = (sock_result e s, t) \<and> step_ok t (sock_result e s)"
proof (cases e)
  case (EvRead h p n)
  with sock_inv_start_read [OF assms(1), of h p n] assms(2) show ?thesis by simp
next
  case (EvAwait h c)
  with assms(2) have c: "callerCoroutine (promises s h) = None" by simp
  let ?t = "s\<lparr>promises := (promises s)(h := (promises s h)\<lparr>callerCoroutine := Some c\<rparr>)\<rparr>"
  have "sock_do nobufs e s = (Inr (), ?t)"
    using c EvAwait by (simp add: on_promise_def set_caller_coroutine_def andthen_def assert_that_run modify_run)
  moreover have "sock_inv ?t"
    using assms(1) by (auto simp: sock_inv_def sock_base_def idle_def waiting_for_def split: option.splits)
  ultimately show ?thesis using EvAwait by (simp add: step_ok_def)
next
  case (EvData bs)
  with sock_inv_deliver [OF assms(1), of bs] assms show ?thesis by (auto simp: step_ok_def)
next
  case EvEnd
  with end_event_result [OF assms(1)] show ?thesis by simp
next
  case EvCallClose
  with sock_inv_tcp [OF assms(1)] show ?thesis
    by (simp add: socket_close_def tcp_close_def modify_run step_ok_def)
qed (use on_close_result [OF assms(1)] assms(1) in
    \<open>auto simp: close_event_def error_event_def sock_inv_def sock_base_def\<close>)

lemma sock_run_result:
  assumes "sock_inv s" "nobufs <s 0" "sock_run nobufs es s = (r, t)"
  shows "step_ok t r"
  using assms(1,3)
proof (induction es arbitrary: s)
  case (Cons e es)
  show ?case
  proof (cases "sock_allowed e s")
    case True
    from sock_do_result [OF Cons.prems(1) True assms(2)] obtain u where
      "sock_do nobufs e s = (sock_result e s, u)" "step_ok u (sock_result e s)" by blast
    with Cons True show ?thesis by (auto simp: step_ok_def split: sum.splits)
  qed (use Cons in simp)
qed (auto simp: step_ok_def)

lemma sock_run_base:
  assumes "nobufs <s 0" "sock_run nobufs es (socket_new a b m ps) = (r, t)"
  shows "sock_base t" "r = Inr () \<Longrightarrow> sock_inv t"
  using sock_run_result [OF sock_inv_new assms]
  by (auto simp: step_ok_def sock_inv_def split: sum.splits)

text \<open>What the awaiting caller of a read finds when the read ended with the exception.\<close>

lemma await_closed_promise:
  "fst (co_await_value (snd (final_suspend (closed_promise pr)))) = Inl (raise ClosedTransportException)"
  by (simp add: co_await_finished final_suspend_def closed_promise_def)

subsection \<open>What the transport guarantees to its reader\<close>

text \<open>
  C5: a read receives exactly the bytes of the stream.  Whatever the sizes of the chunks in which
  they arrive, the bytes delivered after a \<open>rawRead(p, n)\<close> are stored one after the other from \<open>p\<close>
  on and nothing else is written; the reader is resumed once, by the chunk that completes the \<open>n\<close>
  bytes, and not before.
\<close>

theorem socket_read_exact:
  assumes "\<not> readFlag s" "\<not> closing s" "alive s" "n \<noteq> 0" "nobufs <s 0"
    and "\<forall>c\<in>set cs. c \<noteq> []" "length (concat cs) \<le> unat n"
  shows "\<exists>t. andthen (raw_read h p n) (\<lambda>_. deliver_all nobufs cs) s = (Inr (), t) \<and>
    memory t = store_bytes p (concat cs) (memory s) \<and>
    to_resume t = to_resume s @ (if length (concat cs) = unat n then [h] else []) \<and>
    (readFlag t \<longleftrightarrow> length (concat cs) < unat n)"
proof -
  let ?s = "snd (raw_read h p n s)"
  have r: "raw_read h p n s = (Inr Suspended, ?s)" "memory ?s = memory s" "to_resume ?s = to_resume s"
    using assms by (simp_all add: raw_read_suspends)
  have "waiting_for h p n 0 ?s" using assms by (intro waiting_after_raw_read)
  from deliver_all_waiting [OF this assms(6) _ assms(5)] assms(7) r(2,3)
  obtain t where t: "deliver_all nobufs cs ?s = (Inr (), t)"
    "memory t = store_bytes p (concat cs) (memory s)"
    "if length (concat cs) = unat n
     then idle t \<and> \<not> reading t \<and> to_resume t = to_resume s @ [h]
     else waiting_for h p n (length (concat cs)) t \<and> to_resume t = to_resume s"
    by (auto cong: if_cong)
  with assms(7) have "to_resume t = to_resume s @ (if length (concat cs) = unat n then [h] else [])"
    "readFlag t \<longleftrightarrow> length (concat cs) < unat n"
    by (auto simp: idle_def waiting_for_def split: if_splits)
  with t(1,2) r(1) show ?thesis by (simp add: andthen_Inr)
qed

theorem socket_read_exact_witness:
  "\<exists>t. andthen (raw_read 1 10 3) (\<lambda>_. deliver_all (- 105) [[1], [2, 3]])
      (socket_new (''a'', 1) (''b'', 2) (\<lambda>_. 0) (\<lambda>_. promise_new ())) = (Inr (), t) \<and>
    load_bytes 10 3 (memory t) = [1, 2, 3] \<and> to_resume t = [1]"
proof -
  have "(- 105 :: u64) <s 0" by (simp add: word_sless_alt)
  from socket_read_exact [of "socket_new (''a'', 1) (''b'', 2) (\<lambda>_. 0) (\<lambda>_. promise_new ())" 3
      "- 105" "[[1], [2, 3]]" 1 10, OF _ _ _ _ this]
  show ?thesis by (force simp: socket_new_def)
qed


text \<open>
  Two reads, the first completed by two chunks and the second, not yet awaited, ended by the stream.
\<close>

definition two_reads :: "sock_event list" where
  "two_reads = [EvRead 1 10 3, EvAwait 1 9, EvData [1], EvData [2, 3], EvRead 2 20 1]"


text \<open>
  C40: the event loop writes only into the destination of the pending read.  After any sequence of
  events, a chunk that fits in the room the allocation callback offers changes no byte outside the
  \<open>n\<close> bytes at \<open>p\<close> the pending \<open>rawRead(p, n)\<close> asked for, and there is such a read.
\<close>

theorem socket_read_bounds:
  assumes "nobufs <s 0" "sock_run nobufs es (socket_new a b m ps) = (r, s)"
    and "chunk_fits bs s" "memory (snd (deliver nobufs bs s)) x \<noteq> memory s x"
  shows "\<exists>p. readBufferData s = Some p \<and> p \<le> x \<and> x < p + unat (readBufferSize s)"
proof -
  from chunk_fits_reader [OF sock_run_base(1) [OF assms(1,2)] assms(3)] obtain h p k where w:
    "waiting_for h p (readBufferSize s) k s" "bs \<noteq> []" "k + length bs \<le> unat (readBufferSize s)"
    by blast
  from deliver_waiting [OF this assms(1)] assms(4)
  have "store_bytes (p + k) bs (memory s) x \<noteq> memory s x" by (simp add: after_chunk_memory)
  from store_bytes_outside [OF this] w show ?thesis by (auto simp: waiting_for_def)
qed

theorem socket_read_bounds_witness:
  "let s = snd (sock_run (- 105) [EvRead 1 10 3]
        (socket_new (''a'', 1) (''b'', 2) (\<lambda>_. 0) (\<lambda>_. (promise_new ())\<lparr>callerCoroutine := Some 9\<rparr>)))
   in \<exists>p. readBufferData s = Some p \<and> p \<le> 11 \<and> 11 < p + unat (readBufferSize s)"
proof -
  let ?init = "socket_new (''a'', 1) (''b'', 2) (\<lambda>_. 0) (\<lambda>_. (promise_new ())\<lparr>callerCoroutine := Some 9\<rparr>)"
  let ?s = "snd (sock_run (- 105) [EvRead 1 10 3] ?init)"
  have r: "sock_run (- 105) [EvRead 1 10 3] ?init = (fst (sock_run (- 105) [EvRead 1 10 3] ?init), ?s)"
    by (simp only: prod.collapse)
  have n: "(- 105 :: u64) <s 0" by (simp add: word_sless_alt)
  let ?start = "?init\<lparr>promises := (promises ?init)(1 := promise_new ())\<rparr>"
  have "?s = snd (raw_read 1 10 3 ?start)"
    by (simp add: raw_read_suspends start_read_def modify_run socket_new_def andthen_def ret_def)
  then have w: "waiting_for 1 10 3 0 ?s" using waiting_after_raw_read [of ?start 3 1 10]
    by (simp add: socket_new_def)
  have f: "chunk_fits [5, 6] ?s" 
    using alloc_waiting(2) [OF w] unfolding chunk_fits_def
    by (simp add: raw_read_suspends start_read_def modify_run socket_new_def andthen_def ret_def)
  have "deliver (- 105) [5, 6] ?s = (Inr (), after_chunk 1 10 3 0 [5, 6] ?s)"
    by (rule deliver_waiting [OF w _ _ n]) simp_all
  then have "memory (snd (deliver (- 105) [5, 6] ?s)) 11 = 6"
    by (simp only: snd_conv after_chunk_memory) (simp add: store_bytes_def)
  moreover have "memory ?s 11 = 0"
    by (simp add: raw_read_suspends start_read_def modify_run socket_new_def andthen_def ret_def)
  ultimately have "memory (snd (deliver (- 105) [5, 6] ?s)) 11 \<noteq> memory ?s 11" by simp
  from socket_read_bounds [OF n r f this] show ?thesis unfolding Let_def .
qed

text \<open>
  Closing wakes the reader with the right exception.  After any sequence of events that succeeded, the end
  of the stream, the close event and an error resume the coroutine that waits in \<open>rawRead\<close> and is
  awaited, release the read flag, and the one awaiting it gets a \<open>ClosedTransportException\<close>.
\<close>

lemma socket_close_raises:
  assumes "nobufs <s 0" "sock_run nobufs es (socket_new a b m ps) = (Inr (), s)"
    and "e \<in> {EvEnd, EvClosed, EvError}" "readPromiseHandle s = Some h"
    and "callerCoroutine (promises s h) \<noteq> None"
  shows "\<exists>t. sock_do nobufs e s = (Inr (), t) \<and> to_resume t = to_resume s @ [h] \<and> \<not> readFlag t \<and>
    fst (co_await_value (snd (final_suspend (promises t h)))) = Inl (raise ClosedTransportException)"
proof -
  from sock_run_base [OF assms(1,2)] have i: "sock_inv s" "sock_base s" by simp_all
  have "\<exists>t. sock_do nobufs e s = (Inr (), t) \<and> to_resume t = to_resume s @ [h] \<and> \<not> readFlag t \<and>
      promises t h = closed_promise (promises s h)"
    using assms(3) end_event_reader [OF i(1) assms(4,5)] on_close_reader [OF i(2) assms(4,5)]
      sock_base_reader(3) [OF i(2) assms(4)]
    by (auto simp: close_event_def error_event_def closed_reader_def)
  then show ?thesis by (fastforce simp: await_closed_promise)
qed

lemma socket_close_raises_witness:
  "\<exists>s t. sock_run (- 105) [EvRead 1 10 3, EvAwait 1 9]
        (socket_new (''a'', 1) (''b'', 2) (\<lambda>_. 0) (\<lambda>_. promise_new ())) = (Inr (), s) \<and>
     sock_do (- 105) EvError s = (Inr (), t) \<and> to_resume t = [1] \<and>
     fst (co_await_value (snd (final_suspend (promises t 1)))) = Inl (raise ClosedTransportException)"
proof -
  have n: "(- 105 :: u64) <s 0" by (simp add: word_sless_alt)
  obtain s where s: "sock_run (- 105) [EvRead 1 10 3, EvAwait 1 9]
      (socket_new (''a'', 1) (''b'', 2) (\<lambda>_. 0) (\<lambda>_. promise_new ())) = (Inr (), s)"
    "to_resume s = []" "readPromiseHandle s = Some 1" "callerCoroutine (promises s 1) \<noteq> None"
    by (simp add: start_read_def raw_read_suspends andthen_def modify_run assert_that_run ret_run
        socket_new_def promise_new_def on_promise_def set_caller_coroutine_def)
  from socket_close_raises [OF n s(1) _ s(3,4), of EvError] s show ?thesis by auto
qed

subsection \<open>What it guarantees to its writer\<close>

text \<open>The state of the kernel after \<open>n\<close> attempts.\<close>

primrec attempts :: "('k \<Rightarrow> bytes \<Rightarrow> int \<times> 'k) \<Rightarrow> bytes \<Rightarrow> nat \<Rightarrow> 'k \<Rightarrow> 'k" where
  "attempts try_write bs 0 k = k"
| "attempts try_write bs (Suc n) k = attempts try_write bs n (snd (try_write k bs))"

lemma try_write_loop_attempts:
  assumes "\<And>i. i < n \<Longrightarrow> fst (try_write (attempts try_write bs i k) bs) = eagain"
    and "fst (try_write (attempts try_write bs n k) bs) \<noteq> eagain"
  shows "try_write_loop try_write eagain bs k = Some (attempts try_write bs (Suc n) k)"
  using assms
proof (induction n arbitrary: k)
  case 0
  then show ?case by (subst try_write_loop.simps) (simp add: Let_def)
next
  case (Suc n)
  from Suc.prems(1) [of 0] have e: "fst (try_write k bs) = eagain" by simp
  have "fst (try_write (attempts try_write bs i (snd (try_write k bs))) bs) = eagain" if "i < n" for i
    using Suc.prems(1) [of "Suc i"] that by simp
  with Suc.IH [of "snd (try_write k bs)"] Suc.prems(2) e show ?case
    by (subst try_write_loop.simps) (simp add: Let_def)
qed

text \<open>
  \<open>rawWrite\<close> retries while the socket is busy, and only then.  If the kernel answers
  \<open>UV_EAGAIN\<close> to the first \<open>n\<close> attempts and something else to the next, the call returns after that
  attempt with the write flag released, and the kernel has seen exactly these attempts: the result
  of the last one, an error or a count of bytes, is not looked at.
\<close>

lemma raw_write_retries:
  assumes "\<not> writeFlag s"
    and "\<And>i. i < n \<Longrightarrow> fst (try_write (attempts try_write bs i k) bs) = eagain"
    and "fst (try_write (attempts try_write bs n k) bs) \<noteq> eagain"
  shows "raw_write try_write eagain bs (s, k) =
    Some (Inr (), s\<lparr>writeFlag := False\<rparr>, attempts try_write bs (Suc n) k)"
  using assms(1) try_write_loop_attempts [of n try_write bs k eagain] assms(2,3)
  by (simp add: raw_write_def)

text \<open>
  A kernel with a send queue: the bytes sent, and how many the next attempts accept; an attempt
  that finds no room gives \<open>UV_EAGAIN\<close>.
\<close>

fun queue_try_write :: "bytes \<times> nat list \<Rightarrow> bytes \<Rightarrow> int \<times> bytes \<times> nat list" where
  "queue_try_write (sent, []) bs = (int (length bs), sent @ bs, [])"
| "queue_try_write (sent, c # cs) bs =
     (if c = 0 then (- 11, sent, cs) else (int (min c (length bs)), sent @ take c bs, cs))"

lemma raw_write_retries_witness:
  "raw_write queue_try_write (- 11) [1, 2, 3]
     (socket_new (''a'', 1) (''b'', 2) (\<lambda>_. 0) (\<lambda>_. promise_new ()), [], [0, 0]) =
   Some (Inr (), socket_new (''a'', 1) (''b'', 2) (\<lambda>_. 0) (\<lambda>_. promise_new ()), [1, 2, 3], [])"
proof -
  let ?s = "socket_new (''a'', 1) (''b'', 2) (\<lambda>_. 0) (\<lambda>_. promise_new ())"
  let ?tw = "queue_try_write" and ?bs = "[1, 2, 3] :: bytes"
  have "fst (?tw (attempts ?tw ?bs i ([], [0, 0])) ?bs) = - 11" if "i < 2" for i
    using that by (auto simp: less_2_cases_iff)
  moreover have "fst (?tw (attempts ?tw ?bs 2 ([], [0, 0])) ?bs) \<noteq> - 11"
    by (simp add: numeral_2_eq_2)
  ultimately have "raw_write ?tw (- 11) ?bs (?s, [], [0, 0]) =
      Some (Inr (), ?s\<lparr>writeFlag := False\<rparr>, attempts ?tw ?bs (Suc 2) ([], [0, 0]))"
    by (intro raw_write_retries) (simp_all add: socket_new_def)
  then show ?thesis by (simp add: numeral_2_eq_2 socket_new_def)
qed

text \<open>
  A partial write is lost.  When the socket accepts only the first \<open>c\<close> of the bytes, the rest is
  neither sent nor reported: \<open>rawWrite\<close> returns as if it had written everything.
\<close>

lemma raw_write_partial:
  "raw_write queue_try_write (- 11) bs (socket_new a b m ps, sent, [Suc c]) =
     Some (Inr (), socket_new a b m ps, sent @ take (Suc c) bs, [])"
  by (simp add: raw_write_def socket_new_def try_write_loop.simps [of queue_try_write] Let_def)

end
