(* ===== verification/Overlays.thy ===== *)
theory Overlays
  imports Sockets Buffers
begin

section \<open>The transport interface and its overlays\<close>

text \<open>
  \<open>transport/Transport.h\<close> declares the virtual operations every transport offers; \<open>Transport.cpp\<close>,
  \<open>TransportWrapper.h\<close> and \<open>SecureOverlayTransport.cpp\<close> are written against them.  A transport is
  the record of its operations over a state \<open>'s\<close>; awaiting \<open>rawRead\<close> is one action that ends when
  the bytes are there or with the exception the awaiting coroutine gets.
\<close>

record 's transport =
  op_raw_read :: "nat \<Rightarrow> u32 \<Rightarrow> ('s, unit) act"
  op_raw_write :: "bytes \<Rightarrow> ('s, unit) act"
  op_close :: "('s, unit) act"

text \<open>\<open>readBuffer\<close>: the block is allocated at \<open>p\<close>; \<open>mem\<close> reads the memory out of the state.\<close>

definition read_buffer ::
    "'s transport \<Rightarrow> ('s \<Rightarrow> nat \<Rightarrow> u8) \<Rightarrow> nat \<Rightarrow> u32 \<Rightarrow> ('s, buffer) act" where
  "read_buffer T mem p responseLength =
     andthen (op_raw_read T p responseLength) (\<lambda>_ s.
       (Inr (buffer_of_ptr (load_bytes p (unat responseLength) (mem s)) responseLength), s))"

definition transport_wrapper :: "'s transport \<Rightarrow> 's transport" where
  "transport_wrapper T =
     \<lparr>op_raw_read = (\<lambda>data sz. op_raw_read T data sz),
      op_raw_write = (\<lambda>data. op_raw_write T data),
      op_close = op_close T\<rparr>"

text \<open>The secure overlay keeps a cypher and a scratch buffer, neither of which it uses.\<close>

record ('s, 'c) secure_overlay =
  so_transport :: "'s transport"
  so_cypher :: "'c option"
  so_buffer :: bytes

definition secure_raw_write :: "('s, 'c) secure_overlay \<Rightarrow> bytes \<Rightarrow> ('s, unit) act" where
  "secure_raw_write so data = op_raw_write (so_transport so) data"

definition secure_close :: "('s, 'c) secure_overlay \<Rightarrow> ('s, unit) act" where
  "secure_close so = op_close (so_transport so)"

definition secure_raw_read :: "('s, 'c) secure_overlay \<Rightarrow> nat \<Rightarrow> u32 \<Rightarrow> ('s, unit) act" where
  "secure_raw_read so data sz = andthen (op_raw_read (so_transport so) data sz) (\<lambda>_. ret ())"

definition secure_transport :: "('s, 'c) secure_overlay \<Rightarrow> 's transport" where
  "secure_transport so =
     \<lparr>op_raw_read = secure_raw_read so, op_raw_write = secure_raw_write so,
      op_close = secure_close so\<rparr>"

text \<open>The handshakes: the client ignores the key it is given, the server returns an empty one.\<close>

definition create_client_side :: "'s transport \<Rightarrow> bytes \<Rightarrow> ('s, 'c) secure_overlay" where
  "create_client_side T remotePublicKey =
     \<lparr>so_transport = T, so_cypher = None, so_buffer = []\<rparr>"

definition create_server_side :: "'s transport \<Rightarrow> ('s, 'c) secure_overlay \<times> bytes" where
  "create_server_side T = (\<lparr>so_transport = T, so_cypher = None, so_buffer = []\<rparr>, [])"

subsection \<open>The contract of a transport\<close>

text \<open>
  What the code that reads messages relies on: bytes come out in the order they came in, as many
  as asked for, and a stream that ends too early gives \<open>ClosedTransportException\<close>.
\<close>

locale byte_stream =
  fixes T :: "'s transport"
    and mem :: "'s \<Rightarrow> nat \<Rightarrow> u8"
    and incoming :: "'s \<Rightarrow> bytes"
    and outgoing :: "'s \<Rightarrow> bytes"
    and ok :: "'s \<Rightarrow> bool"
  assumes read_ok: "ok s \<Longrightarrow> unat n \<le> length (incoming s) \<Longrightarrow>
      \<exists>t. op_raw_read T p n s = (Inr (), t) \<and> ok t \<and>
        mem t = store_bytes p (take (unat n) (incoming s)) (mem s) \<and>
        incoming t = drop (unat n) (incoming s) \<and> outgoing t = outgoing s"
    and read_short: "ok s \<Longrightarrow> length (incoming s) < unat n \<Longrightarrow>
      \<exists>t. op_raw_read T p n s = (Inl (raise ClosedTransportException), t)"
    and write_ok: "ok s \<Longrightarrow>
      \<exists>t. op_raw_write T bs s = (Inr (), t) \<and> ok t \<and> mem t = mem s \<and>
        incoming t = incoming s \<and> outgoing t = outgoing s @ bs"
begin

lemma read_buffer_ok:
  assumes "ok s" "unat n \<le> length (incoming s)"
  shows "\<exists>t. read_buffer T mem p n s =
      (Inr (buffer_of_ptr (take (unat n) (incoming s)) n), t) \<and> ok t \<and>
    incoming t = drop (unat n) (incoming s) \<and> outgoing t = outgoing s"
proof -
  from read_ok [OF assms, of p] assms(2) show ?thesis
    by (auto simp: read_buffer_def andthen_Inr)
qed

lemma read_buffer_short:
  assumes "ok s" "length (incoming s) < unat n"
  shows "\<exists>t. read_buffer T mem p n s = (Inl (raise ClosedTransportException), t)"
  using read_short [OF assms, of p] by (auto simp: read_buffer_def andthen_Inl)

lemma read_twice:
  assumes "ok s" "unat m + unat n \<le> length (incoming s)"
  shows "\<exists>t. andthen (op_raw_read T p m) (\<lambda>_. op_raw_read T (p + unat m) n) s = (Inr (), t) \<and> ok t \<and>
    mem t = store_bytes p (take (unat m + unat n) (incoming s)) (mem s) \<and>
    incoming t = drop (unat m + unat n) (incoming s)"
proof -
  from assms(2) have l: "unat m \<le> length (incoming s)" by simp
  from read_ok [OF assms(1) l, of p] obtain u where u: "op_raw_read T p m s = (Inr (), u)" "ok u"
    "mem u = store_bytes p (take (unat m) (incoming s)) (mem s)"
    "incoming u = drop (unat m) (incoming s)" by blast
  from assms(2) u(4) have "unat n \<le> length (incoming u)" by simp
  from read_ok [OF u(2) this, of "p + unat m"] obtain t where
    t: "op_raw_read T (p + unat m) n u = (Inr (), t)" "ok t"
    "mem t = store_bytes (p + unat m) (take (unat n) (incoming u)) (mem u)"
    "incoming t = drop (unat n) (incoming u)" by blast
  have "mem t = store_bytes p (take (unat m + unat n) (incoming s)) (mem s)"
    using store_bytes_append [of p "take (unat m) (incoming s)" "take (unat n) (incoming u)" "mem s"]
      t(3) u(3,4) l by (simp add: take_add)
  with t u show ?thesis by (auto simp: andthen_Inr add.commute)
qed

text \<open>The overlays keep the contract.\<close>

lemma wrapper_stream: "byte_stream (transport_wrapper T) mem incoming outgoing ok"
  by unfold_locales (simp_all add: transport_wrapper_def read_ok read_short write_ok)

lemma secure_stream:
  "so_transport so = T \<Longrightarrow> byte_stream (secure_transport so) mem incoming outgoing ok"
  by unfold_locales
    (simp_all add: secure_transport_def secure_raw_read_def secure_raw_write_def read_ok read_short
      write_ok)

end

subsection \<open>A connection over a plain socket\<close>

text \<open>
  The socket with its two ends of the network: the segments the peer has sent, in the pieces in
  which the kernel has them, and the bytes sent to it.  A read that finds too few bytes sees the
  end of the stream.
\<close>

record conn =
  sock :: socket
  segments :: "bytes list"
  sent :: bytes

text \<open>The event loop hands segments to the pending read until it is served.\<close>

fun pump :: "u64 \<Rightarrow> bytes list \<Rightarrow> socket \<Rightarrow> (err + bytes list) \<times> socket" where
  "pump nobufs [] s = (case end_event s of (Inl e, t) \<Rightarrow> (Inl e, t) | (Inr _, t) \<Rightarrow> (Inr [], t))"
| "pump nobufs (seg # segs) s =
     (let room = unat (snd (alloc_callback s)) in
      if seg = [] then pump nobufs segs s
      else
        (case deliver nobufs (take room seg) s of
           (Inl e, t) \<Rightarrow> (Inl e, t)
         | (Inr _, t) \<Rightarrow>
             if readPromiseHandle t = None then (Inr (drop room seg # segs), t)
             else pump nobufs segs t))"

text \<open>
  \<open>co_await rawRead(p, n)\<close>: the coroutine of \<open>rawRead\<close> is created at \<open>h\<close>, awaited by \<open>caller\<close>,
  runs to its suspension, and its promise gives the outcome when it has been resumed.
\<close>

definition conn_read :: "u64 \<Rightarrow> handle \<Rightarrow> handle \<Rightarrow> nat \<Rightarrow> u32 \<Rightarrow> (conn, unit) act" where
  "conn_read nobufs caller h p n c =
     (let s = (sock c)\<lparr>promises := (promises (sock c))
                 (h := (promise_new ())\<lparr>callerCoroutine := Some caller\<rparr>)\<rparr>;
          outcome = (\<lambda>t. fst (co_await_value (snd (final_suspend (promises t h))))) in
      case raw_read h p n s of
        (Inl e, t) \<Rightarrow> (Inl e, c\<lparr>sock := t\<rparr>)
      | (Inr Suspended, t) \<Rightarrow>
          (case pump nobufs (segments c) t of
             (Inl e, u) \<Rightarrow> (Inl e, c\<lparr>sock := u\<rparr>)
           | (Inr segs, u) \<Rightarrow> (outcome u, c\<lparr>sock := u, segments := segs\<rparr>))
      | (Inr _, t) \<Rightarrow> (outcome t, c\<lparr>sock := t\<rparr>))"

text \<open>Writing to a kernel with room for everything.\<close>

definition room_try_write :: "bytes \<Rightarrow> bytes \<Rightarrow> int \<times> bytes" where
  "room_try_write w bs = (int (length bs), w @ bs)"

definition conn_write :: "bytes \<Rightarrow> (conn, unit) act" where
  "conn_write bs c =
     (case raw_write room_try_write (- 11) bs (sock c, sent c) of
        None \<Rightarrow> (Inl (AssertFailed ''rawWrite does not return''), c)
      | Some (r, s, w) \<Rightarrow> (r, c\<lparr>sock := s, sent := w\<rparr>))"

definition conn_close :: "(conn, unit) act" where
  "conn_close c = (case socket_close (sock c) of (r, s) \<Rightarrow> (r, c\<lparr>sock := s\<rparr>))"

definition plain_transport :: "u64 \<Rightarrow> handle \<Rightarrow> handle \<Rightarrow> conn transport" where
  "plain_transport nobufs caller h =
     \<lparr>op_raw_read = conn_read nobufs caller h, op_raw_write = conn_write, op_close = conn_close\<rparr>"

definition conn_ok :: "conn \<Rightarrow> bool" where
  "conn_ok c \<longleftrightarrow> idle (sock c) \<and> alive (sock c) \<and> \<not> closing (sock c) \<and> \<not> writeFlag (sock c)"

lemma pump_serves:
  assumes "waiting_for h p n k s" "nobufs <s 0" "unat n - k \<le> length (concat segs)"
  shows "\<exists>t segs'. pump nobufs segs s = (Inr segs', t) \<and>
    memory t = store_bytes (p + k) (take (unat n - k) (concat segs)) (memory s) \<and>
    concat segs' = drop (unat n - k) (concat segs) \<and>
    idle t \<and> alive t \<and> closing t = closing s \<and> writeFlag t = writeFlag s \<and>
    promises t = promises s"
  using assms
proof (induction segs arbitrary: k s)
  case Nil
  then show ?case by (simp add: waiting_for_def)
next
  case (Cons seg segs)
  note w = Cons.prems(1)
  have k: "k < unat n" using w by (simp add: waiting_for_def)
  note room = alloc_waiting(2) [OF w]
  show ?case
  proof (cases "seg = []")
    case True
    with Cons.IH [OF w Cons.prems(2)] Cons.prems(3) show ?thesis by (simp add: Let_def)
  next
    case seg: False
    let ?bs = "take (unat n - k) seg"
    let ?t = "after_chunk h p n k ?bs s"
    have "deliver nobufs ?bs s = (Inr (), ?t)"
      using seg k by (intro deliver_waiting [OF w _ _ Cons.prems(2)]) simp_all
    then have p: "pump nobufs (seg # segs) s =
        (if readPromiseHandle ?t = None then (Inr (drop (unat n - k) seg # segs), ?t)
         else pump nobufs segs ?t)"
      using seg room by (simp add: Let_def)
    have frame: "alive ?t" "closing ?t = closing s" "writeFlag ?t = writeFlag s"
      "promises ?t = promises s"
      using w by (simp_all add: after_chunk_def Let_def waiting_for_def)
    show ?thesis
    proof (cases "unat n - k \<le> length seg")
      case True
      with k have l: "k + length ?bs = unat n" by simp
      from after_chunk_idle [OF w l] p frame True show ?thesis
        by (auto simp: after_chunk_memory idle_def)
    next
      case False
      then have b: "?bs = seg" by simp
      with False have "k + length ?bs < unat n" by simp
      from after_chunk_waiting [OF w this] b have w': "waiting_for h p n (k + length seg) ?t" by simp
      moreover have "unat n - (k + length seg) \<le> length (concat segs)"
        using Cons.prems(3) False by simp
      ultimately obtain t segs' where t: "pump nobufs segs ?t = (Inr segs', t)"
        "memory t = store_bytes (p + (k + length seg))
           (take (unat n - (k + length seg)) (concat segs)) (memory ?t)"
        "concat segs' = drop (unat n - (k + length seg)) (concat segs)"
        "idle t" "alive t" "closing t = closing ?t" "writeFlag t = writeFlag ?t"
        "promises t = promises ?t"
        using Cons.IH [OF _ Cons.prems(2)] by blast
      have "readPromiseHandle ?t \<noteq> None" using w' by (simp add: waiting_for_def)
      with p t(1) have "pump nobufs (seg # segs) s = (Inr segs', t)" by simp
      moreover have "memory t = store_bytes (p + k) (take (unat n - k) (concat (seg # segs))) (memory s)"
        using t(2) b False store_bytes_append [of "p + k" seg _ "memory s"]
        by (simp add: after_chunk_memory add.assoc)
      ultimately show ?thesis using t frame False by simp
    qed
  qed
qed

lemma pump_short:
  assumes "waiting_for h p n k s" "nobufs <s 0" "length (concat segs) < unat n - k"
    and "awaited (promises s h)"
  shows "\<exists>t. pump nobufs segs s = (Inr [], t) \<and> promises t h = closed_promise (promises s h)"
  using assms
proof (induction segs arbitrary: k s)
  case Nil
  have "end_event s = (Inr (), closed_reader h s)"
    using Nil.prems(1,4) raise_and_schedule [of s h] by (simp add: end_event_def waiting_for_def)
  then show ?case by (simp add: closed_reader_def)
next
  case (Cons seg segs)
  note w = Cons.prems(1)
  show ?case
  proof (cases "seg = []")
    case True
    with Cons show ?thesis by (simp add: Let_def)
  next
    case False
    let ?t = "after_chunk h p n k seg s"
    have l: "k + length seg < unat n" using Cons.prems(3) by simp
    have "deliver nobufs seg s = (Inr (), ?t)"
      using False l by (intro deliver_waiting [OF w _ _ Cons.prems(2)]) simp_all
    moreover note after_chunk_waiting [OF w l]
    moreover have "readPromiseHandle ?t \<noteq> None" "promises ?t = promises s"
      using l w by (simp_all add: after_chunk_def Let_def waiting_for_def)
    moreover have "length (concat segs) < unat n - (k + length seg)" using Cons.prems(3) by simp
    ultimately show ?thesis
      using Cons.IH [of "k + length seg" ?t] Cons.prems(2,4) False alloc_waiting(2) [OF w] l
      by (simp add: Let_def)
  qed
qed

lemma final_suspend_awaited:
  "awaited pr \<Longrightarrow> fst (co_await_value (snd (final_suspend pr))) = Inr (val pr)"
  by (simp add: co_await_finished final_suspend_def awaited_def)

lemma awaited_fresh: "awaited ((promise_new ())\<lparr>callerCoroutine := Some caller\<rparr>)"
  by (simp add: awaited_def promise_new_def)

lemma conn_read_suspends:
  assumes "conn_ok c" "n \<noteq> 0"
  obtains s where
    "waiting_for h p n 0 s" "memory s = memory (sock c)" "awaited (promises s h)"
    "closing s = closing (sock c)" "writeFlag s = writeFlag (sock c)"
    "conn_read nobufs caller h p n c =
      (case pump nobufs (segments c) s of
         (Inl e, u) \<Rightarrow> (Inl e, c\<lparr>sock := u\<rparr>)
       | (Inr segs, u) \<Rightarrow>
           (fst (co_await_value (snd (final_suspend (promises u h)))),
            c\<lparr>sock := u, segments := segs\<rparr>))"
proof -
  let ?s = "(sock c)\<lparr>promises := (promises (sock c))
      (h := (promise_new ())\<lparr>callerCoroutine := Some caller\<rparr>)\<rparr>"
  from assms have o: "\<not> readFlag ?s" "alive ?s" "\<not> closing ?s" by (simp_all add: conn_ok_def idle_def)
  obtain t where t: "raw_read h p n ?s = (Inr Suspended, t)"
    using raw_read_suspends [OF o(1) assms(2) o(3), of h p] by blast
  have f: "memory t = memory (sock c)" "awaited (promises t h)" "closing t = closing (sock c)"
    "writeFlag t = writeFlag (sock c)"
    using t raw_read_suspends [OF o(1) assms(2) o(3), of h p] by (auto simp: awaited_fresh)
  have "waiting_for h p n 0 t"
    using waiting_after_raw_read [OF o(1) assms(2) o(3,2), of h p] t by simp
  from that [OF this f] t show thesis by (simp add: conn_read_def Let_def)
qed

lemma conn_read_zero:
  "conn_ok c \<Longrightarrow> \<exists>t. conn_read nobufs caller h p 0 c = (Inr (), t) \<and> conn_ok t \<and>
     memory (sock t) = memory (sock c) \<and> segments t = segments c \<and> sent t = sent c"
  by (simp add: conn_read_def Let_def raw_read_def act_simps andthen_def conn_ok_def idle_def
      final_suspend_awaited awaited_fresh)

lemma conn_read_ok:
  assumes n: "nobufs <s 0" and c: "conn_ok c" and l: "unat n \<le> length (concat (segments c))"
  shows "\<exists>t. conn_read nobufs caller h p n c = (Inr (), t) \<and> conn_ok t \<and>
    memory (sock t) = store_bytes p (take (unat n) (concat (segments c))) (memory (sock c)) \<and>
    concat (segments t) = drop (unat n) (concat (segments c)) \<and> sent t = sent c"
proof (cases "n = 0")
  case True
  with conn_read_zero [OF c, of nobufs caller h p] show ?thesis by auto
next
  case False
  from conn_read_suspends [OF c False, of h p nobufs caller] obtain s where
    s: "waiting_for h p n 0 s" "memory s = memory (sock c)" "awaited (promises s h)"
    "closing s = closing (sock c)" "writeFlag s = writeFlag (sock c)"
    and r: "conn_read nobufs caller h p n c =
      (case pump nobufs (segments c) s of
         (Inl e, u) \<Rightarrow> (Inl e, c\<lparr>sock := u\<rparr>)
       | (Inr segs, u) \<Rightarrow>
           (fst (co_await_value (snd (final_suspend (promises u h)))),
            c\<lparr>sock := u, segments := segs\<rparr>))" .
  from pump_serves [OF s(1) n, of "segments c"] l obtain t segs where
    t: "pump nobufs (segments c) s = (Inr segs, t)"
    "memory t = store_bytes p (take (unat n) (concat (segments c))) (memory s)"
    "concat segs = drop (unat n) (concat (segments c))"
    "idle t" "alive t" "closing t = closing s" "writeFlag t = writeFlag s" "promises t = promises s"
    by auto
  with s(2-5) c r show ?thesis
    by (auto simp: final_suspend_awaited conn_ok_def)
qed

lemma conn_read_short:
  assumes n: "nobufs <s 0" and c: "conn_ok c" and l: "length (concat (segments c)) < unat n"
  shows "\<exists>t. conn_read nobufs caller h p n c = (Inl (raise ClosedTransportException), t)"
proof -
  from l have "n \<noteq> 0" by auto
  from conn_read_suspends [OF c this, of h p nobufs caller] obtain s where
    s: "waiting_for h p n 0 s" "awaited (promises s h)"
    and r: "conn_read nobufs caller h p n c =
      (case pump nobufs (segments c) s of
         (Inl e, u) \<Rightarrow> (Inl e, c\<lparr>sock := u\<rparr>)
       | (Inr segs, u) \<Rightarrow>
           (fst (co_await_value (snd (final_suspend (promises u h)))),
            c\<lparr>sock := u, segments := segs\<rparr>))" .
  from pump_short [OF s(1) n _ s(2), of "segments c"] l obtain t where
    "pump nobufs (segments c) s = (Inr [], t)" "promises t h = closed_promise (promises s h)"
    by auto
  with r show ?thesis by (simp add: await_closed_promise)
qed

lemma conn_write_ok:
  "conn_ok c \<Longrightarrow> conn_write bs c =
     (Inr (), c\<lparr>sock := (sock c)\<lparr>writeFlag := False\<rparr>, sent := sent c @ bs\<rparr>)"
  by (simp add: conn_write_def raw_write_def conn_ok_def room_try_write_def Let_def
      try_write_loop.simps [of room_try_write])

text \<open>libuv's code for a missing buffer is negative; \<open>UV_ENOBUFS\<close> is -105 on Linux.\<close>

abbreviation uv_enobufs :: u64 where
  "uv_enobufs \<equiv> - 105"

lemma uv_enobufs_negative: "uv_enobufs <s 0"
  by (simp add: word_sless_alt)

interpretation plain: byte_stream "plain_transport uv_enobufs caller h" "\<lambda>c. memory (sock c)"
    "\<lambda>c. concat (segments c)" sent conn_ok for caller h
proof unfold_locales
  show "\<exists>t. op_raw_read (plain_transport uv_enobufs caller h) p n s = (Inr (), t) \<and> conn_ok t \<and>
      memory (sock t) = store_bytes p (take (unat n) (concat (segments s))) (memory (sock s)) \<and>
      concat (segments t) = drop (unat n) (concat (segments s)) \<and> sent t = sent s"
    if "conn_ok s" "unat n \<le> length (concat (segments s))" for s n p
    using conn_read_ok [OF uv_enobufs_negative that] by (simp add: plain_transport_def)
  show "\<exists>t. op_raw_read (plain_transport uv_enobufs caller h) p n s =
      (Inl (raise ClosedTransportException), t)"
    if "conn_ok s" "length (concat (segments s)) < unat n" for s n p
    using conn_read_short [OF uv_enobufs_negative that] by (simp add: plain_transport_def)
  show "\<exists>t. op_raw_write (plain_transport uv_enobufs caller h) bs s = (Inr (), t) \<and> conn_ok t \<and>
      memory (sock t) = memory (sock s) \<and> concat (segments t) = concat (segments s) \<and>
      sent t = sent s @ bs"
    if "conn_ok s" for s bs
    using conn_write_ok [OF that] that by (simp add: plain_transport_def conn_ok_def idle_def)
qed

interpretation wrapped: byte_stream "transport_wrapper (plain_transport uv_enobufs caller h)"
    "\<lambda>c. memory (sock c)" "\<lambda>c. concat (segments c)" sent conn_ok for caller h
  by (rule plain.wrapper_stream)

abbreviation client_overlay :: "handle \<Rightarrow> handle \<Rightarrow> bytes \<Rightarrow> conn transport" where
  "client_overlay caller h key \<equiv>
     secure_transport (create_client_side (plain_transport uv_enobufs caller h) key
       :: (conn, unit) secure_overlay)"

interpretation secure: byte_stream "client_overlay caller h key"
    "\<lambda>c. memory (sock c)" "\<lambda>c. concat (segments c)" sent conn_ok for caller h key
  by (rule plain.secure_stream) (simp add: create_client_side_def)

subsection \<open>What a reader of messages gets\<close>

text \<open>
  \<open>readBuffer\<close> returns the next bytes of the stream.  Through the secure overlay over a plain
  socket, however the network cut the stream into segments, a \<open>readBuffer(n)\<close> gives a buffer with
  exactly the next \<open>n\<close> bytes and leaves the rest for the next read; if the peer closes before \<open>n\<close>
  bytes arrived, the caller gets a \<open>ClosedTransportException\<close>.
\<close>

lemma overlay_read_buffer:
  assumes "conn_ok c"
  shows "if unat n \<le> length (concat (segments c))
    then \<exists>t. read_buffer (client_overlay caller h key) (\<lambda>c. memory (sock c)) p n c =
        (Inr (buffer_of_ptr (take (unat n) (concat (segments c))) n), t) \<and> conn_ok t \<and>
      concat (segments t) = drop (unat n) (concat (segments c))
    else \<exists>t. read_buffer (client_overlay caller h key) (\<lambda>c. memory (sock c)) p n c =
        (Inl (raise ClosedTransportException), t)"
proof (cases "unat n \<le> length (concat (segments c))")
  case True
  from secure.read_buffer_ok [OF assms True, of caller h key p] True show ?thesis by auto
next
  case False
  then have l: "length (concat (segments c)) < unat n" by simp
  from secure.read_buffer_short [OF assms l, of caller h key p] False show ?thesis by simp
qed

lemma overlay_read_buffer_witness:
  "\<exists>t. read_buffer (client_overlay 1 2 []) (\<lambda>c. memory (sock c)) 64 3
      \<lparr>sock = socket_new (''a'', 1) (''b'', 2) (\<lambda>_. 0) (\<lambda>_. promise_new ()),
       segments = [[7], [8, 9, 10]], sent = []\<rparr> =
    (Inr (buffer_of_ptr [7, 8, 9] 3), t) \<and> concat (segments t) = [10]"
proof -
  let ?c = "\<lparr>sock = socket_new (''a'', 1) (''b'', 2) (\<lambda>_. 0) (\<lambda>_. promise_new ()),
       segments = [[7], [8, 9, 10]], sent = []\<rparr>"
  have "conn_ok ?c" by (simp add: conn_ok_def socket_new_def idle_def)
  from overlay_read_buffer [OF this, of 3 1 2 "[]" 64] show ?thesis by auto
qed

text \<open>
  Two reads are one.  Reading \<open>m\<close> and then \<open>n\<close> bytes into adjacent destinations through a
  transport wrapper leaves the memory and the stream as one read of \<open>m + n\<close> bytes does.
\<close>

lemma wrapper_reads_compose:
  assumes "conn_ok c" "unat m + unat n \<le> length (concat (segments c))"
  shows "let T = transport_wrapper (plain_transport uv_enobufs caller h) in
    \<exists>t. andthen (op_raw_read T p m) (\<lambda>_. op_raw_read T (p + unat m) n) c = (Inr (), t) \<and>
      memory (sock t) =
        store_bytes p (take (unat m + unat n) (concat (segments c))) (memory (sock c)) \<and>
      concat (segments t) = drop (unat m + unat n) (concat (segments c))"
  using wrapped.read_twice [OF assms, of caller h p] unfolding Let_def by blast

text \<open>
  The secure overlay protects nothing.  What is written to either side of it leaves the plain
  socket below unchanged and in clear, whatever key the client was given, and the key of the peer
  that the server side reports is empty.
\<close>

lemma secure_overlay_plaintext:
  assumes "conn_ok c"
  shows "(\<exists>t. op_raw_write (client_overlay caller h key) bs c = (Inr (), t) \<and> sent t = sent c @ bs) \<and>
    (\<exists>t. op_raw_write (secure_transport (fst (create_server_side
        (plain_transport uv_enobufs caller h) :: (conn, unit) secure_overlay \<times> bytes))) bs c =
      (Inr (), t) \<and> sent t = sent c @ bs) \<and>
    snd (create_server_side (plain_transport uv_enobufs caller h)
      :: (conn, unit) secure_overlay \<times> bytes) = []"
proof -
  from secure.write_ok [OF assms, of caller h key bs] plain.write_ok [OF assms, of caller h bs]
  show ?thesis by (auto simp: create_server_side_def secure_transport_def secure_raw_write_def)
qed

lemma secure_overlay_plaintext_witness:
  "\<exists>t. op_raw_write (client_overlay 1 2 [3]) [115, 101]
      \<lparr>sock = socket_new (''a'', 1) (''b'', 2) (\<lambda>_. 0) (\<lambda>_. promise_new ()),
       segments = [], sent = []\<rparr> = (Inr (), t) \<and> sent t = [115, 101]"
proof -
  let ?c = "\<lparr>sock = socket_new (''a'', 1) (''b'', 2) (\<lambda>_. 0) (\<lambda>_. promise_new ()),
       segments = [], sent = []\<rparr>"
  have "conn_ok ?c" by (simp add: conn_ok_def socket_new_def idle_def)
  from secure_overlay_plaintext [OF this, of 1 2 "[3]" "[115, 101]"] show ?thesis by simp
qed

end
