(* ===== verification/Servers.thy ===== *)
theory Servers
  imports Headers Overlays
begin

section \<open>The server side of a connection\<close>

text \<open>
  \<open>proto/ServerHandler.h\<close> and \<open>.cpp\<close>, \<open>ServerResponseState.h\<close> and the handlers of
  \<open>shadow/PingHandler.cpp\<close> and \<open>GetNodeHandler.cpp\<close>.  One coroutine (\<open>listen\<close>) reads requests and
  starts a handler coroutine for each; the handlers run on the thread pool, take turns to write
  their responses, and leave themselves in \<open>finishedHandlers\<close> for \<open>listen\<close> to collect.  A step of
  the model is one stretch between two points where another thread can interfere.

  The nodes of the map \<open>pendingResponses\<close> have stable addresses, and references to them are kept in
  \<open>finishedHandlers\<close> and in the handlers: the map gives the address of the node of a tag, \<open>nodes\<close>
  its content, \<open>None\<close> once it is erased.  \<open>requests\<close> and \<open>answered\<close> are ghosts: the header each
  handler was started for, and the handlers in the order they wrote their response.
\<close>

definition MAX_REQUEST_LENGTH :: u32 where
  "MAX_REQUEST_LENGTH = 1024 * 1024"

record response_state =
  handlerCoro :: "nat option"     \<comment> \<open>the number of the handler\<close>
  requestBuffer :: buffer
  requestHeader :: request_header

definition response_state_default :: response_state where
  "response_state_default =
     \<lparr>handlerCoro = None, requestBuffer = buffer_default,
      requestHeader = \<lparr>requestLength = 0, methodId = 0, tag = 0\<rparr>\<rparr>"

datatype phase =
    Queued      \<comment> \<open>suspended at its first statement and scheduled\<close>
  | Waiting     \<comment> \<open>in \<open>writeLockWaiters\<close>\<close>
  | Woken       \<comment> \<open>scheduled by the handler that released the write lock\<close>
  | Writing     \<comment> \<open>\<open>acquireWriteLock\<close> returned\<close>
  | Handled     \<comment> \<open>the handler of the request returned\<close>
  | Leaving     \<comment> \<open>has passed on the write lock\<close>
  | Finished    \<comment> \<open>suspended at its last statement\<close>
  | Collected   \<comment> \<open>resumed to its end by \<open>listen\<close>\<close>

record handler =
  hd_ref :: nat
  hd_phase :: phase

datatype listener = AwaitHeader | AwaitBody nat | Stopped

record server =
  finishedHandlers :: "nat list"
  pendingResponses :: "(u16, nat) omap"
  nodes :: "nat \<Rightarrow> response_state option"
  next_node :: nat
  handlersKeepingLock :: bool
  writeLock :: bool
  writeLockWaiters :: "nat list"
  listener :: listener
  handlers :: "handler list"
  wire :: bytes
  requests :: "request_header list"
  answered :: "nat list"

definition server_new :: server where
  "server_new =
     \<lparr>finishedHandlers = [], pendingResponses = [], nodes = (\<lambda>_. None), next_node = 0,
      handlersKeepingLock = False, writeLock = False, writeLockWaiters = [],
      listener = AwaitHeader, handlers = [], wire = [], requests = [], answered = []\<rparr>"

subsection \<open>Locks and references\<close>

definition lock_keeping :: "(server, unit) act" where
  "lock_keeping s =
     (if handlersKeepingLock s then (Inl (UB RelockMutex), s)
      else (Inr (), s\<lparr>handlersKeepingLock := True\<rparr>))"

definition unlock_keeping :: "(server, unit) act" where
  "unlock_keeping s =
     (if handlersKeepingLock s then (Inr (), s\<lparr>handlersKeepingLock := False\<rparr>)
      else (Inl (UB UnlockUnowned), s))"

definition deref :: "nat \<Rightarrow> (server, response_state) act" where
  "deref r s = (case nodes s r of None \<Rightarrow> (Inl (UB UseAfterErase), s) | Some e \<Rightarrow> (Inr e, s))"

definition set_node :: "nat \<Rightarrow> response_state \<Rightarrow> (server, unit) act" where
  "set_node r e = modify (\<lambda>s. s\<lparr>nodes := (nodes s)(r \<mapsto> e)\<rparr>)"

definition set_phase :: "nat \<Rightarrow> phase \<Rightarrow> server \<Rightarrow> server" where
  "set_phase i ph s = s\<lparr>handlers := (handlers s)[i := (handlers s ! i)\<lparr>hd_phase := ph\<rparr>]\<rparr>"

definition erase_pending :: "u16 \<Rightarrow> (server, unit) act" where
  "erase_pending t =
     modify (\<lambda>s. case map_of (pendingResponses s) t of
                   None \<Rightarrow> s
                 | Some r \<Rightarrow> s\<lparr>pendingResponses := om_erase t (pendingResponses s),
                               nodes := (nodes s)(r := None)\<rparr>)"

text \<open>\<open>pendingResponses[tag]\<close>: the node of the tag, a new one if there is none.\<close>

definition pending_at :: "u16 \<Rightarrow> (server, nat) act" where
  "pending_at t s =
     (case map_of (pendingResponses s) t of
        Some r \<Rightarrow> (Inr r, s)
      | None \<Rightarrow>
          (Inr (next_node s),
           s\<lparr>pendingResponses := om_put t (next_node s) (pendingResponses s),
             nodes := (nodes s)(next_node s \<mapsto> response_state_default),
             next_node := Suc (next_node s)\<rparr>))"

subsection \<open>Listening\<close>

text \<open>
  \<open>~co_await resumeSuspended(std::move(coro))\<close> on a handler: one that is at its last suspension runs
  to its end; a null coroutine cannot be asked whether it is done; one that waits for the write
  lock is resumed in the middle of an await, where an assertion fails.  \<open>None\<close>: the handler is
  queued or running, and what happens depends on the thread that runs it (theory \<open>Closing\<close>).
\<close>

definition resume_handler :: "nat option \<Rightarrow> server \<Rightarrow> ((err + unit) \<times> server) option" where
  "resume_handler c s =
     (case c of
        None \<Rightarrow> Some (Inl (UB NullCoroutine), s)
      | Some i \<Rightarrow>
          (case hd_phase (handlers s ! i) of
             Finished \<Rightarrow> Some (Inr (), set_phase i Collected s)
           | Collected \<Rightarrow> Some (Inr (), s)
           | Waiting \<Rightarrow> Some (Inl (AssertFailed ''check coroutine only after it exits''), s)
           | _ \<Rightarrow> None))"

text \<open>The loop over \<open>finishedHandlers\<close>; the vector is not emptied.\<close>

fun collect_loop :: "nat list \<Rightarrow> server \<Rightarrow> ((err + unit) \<times> server) option" where
  "collect_loop [] s = Some (Inr (), s)"
| "collect_loop (r # rs) s =
     (case deref r s of
        (Inl x, t) \<Rightarrow> Some (Inl x, t)
      | (Inr e, t) \<Rightarrow>
          (case resume_handler (handlerCoro e) (snd (set_node r (e\<lparr>handlerCoro := None\<rparr>) t)) of
             None \<Rightarrow> None
           | Some (Inl x, u) \<Rightarrow> Some (Inl x, u)
           | Some (Inr _, u) \<Rightarrow>
               collect_loop rs (snd (erase_pending (tag (requestHeader e)) u))))"

definition invalid_request :: "request_header \<Rightarrow> server \<Rightarrow> bool" where
  "invalid_request rh s \<longleftrightarrow>
     MAX_REQUEST_LENGTH < requestLength rh \<or> CommandId_COMMAND_COUNT \<le> methodId rh \<or> methodId rh = 0 \<or>
     map_of (pendingResponses s) (tag rh) \<noteq> None"

text \<open>From the header of a request to the read of its body.\<close>

definition accept_request :: "(nat \<Rightarrow> u8) \<Rightarrow> request_header \<Rightarrow> (server, unit) act" where
  "accept_request fresh rh =
     andthen (\<lambda>s. (if invalid_request rh s then unlock_keeping else ret ()) s) (\<lambda>_.
     andthen (pending_at (tag rh)) (\<lambda>r.
     andthen unlock_keeping (\<lambda>_.
     andthen (deref r) (\<lambda>e.
     andthen (set_node r (e\<lparr>requestBuffer := buffer_alloc fresh (requestLength rh) 0,
                            requestHeader := rh\<rparr>)) (\<lambda>_.
       modify (\<lambda>s. s\<lparr>listener := AwaitBody r\<rparr>))))))"

definition listen_header ::
    "(nat \<Rightarrow> u8) \<Rightarrow> request_header \<Rightarrow> server \<Rightarrow> ((err + unit) \<times> server) option" where
  "listen_header fresh rh s =
     (case lock_keeping s of
        (Inl e, t) \<Rightarrow> Some (Inl e, t)
      | (Inr _, t) \<Rightarrow>
          (case collect_loop (finishedHandlers t) t of
             None \<Rightarrow> None
           | Some (Inl e, u) \<Rightarrow> Some (Inl e, u)
           | Some (Inr _, u) \<Rightarrow> Some (accept_request fresh rh u)))"

text \<open>The body has been read into the buffer; the handler is created and scheduled.\<close>

definition listen_body :: "bytes \<Rightarrow> nat \<Rightarrow> (server, unit) act" where
  "listen_body body r =
     andthen (deref r) (\<lambda>e.
     andthen (\<lambda>s. set_node r
                (e\<lparr>requestBuffer := (requestBuffer e)\<lparr>bdata := Some body\<rparr>,
                   handlerCoro := Some (length (handlers s))\<rparr>) s) (\<lambda>_.
       modify (\<lambda>s. s\<lparr>handlers := handlers s @ [\<lparr>hd_ref = r, hd_phase = Queued\<rparr>],
                     requests := requests s @ [requestHeader e], listener := AwaitHeader\<rparr>)))"

text \<open>The peer has closed: every pending handler is resumed, in the order of the map.\<close>

fun drain_loop :: "nat list \<Rightarrow> server \<Rightarrow> ((err + unit) \<times> server) option" where
  "drain_loop [] s = Some (Inr (), s)"
| "drain_loop (r # rs) s =
     (case deref r s of
        (Inl x, t) \<Rightarrow> Some (Inl x, t)
      | (Inr e, t) \<Rightarrow>
          (case resume_handler (handlerCoro e) (snd (set_node r (e\<lparr>handlerCoro := None\<rparr>) t)) of
             None \<Rightarrow> None
           | Some (Inl x, u) \<Rightarrow> Some (Inl x, u)
           | Some (Inr _, u) \<Rightarrow> drain_loop rs u))"

definition listen_closed :: "server \<Rightarrow> ((err + unit) \<times> server) option" where
  "listen_closed s = drain_loop (map snd (pendingResponses s)) (s\<lparr>listener := Stopped\<rparr>)"

subsection \<open>Handlers\<close>

definition acquire_write_lock :: "nat \<Rightarrow> server \<Rightarrow> server" where
  "acquire_write_lock i s =
     (if \<not> writeLock s then set_phase i Writing (s\<lparr>writeLock := True\<rparr>)
      else set_phase i Waiting (s\<lparr>writeLockWaiters := writeLockWaiters s @ [i]\<rparr>))"

definition release_write_lock :: "server \<Rightarrow> server" where
  "release_write_lock s =
     (if writeLockWaiters s = [] then s\<lparr>writeLock := False\<rparr>
      else set_phase (last (writeLockWaiters s)) Woken
             (s\<lparr>writeLockWaiters := butlast (writeLockWaiters s)\<rparr>))"

text \<open>The response of \<open>handlePing\<close>, built in a \<open>ResponseBuffer(0)\<close>.\<close>

definition ping_response :: "(nat \<Rightarrow> u8) \<Rightarrow> u16 \<Rightarrow> err + bytes" where
  "ping_response fresh t =
     (case set_response_header \<lparr>responseLen = 0, rtag = t\<rparr> (response_buffer fresh 0) of
        (Inl e, _) \<Rightarrow> Inl e
      | (Inr _, resp) \<Rightarrow> Inr (take (unat (blen resp)) (content resp)))"

lemma ping_response_bytes:
  "ping_response fresh t = Inr (response_header_bytes \<lparr>responseLen = 0, rtag = t\<rparr>)"
  by (simp add: ping_response_def set_response_header_def response_buffer_shape
      response_header_size_def content_def poke_def)

text \<open>The start of a handler: \<open>Methods[cid]\<close>, up to where it may suspend.\<close>

definition start_handler :: "nat \<Rightarrow> (server, unit) act" where
  "start_handler i s =
     andthen (deref (hd_ref (handlers s ! i))) (\<lambda>e.
       let cid = methodId (requestHeader e) in
       if cid = CommandId_End then modify (set_phase i Handled)
       else if cid = CommandId_Ping then modify (acquire_write_lock i)
       else if cid = CommandId_GetNode then modify (set_phase i Handled)
       else fail (UB OutOfBounds)) s"

definition write_response :: "(nat \<Rightarrow> u8) \<Rightarrow> nat \<Rightarrow> (server, unit) act" where
  "write_response fresh i s =
     andthen (deref (hd_ref (handlers s ! i))) (\<lambda>e.
       case ping_response fresh (tag (requestHeader e)) of
         Inl x \<Rightarrow> fail x
       | Inr bs \<Rightarrow> modify (\<lambda>s. set_phase i Handled
                    (s\<lparr>wire := wire s @ bs, answered := answered s @ [i]\<rparr>))) s"

definition finish_handler :: "nat \<Rightarrow> (server, unit) act" where
  "finish_handler i =
     andthen lock_keeping (\<lambda>_.
     andthen (modify (\<lambda>s. set_phase i Finished
                (s\<lparr>finishedHandlers := finishedHandlers s @ [hd_ref (handlers s ! i)]\<rparr>))) (\<lambda>_.
       unlock_keeping))"

definition handler_step :: "(nat \<Rightarrow> u8) \<Rightarrow> nat \<Rightarrow> server \<Rightarrow> ((err + unit) \<times> server) option" where
  "handler_step fresh i s =
     (case hd_phase (handlers s ! i) of
        Queued \<Rightarrow> Some (start_handler i s)
      | Waiting \<Rightarrow> None
      | Woken \<Rightarrow> Some (Inr (), set_phase i Writing s)
      | Writing \<Rightarrow> Some (write_response fresh i s)
      | Handled \<Rightarrow> Some (Inr (), set_phase i Leaving (release_write_lock s))
      | Leaving \<Rightarrow> Some (finish_handler i s)
      | Finished \<Rightarrow> None
      | Collected \<Rightarrow> None)"

subsection \<open>Interleavings\<close>

datatype server_event = Header request_header | Body bytes | Step nat | Closed

definition server_do ::
    "(nat \<Rightarrow> u8) \<Rightarrow> server_event \<Rightarrow> server \<Rightarrow> ((err + unit) \<times> server) option" where
  "server_do fresh e s =
     (case e of
        Header rh \<Rightarrow> if listener s = AwaitHeader then listen_header fresh rh s else None
      | Body body \<Rightarrow>
          (case listener s of AwaitBody r \<Rightarrow> Some (listen_body body r s) | _ \<Rightarrow> None)
      | Step i \<Rightarrow> if i < length (handlers s) then handler_step fresh i s else None
      | Closed \<Rightarrow> if listener s \<noteq> Stopped then listen_closed s else None)"

text \<open>A run stops at the first failure; \<open>None\<close> when an event is not possible.\<close>

fun server_run ::
    "(nat \<Rightarrow> u8) \<Rightarrow> server_event list \<Rightarrow> server \<Rightarrow> ((err + unit) \<times> server) option" where
  "server_run fresh [] s = Some (Inr (), s)"
| "server_run fresh (e # es) s =
     (case server_do fresh e s of
        None \<Rightarrow> None
      | Some (Inl x, t) \<Rightarrow> Some (Inl x, t)
      | Some (Inr _, t) \<Rightarrow> server_run fresh es t)"

fun only_ping :: "server_event \<Rightarrow> bool" where
  "only_ping (Header rh) = (methodId rh = CommandId_Ping)"
| "only_ping _ = True"

subsection \<open>What a successful step does\<close>

text \<open>
  The invariants below are about runs that have not failed; these equations say what a step that
  does not fail did to the state.
\<close>

definition accepted :: "(nat \<Rightarrow> u8) \<Rightarrow> request_header \<Rightarrow> server \<Rightarrow> server" where
  "accepted fresh rh s =
     s\<lparr>pendingResponses := om_put (tag rh) (next_node s) (pendingResponses s),
       nodes := (nodes s)(next_node s \<mapsto>
         \<lparr>handlerCoro = None, requestBuffer = buffer_alloc fresh (requestLength rh) 0,
          requestHeader = rh\<rparr>),
       next_node := Suc (next_node s), handlersKeepingLock := False,
       listener := AwaitBody (next_node s)\<rparr>"

lemma accept_request_run:
  assumes "handlersKeepingLock s"
  shows "accept_request fresh rh s = (Inr (), t) \<longleftrightarrow> \<not> invalid_request rh s \<and> t = accepted fresh rh s"
    and "invalid_request rh s \<Longrightarrow> \<exists>t. accept_request fresh rh s = (Inl (UB UnlockUnowned), t)"
proof -
  have bad: "\<exists>t. accept_request fresh rh s = (Inl (UB UnlockUnowned), t)" if "invalid_request rh s"
    using that assms
    by (auto simp: accept_request_def andthen_def unlock_keeping_def pending_at_def split: option.splits)
  have good: "accept_request fresh rh s = (Inr (), accepted fresh rh s)" if "\<not> invalid_request rh s"
    using that assms
    by (auto simp: accept_request_def andthen_def unlock_keeping_def pending_at_def ret_run
        invalid_request_def deref_def set_node_def modify_run accepted_def response_state_default_def)
  show "accept_request fresh rh s = (Inr (), t) \<longleftrightarrow> \<not> invalid_request rh s \<and> t = accepted fresh rh s"
    using bad good by (cases "invalid_request rh s") auto
  show "\<exists>t. accept_request fresh rh s = (Inl (UB UnlockUnowned), t)" if "invalid_request rh s"
    using bad that .
qed

definition collected :: "nat \<Rightarrow> response_state \<Rightarrow> nat \<Rightarrow> server \<Rightarrow> server" where
  "collected r e i s =
     snd (erase_pending (tag (requestHeader e))
       (set_phase i Collected (s\<lparr>nodes := (nodes s)(r \<mapsto> e\<lparr>handlerCoro := None\<rparr>)\<rparr>)))"

lemma set_phase_same: "hd_phase (handlers s ! i) = ph \<Longrightarrow> set_phase i ph s = s"
proof -
  assume "hd_phase (handlers s ! i) = ph"
  then have "(handlers s ! i)\<lparr>hd_phase := ph\<rparr> = handlers s ! i" by simp
  then show ?thesis by (simp add: set_phase_def)
qed

lemma collect_loop_ConsD:
  assumes "collect_loop (r # rs) s = Some (Inr (), u)"
  obtains e i where "nodes s r = Some e" "handlerCoro e = Some i"
    "hd_phase (handlers s ! i) = Finished \<or> hd_phase (handlers s ! i) = Collected"
    "collect_loop rs (collected r e i s) = Some (Inr (), u)"
proof -
  from assms obtain e where e: "nodes s r = Some e"
    by (auto simp: deref_def split: option.splits)
  let ?s = "s\<lparr>nodes := (nodes s)(r \<mapsto> e\<lparr>handlerCoro := None\<rparr>)\<rparr>"
  from assms e obtain v where v: "resume_handler (handlerCoro e) ?s = Some (Inr (), v)"
    "collect_loop rs (snd (erase_pending (tag (requestHeader e)) v)) = Some (Inr (), u)"
    by (auto simp: deref_def set_node_def modify_run split: option.splits prod.splits sum.splits)
  from v(1) obtain i where i: "handlerCoro e = Some i"
    "hd_phase (handlers s ! i) = Finished \<or> hd_phase (handlers s ! i) = Collected"
    "v = set_phase i Collected ?s"
    using set_phase_same [of ?s _ Collected]
    by (auto simp: resume_handler_def split: option.splits phase.splits)
  from that [OF e i(1,2)] v(2) i(3) show thesis by (simp add: collected_def)
qed

text \<open>An invariant of one collection is an invariant of the loop.\<close>

lemma collect_loop_invariant:
  assumes "collect_loop rs s = Some (Inr (), u)" "P s"
    and "\<And>r e i s. P s \<Longrightarrow> nodes s r = Some e \<Longrightarrow> handlerCoro e = Some i \<Longrightarrow>
      hd_phase (handlers s ! i) = Finished \<or> hd_phase (handlers s ! i) = Collected \<Longrightarrow>
      P (collected r e i s)"
  shows "P u"
  using assms(1,2)
proof (induction rs arbitrary: s)
  case (Cons r rs)
  from Cons.prems(1) obtain e i where "nodes s r = Some e" "handlerCoro e = Some i"
    "hd_phase (handlers s ! i) = Finished \<or> hd_phase (handlers s ! i) = Collected"
    "collect_loop rs (collected r e i s) = Some (Inr (), u)"
    by (rule collect_loop_ConsD)
  with Cons.IH Cons.prems(2) assms(3) show ?case by blast
qed simp

lemma listen_header_run:
  assumes "listen_header fresh rh s = Some (Inr (), t)"
  obtains u where
    "collect_loop (finishedHandlers s) (s\<lparr>handlersKeepingLock := True\<rparr>) = Some (Inr (), u)"
    "accept_request fresh rh u = (Inr (), t)" "\<not> handlersKeepingLock s"
  using assms
  by (auto simp: listen_header_def lock_keeping_def split: option.splits prod.splits sum.splits if_splits)

lemma collected_frame:
  "handlersKeepingLock (collected r e i s) = handlersKeepingLock s"
  "finishedHandlers (collected r e i s) = finishedHandlers s"
  "writeLock (collected r e i s) = writeLock s"
  "writeLockWaiters (collected r e i s) = writeLockWaiters s"
  "next_node (collected r e i s) = next_node s"
  "wire (collected r e i s) = wire s" "requests (collected r e i s) = requests s"
  "answered (collected r e i s) = answered s" "listener (collected r e i s) = listener s"
  "handlers (collected r e i s) = (handlers s)[i := (handlers s ! i)\<lparr>hd_phase := Collected\<rparr>]"
  by (auto simp: collected_def erase_pending_def modify_run set_phase_def split: option.splits)

lemma collect_loop_keeps_lock:
  assumes "collect_loop rs s = Some (Inr (), u)" "handlersKeepingLock s"
  shows "handlersKeepingLock u"
  by (rule collect_loop_invariant [where P = handlersKeepingLock, OF assms])
    (simp add: collected_frame)

text \<open>So a header that is accepted: collection, then the new node.\<close>

lemma listen_header_accepted:
  assumes "listen_header fresh rh s = Some (Inr (), t)"
  obtains u where
    "collect_loop (finishedHandlers s) (s\<lparr>handlersKeepingLock := True\<rparr>) = Some (Inr (), u)"
    "\<not> invalid_request rh u" "t = accepted fresh rh u"
proof -
  from assms obtain u where u:
    "collect_loop (finishedHandlers s) (s\<lparr>handlersKeepingLock := True\<rparr>) = Some (Inr (), u)"
    "accept_request fresh rh u = (Inr (), t)"
    by (rule listen_header_run)
  from collect_loop_keeps_lock [OF u(1)] have "handlersKeepingLock u" by simp
  from accept_request_run(1) [OF this, of fresh rh t] u that show thesis by blast
qed

lemma listen_body_run:
  "listen_body body r s = (Inr (), t) \<Longrightarrow>
     \<exists>e. nodes s r = Some e \<and>
       t = s\<lparr>nodes := (nodes s)(r \<mapsto>
               e\<lparr>requestBuffer := (requestBuffer e)\<lparr>bdata := Some body\<rparr>,
                 handlerCoro := Some (length (handlers s))\<rparr>),
             handlers := handlers s @ [\<lparr>hd_ref = r, hd_phase = Queued\<rparr>],
             requests := requests s @ [requestHeader e], listener := AwaitHeader\<rparr>"
  by (auto simp: listen_body_def andthen_def deref_def set_node_def modify_run split: option.splits)

lemma drain_loop_ConsD:
  assumes "drain_loop (r # rs) s = Some (Inr (), u)"
  obtains e i where "nodes s r = Some e" "handlerCoro e = Some i"
    "hd_phase (handlers s ! i) = Finished \<or> hd_phase (handlers s ! i) = Collected"
    "drain_loop rs (set_phase i Collected (s\<lparr>nodes := (nodes s)(r \<mapsto> e\<lparr>handlerCoro := None\<rparr>)\<rparr>)) =
      Some (Inr (), u)"
proof -
  from assms obtain e where e: "nodes s r = Some e"
    by (auto simp: deref_def split: option.splits)
  let ?s = "s\<lparr>nodes := (nodes s)(r \<mapsto> e\<lparr>handlerCoro := None\<rparr>)\<rparr>"
  from assms e obtain v where v: "resume_handler (handlerCoro e) ?s = Some (Inr (), v)"
    "drain_loop rs v = Some (Inr (), u)"
    by (auto simp: deref_def set_node_def modify_run split: option.splits prod.splits sum.splits)
  from v(1) obtain i where i: "handlerCoro e = Some i"
    "hd_phase (handlers s ! i) = Finished \<or> hd_phase (handlers s ! i) = Collected"
    "v = set_phase i Collected ?s"
    using set_phase_same [of ?s _ Collected]
    by (auto simp: resume_handler_def split: option.splits phase.splits)
  from that [OF e i(1,2)] v(2) i(3) show thesis by simp
qed

lemma drain_loop_invariant:
  assumes "drain_loop rs s = Some (Inr (), u)" "P s"
    and "\<And>r e i s. P s \<Longrightarrow> nodes s r = Some e \<Longrightarrow> handlerCoro e = Some i \<Longrightarrow>
      hd_phase (handlers s ! i) = Finished \<or> hd_phase (handlers s ! i) = Collected \<Longrightarrow>
      P (set_phase i Collected (s\<lparr>nodes := (nodes s)(r \<mapsto> e\<lparr>handlerCoro := None\<rparr>)\<rparr>))"
  shows "P u"
  using assms(1,2)
proof (induction rs arbitrary: s)
  case (Cons r rs)
  from Cons.prems(1) obtain e i where "nodes s r = Some e" "handlerCoro e = Some i"
    "hd_phase (handlers s ! i) = Finished \<or> hd_phase (handlers s ! i) = Collected"
    "drain_loop rs (set_phase i Collected (s\<lparr>nodes := (nodes s)(r \<mapsto> e\<lparr>handlerCoro := None\<rparr>)\<rparr>)) =
      Some (Inr (), u)"
    by (rule drain_loop_ConsD)
  with Cons.IH Cons.prems(2) assms(3) show ?case by blast
qed simp

lemma start_handler_run:
  "start_handler i s = (Inr (), t) \<Longrightarrow>
     \<exists>e. nodes s (hd_ref (handlers s ! i)) = Some e \<and>
       (if methodId (requestHeader e) = CommandId_Ping then t = acquire_write_lock i s
        else t = set_phase i Handled s)"
  by (auto simp: start_handler_def andthen_def deref_def Let_def modify_run fail_run command_ids
      split: option.splits if_splits)

lemma write_response_run:
  "write_response fresh i s = (Inr (), t) \<Longrightarrow>
     \<exists>e. nodes s (hd_ref (handlers s ! i)) = Some e \<and>
       t = set_phase i Handled
         (s\<lparr>wire := wire s @ response_header_bytes \<lparr>responseLen = 0, rtag = tag (requestHeader e)\<rparr>,
            answered := answered s @ [i]\<rparr>)"
  by (auto simp: write_response_def andthen_def deref_def modify_run ping_response_bytes
      split: option.splits)

lemma finish_handler_run:
  "finish_handler i s = (Inr (), t) \<Longrightarrow>
     \<not> handlersKeepingLock s \<and>
     t = set_phase i Finished
       (s\<lparr>finishedHandlers := finishedHandlers s @ [hd_ref (handlers s ! i)]\<rparr>)"
  by (auto simp: finish_handler_def andthen_def lock_keeping_def unlock_keeping_def modify_run
      set_phase_def split: if_splits)

subsection \<open>The write lock\<close>

definition holding :: "phase \<Rightarrow> bool" where
  "holding ph \<longleftrightarrow> ph = Woken \<or> ph = Writing \<or> ph = Handled"

definition holders :: "handler list \<Rightarrow> nat" where
  "holders hs = num (\<lambda>h. holding (hd_phase h)) hs"

definition in_phase :: "phase \<Rightarrow> handler list \<Rightarrow> nat set" where
  "in_phase ph hs = {i. i < length hs \<and> hd_phase (hs ! i) = ph}"

definition lock_inv :: "server \<Rightarrow> bool" where
  "lock_inv s \<longleftrightarrow>
     holders (handlers s) = (if writeLock s then 1 else 0) \<and>
     (writeLockWaiters s \<noteq> [] \<longrightarrow> writeLock s) \<and>
     distinct (writeLockWaiters s) \<and> set (writeLockWaiters s) = in_phase Waiting (handlers s) \<and>
     (\<forall>r e. nodes s r = Some e \<longrightarrow> methodId (requestHeader e) = CommandId_Ping)"

lemma holders_set_phase:
  "i < length hs \<Longrightarrow>
     holders (hs[i := (hs ! i)\<lparr>hd_phase := ph\<rparr>]) + (if holding (hd_phase (hs ! i)) then 1 else 0) =
     holders hs + (if holding ph then 1 else 0)"
  using num_update [of i hs "\<lambda>h. holding (hd_phase h)" "(hs ! i)\<lparr>hd_phase := ph\<rparr>"]
  by (simp add: holders_def)

lemma in_phase_set_phase:
  "i < length hs \<Longrightarrow>
     in_phase q (hs[i := (hs ! i)\<lparr>hd_phase := ph\<rparr>]) =
     (if ph = q then insert i (in_phase q hs) else in_phase q hs - {i})"
  by (auto simp: in_phase_def nth_list_update)

lemma set_phase_frame [simp]:
  "nodes (set_phase i ph s) = nodes s" "writeLock (set_phase i ph s) = writeLock s"
  "writeLockWaiters (set_phase i ph s) = writeLockWaiters s"
  "finishedHandlers (set_phase i ph s) = finishedHandlers s"
  "pendingResponses (set_phase i ph s) = pendingResponses s"
  "next_node (set_phase i ph s) = next_node s"
  "handlersKeepingLock (set_phase i ph s) = handlersKeepingLock s"
  "requests (set_phase i ph s) = requests s" "answered (set_phase i ph s) = answered s"
  "wire (set_phase i ph s) = wire s" "listener (set_phase i ph s) = listener s"
  "handlers (set_phase i ph s) = (handlers s)[i := (handlers s ! i)\<lparr>hd_phase := ph\<rparr>]"
  by (simp_all add: set_phase_def)

text \<open>A handler that finishes or is collected is of no concern to the lock.\<close>

lemma lock_inv_to_end:
  assumes "lock_inv s" "\<not> holding (hd_phase (handlers s ! i))" "hd_phase (handlers s ! i) \<noteq> Waiting"
    and "ph = Finished \<or> ph = Collected"
    and "\<And>r e. nodes t r = Some e \<Longrightarrow> methodId (requestHeader e) = CommandId_Ping"
    and "handlers t = (handlers s)[i := (handlers s ! i)\<lparr>hd_phase := ph\<rparr>]"
    "writeLock t = writeLock s" "writeLockWaiters t = writeLockWaiters s"
  shows "lock_inv t"
proof (cases "i < length (handlers s)")
  case True
  have "in_phase Waiting (handlers t) = in_phase Waiting (handlers s)"
    using assms(3,4) by (auto simp: assms(6) in_phase_set_phase [OF True]) (auto simp: in_phase_def)
  with assms holders_set_phase [OF True, of ph] show ?thesis
    by (auto simp: lock_inv_def holding_def)
qed (use assms in \<open>simp add: lock_inv_def list_update_beyond not_less\<close>)

lemma lock_inv_collected:
  assumes "lock_inv s" "nodes s r = Some e" "handlerCoro e = Some i"
    and "hd_phase (handlers s ! i) = Finished \<or> hd_phase (handlers s ! i) = Collected"
  shows "lock_inv (collected r e i s)"
proof (rule lock_inv_to_end [OF assms(1), of i Collected])
  show "methodId (requestHeader e') = CommandId_Ping"
    if "nodes (collected r e i s) r' = Some e'" for r' e'
    using that assms(1,2)
    by (auto simp: collected_def erase_pending_def modify_run lock_inv_def
        split: option.splits if_splits)
qed (use assms(4) in \<open>auto simp: collected_frame holding_def\<close>)

lemma lock_inv_drained:
  assumes "lock_inv s" "nodes s r = Some e" "handlerCoro e = Some i"
    and "hd_phase (handlers s ! i) = Finished \<or> hd_phase (handlers s ! i) = Collected"
  shows "lock_inv (set_phase i Collected (s\<lparr>nodes := (nodes s)(r \<mapsto> e\<lparr>handlerCoro := None\<rparr>)\<rparr>))"
  by (rule lock_inv_to_end [OF assms(1), of i Collected])
    (use assms in \<open>auto simp: holding_def lock_inv_def split: if_splits\<close>)

lemma lock_inv_accepted:
  "lock_inv s \<Longrightarrow> methodId rh = CommandId_Ping \<Longrightarrow> lock_inv (accepted fresh rh s)"
  by (auto simp: lock_inv_def accepted_def)

lemma lock_inv_keeping: "lock_inv (s\<lparr>handlersKeepingLock := b\<rparr>) = lock_inv s"
  by (simp add: lock_inv_def)

lemma lock_inv_header:
  assumes "lock_inv s" "listen_header fresh rh s = Some (Inr (), t)" "methodId rh = CommandId_Ping"
  shows "lock_inv t"
proof -
  from assms(2) obtain u where u:
    "collect_loop (finishedHandlers s) (s\<lparr>handlersKeepingLock := True\<rparr>) = Some (Inr (), u)"
    "t = accepted fresh rh u"
    by (rule listen_header_accepted)
  have "lock_inv u"
    by (rule collect_loop_invariant [where P = lock_inv, OF u(1)])
      (simp_all add: lock_inv_keeping assms(1) lock_inv_collected)
  with u(2) assms(3) show ?thesis by (simp add: lock_inv_accepted)
qed

lemma lock_inv_body:
  assumes "lock_inv s" "listen_body body r s = (Inr (), t)"
  shows "lock_inv t"
proof -
  from listen_body_run [OF assms(2)] obtain e where "nodes s r = Some e" and t:
    "t = s\<lparr>nodes := (nodes s)(r \<mapsto>
               e\<lparr>requestBuffer := (requestBuffer e)\<lparr>bdata := Some body\<rparr>,
                 handlerCoro := Some (length (handlers s))\<rparr>),
             handlers := handlers s @ [\<lparr>hd_ref = r, hd_phase = Queued\<rparr>],
             requests := requests s @ [requestHeader e], listener := AwaitHeader\<rparr>" by blast
  moreover have "in_phase Waiting (handlers s @ [\<lparr>hd_ref = r, hd_phase = Queued\<rparr>]) =
      in_phase Waiting (handlers s)"
    by (auto simp: in_phase_def nth_append less_Suc_eq)
  moreover have "holders (handlers s @ [\<lparr>hd_ref = r, hd_phase = Queued\<rparr>]) = holders (handlers s)"
    by (simp add: holders_def num_def holding_def)
  ultimately show ?thesis using assms(1) by (auto simp: lock_inv_def)
qed

lemma lock_inv_acquire:
  assumes "lock_inv s" "i < length (handlers s)" "hd_phase (handlers s ! i) = Queued"
  shows "lock_inv (acquire_write_lock i s)"
proof -
  have "i \<notin> in_phase Waiting (handlers s)" using assms(3) by (simp add: in_phase_def)
  with assms show ?thesis
    using holders_set_phase [OF assms(2), of Writing] holders_set_phase [OF assms(2), of Waiting]
    by (auto simp: lock_inv_def acquire_write_lock_def in_phase_set_phase holding_def)
qed

lemma lock_inv_release:
  assumes "lock_inv s" "i < length (handlers s)" "hd_phase (handlers s ! i) = Handled"
  shows "lock_inv (set_phase i Leaving (release_write_lock s))"
proof (cases "writeLockWaiters s = []")
  case True
  from holders_set_phase [OF assms(2), of Leaving] assms(1,3)
  have "holders (handlers (set_phase i Leaving s)) = 0"
    by (simp add: lock_inv_def holding_def split: if_splits)
  with assms True show ?thesis
    by (auto simp: lock_inv_def release_write_lock_def in_phase_set_phase)
next
  case False
  let ?j = "last (writeLockWaiters s)"
  let ?s = "set_phase ?j Woken (s\<lparr>writeLockWaiters := butlast (writeLockWaiters s)\<rparr>)"
  from False assms(1) have j: "?j \<in> in_phase Waiting (handlers s)"
    unfolding lock_inv_def by (metis last_in_set)
  then have lj: "?j < length (handlers s)" and pj: "hd_phase (handlers s ! ?j) = Waiting"
    by (simp_all add: in_phase_def)
  with assms(3) have ij: "?j \<noteq> i" by auto
  have w: "writeLock s" "holders (handlers s) = 1"
    using False assms(1) by (auto simp: lock_inv_def)
  have h1: "holders (handlers ?s) = 2"
    using holders_set_phase [OF lj, of Woken] w(2) pj by (simp add: holding_def)
  have li: "i < length (handlers ?s)" "hd_phase (handlers ?s ! i) = Handled"
    using assms(2,3) ij by simp_all
  have "holders (handlers (set_phase i Leaving ?s)) = 1"
    using holders_set_phase [OF li(1), of Leaving] h1 li(2) by (simp add: holding_def)
  moreover have "in_phase Waiting (handlers (set_phase i Leaving ?s)) =
      in_phase Waiting (handlers s) - {?j}"
    using in_phase_set_phase [OF li(1), of Waiting Leaving]
      in_phase_set_phase [OF lj, of Waiting Woken] assms(3)
    by (auto simp: in_phase_def)
  moreover have "set (butlast (writeLockWaiters s)) = in_phase Waiting (handlers s) - {?j}"
    "distinct (butlast (writeLockWaiters s))"
    using butlast_distinct [OF False] assms(1) by (simp_all add: lock_inv_def)
  ultimately show ?thesis
    using assms(1) w(1) False by (simp add: lock_inv_def release_write_lock_def)
qed

lemma lock_inv_same_holding:
  assumes "lock_inv s" "i < length (handlers s)" "holding (hd_phase (handlers s ! i)) = holding ph"
    and "hd_phase (handlers s ! i) \<noteq> Waiting" "ph \<noteq> Waiting"
    and "handlers t = (handlers s)[i := (handlers s ! i)\<lparr>hd_phase := ph\<rparr>]" "nodes t = nodes s"
    "writeLock t = writeLock s" "writeLockWaiters t = writeLockWaiters s"
  shows "lock_inv t"
proof -
  have "i \<notin> in_phase Waiting (handlers s)" using assms(4) by (simp add: in_phase_def)
  with assms holders_set_phase [OF assms(2), of ph] show ?thesis
    by (auto simp: lock_inv_def in_phase_set_phase)
qed

lemma lock_inv_handler:
  assumes "lock_inv s" "i < length (handlers s)" "handler_step fresh i s = Some (Inr (), t)"
  shows "lock_inv t"
proof (cases "hd_phase (handlers s ! i)")
  case Queued
  with assms(3) have "start_handler i s = (Inr (), t)" by (simp add: handler_step_def)
  from start_handler_run [OF this] assms(1) have "t = acquire_write_lock i s"
    by (auto simp: lock_inv_def)
  with assms(1,2) Queued show ?thesis by (simp add: lock_inv_acquire)
next
  case Woken
  with assms(3) have "t = set_phase i Writing s" by (simp add: handler_step_def)
  with Woken show ?thesis
    by (intro lock_inv_same_holding [OF assms(1,2), of Writing]) (simp_all add: holding_def)
next
  case Writing
  with assms(3) have "write_response fresh i s = (Inr (), t)" by (simp add: handler_step_def)
  from write_response_run [OF this] Writing show ?thesis
    by (intro lock_inv_same_holding [OF assms(1,2), of Handled]) (auto simp: holding_def)
next
  case Handled
  with assms show ?thesis by (auto simp: handler_step_def lock_inv_release)
next
  case Leaving
  with assms(3) have "finish_handler i s = (Inr (), t)" by (simp add: handler_step_def)
  from finish_handler_run [OF this] Leaving show ?thesis
    by (intro lock_inv_same_holding [OF assms(1,2), of Finished]) (auto simp: holding_def)
qed (use assms(3) in \<open>simp_all add: handler_step_def\<close>)

lemma lock_inv_do:
  assumes "lock_inv s" "server_do fresh e s = Some (Inr (), t)" "only_ping e"
  shows "lock_inv t"
proof (cases e)
  case (Header rh)
  with assms show ?thesis by (auto simp: server_do_def split: if_splits intro: lock_inv_header)
next
  case (Body b)
  with assms show ?thesis
    by (auto simp: server_do_def split: listener.splits intro: lock_inv_body)
next
  case (Step i)
  with assms show ?thesis by (auto simp: server_do_def split: if_splits intro: lock_inv_handler)
next
  case Closed
  with assms(2) have "drain_loop (map snd (pendingResponses s)) (s\<lparr>listener := Stopped\<rparr>) = Some (Inr (), t)"
    by (simp add: server_do_def listen_closed_def split: if_splits)
  moreover have "lock_inv (s\<lparr>listener := Stopped\<rparr>)" using assms(1) by (simp add: lock_inv_def)
  ultimately show ?thesis by (rule drain_loop_invariant) (rule lock_inv_drained)
qed

lemma server_run_invariant:
  assumes "server_run fresh es s = Some (Inr (), t)" "P s"
    and "\<And>e s t. e \<in> set es \<Longrightarrow> P s \<Longrightarrow> server_do fresh e s = Some (Inr (), t) \<Longrightarrow> P t"
  shows "P t"
  using assms
proof (induction es arbitrary: s)
  case (Cons e es)
  from Cons.prems(1) obtain u where "server_do fresh e s = Some (Inr (), u)"
    "server_run fresh es u = Some (Inr (), t)"
    by (auto split: option.splits prod.splits sum.splits)
  with Cons show ?case by (metis list.set_intros)
qed simp

lemma lock_inv_new: "lock_inv server_new"
  by (simp add: lock_inv_def server_new_def holders_def in_phase_def)

lemma lock_inv_run:
  "server_run fresh es server_new = Some (Inr (), s) \<Longrightarrow> \<forall>e\<in>set es. only_ping e \<Longrightarrow> lock_inv s"
  by (rule server_run_invariant [where P = lock_inv]) (auto intro: lock_inv_new lock_inv_do)

subsection \<open>Nodes and answers\<close>

text \<open>
  Every node that exists is the one its tag maps to; a handler that has not been collected still
  has its node, with its own header in it, and shares it with no other.
\<close>

definition node_inv :: "server \<Rightarrow> bool" where
  "node_inv s \<longleftrightarrow>
     om_wf (pendingResponses s) \<and> length (requests s) = length (handlers s) \<and>
     (\<forall>r e. nodes s r = Some e \<longrightarrow>
        r < next_node s \<and> map_of (pendingResponses s) (tag (requestHeader e)) = Some r) \<and>
     (\<forall>i<length (handlers s). hd_phase (handlers s ! i) \<noteq> Collected \<longrightarrow>
        (\<exists>e. nodes s (hd_ref (handlers s ! i)) = Some e \<and> handlerCoro e = Some i \<and>
          requestHeader e = requests s ! i)) \<and>
     (\<forall>r e i. nodes s r = Some e \<longrightarrow> handlerCoro e = Some i \<longrightarrow>
        i < length (handlers s) \<and> hd_ref (handlers s ! i) = r) \<and>
     (\<forall>r. listener s = AwaitBody r \<longrightarrow> (\<exists>e. nodes s r = Some e \<and> handlerCoro e = None))"

lemma node_invI:
  assumes "om_wf (pendingResponses s)" "length (requests s) = length (handlers s)"
    and "\<And>r e. nodes s r = Some e \<Longrightarrow>
      r < next_node s \<and> map_of (pendingResponses s) (tag (requestHeader e)) = Some r"
    and "\<And>i. i < length (handlers s) \<Longrightarrow> hd_phase (handlers s ! i) \<noteq> Collected \<Longrightarrow>
      \<exists>e. nodes s (hd_ref (handlers s ! i)) = Some e \<and> handlerCoro e = Some i \<and>
        requestHeader e = requests s ! i"
    and "\<And>r e i. nodes s r = Some e \<Longrightarrow> handlerCoro e = Some i \<Longrightarrow>
      i < length (handlers s) \<and> hd_ref (handlers s ! i) = r"
    and "\<And>r. listener s = AwaitBody r \<Longrightarrow> \<exists>e. nodes s r = Some e \<and> handlerCoro e = None"
  shows "node_inv s"
  using assms unfolding node_inv_def by blast

lemma node_invD:
  assumes "node_inv s"
  shows "om_wf (pendingResponses s)" "length (requests s) = length (handlers s)"
    and "nodes s r = Some e \<Longrightarrow> r < next_node s"
    and "nodes s r = Some e \<Longrightarrow> map_of (pendingResponses s) (tag (requestHeader e)) = Some r"
    and "i < length (handlers s) \<Longrightarrow> hd_phase (handlers s ! i) \<noteq> Collected \<Longrightarrow>
      \<exists>e. nodes s (hd_ref (handlers s ! i)) = Some e \<and> handlerCoro e = Some i \<and>
        requestHeader e = requests s ! i"
    and "nodes s r = Some e \<Longrightarrow> handlerCoro e = Some i \<Longrightarrow> i < length (handlers s)"
    and "nodes s r = Some e \<Longrightarrow> handlerCoro e = Some i \<Longrightarrow> hd_ref (handlers s ! i) = r"
    and "listener s = AwaitBody r \<Longrightarrow> \<exists>e. nodes s r = Some e \<and> handlerCoro e = None"
  using assms unfolding node_inv_def by blast+

lemma node_inv_new: "node_inv server_new"
  by (rule node_invI) (simp_all add: server_new_def)

lemma hd_ref_set_phase:
  "hd_ref ((handlers s)[i := (handlers s ! i)\<lparr>hd_phase := ph\<rparr>] ! j) = hd_ref (handlers s ! j)"
  by (cases "i < length (handlers s)"; cases "i = j")
    (simp_all add: list_update_beyond not_less)

lemma hd_phase_set_phase:
  "j < length (handlers s) \<Longrightarrow>
     hd_phase ((handlers s)[i := (handlers s ! i)\<lparr>hd_phase := ph\<rparr>] ! j) =
     (if j = i then ph else hd_phase (handlers s ! j))"
  by (simp add: nth_list_update)

text \<open>A handler moves on: nothing changes for the nodes.\<close>

lemma node_inv_set_phase:
  assumes "node_inv s" "hd_phase (handlers s ! i) \<noteq> Collected \<or> ph = Collected"
  shows "node_inv (set_phase i ph s)"
  using assms
  by (intro node_invI) (auto simp: hd_ref_set_phase hd_phase_set_phase node_invD split: if_splits)

lemma node_inv_cong:
  assumes "node_inv s" "nodes t = nodes s" "handlers t = handlers s" "requests t = requests s"
    and "pendingResponses t = pendingResponses s" "next_node t = next_node s"
    "listener t = listener s \<or> listener t = Stopped"
  shows "node_inv t"
  using assms by (auto simp: node_inv_def)

lemma node_inv_moved:
  assumes "node_inv s" "nodes s r = Some e" "handlerCoro e = Some i" "listener s \<noteq> AwaitBody r"
  shows "node_inv (set_phase i Collected (s\<lparr>nodes := (nodes s)(r \<mapsto> e\<lparr>handlerCoro := None\<rparr>)\<rparr>))"
proof (rule node_invI)
  let ?t = "set_phase i Collected (s\<lparr>nodes := (nodes s)(r \<mapsto> e\<lparr>handlerCoro := None\<rparr>)\<rparr>)"
  fix j assume "j < length (handlers ?t)" "hd_phase (handlers ?t ! j) \<noteq> Collected"
  then have j: "j < length (handlers s)" "j \<noteq> i" "hd_phase (handlers s ! j) \<noteq> Collected"
    by (auto simp: hd_phase_set_phase split: if_splits)
  from node_invD(5) [OF assms(1) j(1,3)] obtain e' where
    e': "nodes s (hd_ref (handlers s ! j)) = Some e'" "handlerCoro e' = Some j"
    "requestHeader e' = requests s ! j" by blast
  with assms(2,3) j(2) have "hd_ref (handlers s ! j) \<noteq> r" by auto
  with e' j(2) show "\<exists>e'. nodes ?t (hd_ref (handlers ?t ! j)) = Some e' \<and> handlerCoro e' = Some j \<and>
      requestHeader e' = requests ?t ! j"
    by simp
next
  show "i' < length (handlers (set_phase i Collected (s\<lparr>nodes := (nodes s)(r \<mapsto> e\<lparr>handlerCoro := None\<rparr>)\<rparr>))) \<and>
      hd_ref (handlers (set_phase i Collected (s\<lparr>nodes := (nodes s)(r \<mapsto> e\<lparr>handlerCoro := None\<rparr>)\<rparr>)) ! i') = r'"
    if "nodes (set_phase i Collected (s\<lparr>nodes := (nodes s)(r \<mapsto> e\<lparr>handlerCoro := None\<rparr>)\<rparr>)) r' = Some e'"
      "handlerCoro e' = Some i'" for r' e' i'
    using that node_invD(6,7) [OF assms(1)]
    by (auto simp: hd_ref_set_phase split: if_splits)
next
  show "\<exists>e'. nodes (set_phase i Collected (s\<lparr>nodes := (nodes s)(r \<mapsto> e\<lparr>handlerCoro := None\<rparr>)\<rparr>)) r' = Some e' \<and>
      handlerCoro e' = None"
    if "listener (set_phase i Collected (s\<lparr>nodes := (nodes s)(r \<mapsto> e\<lparr>handlerCoro := None\<rparr>)\<rparr>)) = AwaitBody r'"
    for r'
    using that assms(4) node_invD(8) [OF assms(1), of r'] by auto
qed (use assms in \<open>auto simp: node_invD split: if_splits\<close>)

lemma node_inv_erased:
  assumes "node_inv s" "nodes s r = Some e" "handlerCoro e = None" "listener s \<noteq> AwaitBody r"
  shows "node_inv (snd (erase_pending (tag (requestHeader e)) s))"
proof -
  have "map_of (pendingResponses s) (tag (requestHeader e)) = Some r"
    using node_invD(4) [OF assms(1,2)] .
  then have t: "snd (erase_pending (tag (requestHeader e)) s) =
      s\<lparr>pendingResponses := om_erase (tag (requestHeader e)) (pendingResponses s),
        nodes := (nodes s)(r := None)\<rparr>" (is "_ = ?t")
    by (simp add: erase_pending_def modify_run)
  have "node_inv ?t"
  proof (rule node_invI)
    show "\<exists>e'. nodes ?t (hd_ref (handlers ?t ! j)) = Some e' \<and> handlerCoro e' = Some j \<and>
        requestHeader e' = requests ?t ! j"
      if "j < length (handlers ?t)" "hd_phase (handlers ?t ! j) \<noteq> Collected" for j
      using that node_invD(5) [OF assms(1), of j] assms(2,3) by fastforce
    show "r' < next_node ?t \<and> map_of (pendingResponses ?t) (tag (requestHeader e')) = Some r'"
      if "nodes ?t r' = Some e'" for r' e'
      using that node_invD(3,4) [OF assms(1)] assms(2) by (auto split: if_splits) (metis option.inject)
    show "\<exists>e'. nodes ?t r' = Some e' \<and> handlerCoro e' = None" if "listener ?t = AwaitBody r'" for r'
      using that assms(4) node_invD(8) [OF assms(1), of r'] by auto
  qed (use node_invD(1,2,6,7) [OF assms(1)] in \<open>auto split: if_splits\<close>)
  with t show ?thesis by simp
qed

lemma node_inv_collected:
  assumes "node_inv s \<and> listener s = AwaitHeader" "nodes s r = Some e" "handlerCoro e = Some i"
  shows "node_inv (collected r e i s) \<and> listener (collected r e i s) = AwaitHeader"
proof -
  let ?u = "set_phase i Collected (s\<lparr>nodes := (nodes s)(r \<mapsto> e\<lparr>handlerCoro := None\<rparr>)\<rparr>)"
  have "node_inv ?u" using assms by (intro node_inv_moved) simp_all
  then have "node_inv (snd (erase_pending (tag (requestHeader (e\<lparr>handlerCoro := None\<rparr>))) ?u))"
    using assms(1) by (intro node_inv_erased [where r = r]) simp_all
  with assms(1) show ?thesis by (simp add: collected_def [symmetric] collected_frame)
qed

lemma node_inv_accepted:
  assumes "node_inv s" "\<not> invalid_request rh s"
  shows "node_inv (accepted fresh rh s)"
proof (rule node_invI)
  let ?t = "accepted fresh rh s"
  note d = node_invD [OF assms(1)]
  have new: "nodes s (next_node s) = None"
    using d(3) [of "next_node s"] by (cases "nodes s (next_node s)") auto
  show "\<exists>e'. nodes ?t (hd_ref (handlers ?t ! j)) = Some e' \<and> handlerCoro e' = Some j \<and>
      requestHeader e' = requests ?t ! j"
    if "j < length (handlers ?t)" "hd_phase (handlers ?t ! j) \<noteq> Collected" for j
  proof -
    from that d(5) [of j] obtain e' where e: "nodes s (hd_ref (handlers s ! j)) = Some e'"
      "handlerCoro e' = Some j" "requestHeader e' = requests s ! j"
      by (auto simp: accepted_def)
    with new have "hd_ref (handlers s ! j) \<noteq> next_node s" by auto
    with e show ?thesis by (simp add: accepted_def)
  qed
  show "r' < next_node ?t \<and> map_of (pendingResponses ?t) (tag (requestHeader e')) = Some r'"
    if "nodes ?t r' = Some e'" for r' e'
    using that d(1) d(3,4) [of r' e'] assms(2)
    by (auto simp: accepted_def invalid_request_def split: if_splits)
qed (use node_invD(1,2,6,7) [OF assms(1)] in \<open>auto simp: accepted_def split: if_splits\<close>)

lemma node_inv_header:
  assumes "node_inv s" "listener s = AwaitHeader" "listen_header fresh rh s = Some (Inr (), t)"
  shows "node_inv t"
proof -
  from assms(3) obtain u where u:
    "collect_loop (finishedHandlers s) (s\<lparr>handlersKeepingLock := True\<rparr>) = Some (Inr (), u)"
    "\<not> invalid_request rh u" "t = accepted fresh rh u"
    by (rule listen_header_accepted)
  have "node_inv (s\<lparr>handlersKeepingLock := True\<rparr>)"
    by (rule node_inv_cong [OF assms(1)]) simp_all
  with assms(2) have "node_inv u \<and> listener u = AwaitHeader"
    by (intro collect_loop_invariant [where P = "\<lambda>s. node_inv s \<and> listener s = AwaitHeader", OF u(1)])
      (auto intro: node_inv_collected [THEN conjunct1] simp: collected_frame)
  with u(2,3) show ?thesis by (simp add: node_inv_accepted)
qed

lemma node_inv_body:
  assumes "node_inv s" "listener s = AwaitBody r" "listen_body body r s = (Inr (), t)"
  shows "node_inv t"
proof -
  note d = node_invD [OF assms(1)]
  from listen_body_run [OF assms(3)] obtain e where e: "nodes s r = Some e" and t:
    "t = s\<lparr>nodes := (nodes s)(r \<mapsto>
               e\<lparr>requestBuffer := (requestBuffer e)\<lparr>bdata := Some body\<rparr>,
                 handlerCoro := Some (length (handlers s))\<rparr>),
             handlers := handlers s @ [\<lparr>hd_ref = r, hd_phase = Queued\<rparr>],
             requests := requests s @ [requestHeader e], listener := AwaitHeader\<rparr>" by blast
  from d(8) [OF assms(2)] e have c: "handlerCoro e = None" by simp
  show ?thesis
  proof (rule node_invI)
    show "\<exists>e'. nodes t (hd_ref (handlers t ! j)) = Some e' \<and> handlerCoro e' = Some j \<and>
        requestHeader e' = requests t ! j"
      if "j < length (handlers t)" "hd_phase (handlers t ! j) \<noteq> Collected" for j
    proof (cases "j = length (handlers s)")
      case True
      with t d(2) show ?thesis by (simp add: nth_append)
    next
      case False
      with that t have j: "j < length (handlers s)" "hd_phase (handlers s ! j) \<noteq> Collected"
        by (auto simp: nth_append)
      with d(5) [OF j] c e d(2) show ?thesis by (auto simp: t nth_append)
    qed
    show "i < length (handlers t) \<and> hd_ref (handlers t ! i) = r'"
      if "nodes t r' = Some e'" "handlerCoro e' = Some i" for r' e' i
      using that d(6,7) [of r' e' i] by (auto simp: t nth_append split: if_splits)
  qed (use d(1,2) d(3) d(4) e in \<open>auto simp: t split: if_splits\<close>)
qed

text \<open>The waiters are the handlers that wait.\<close>

definition wait_inv :: "server \<Rightarrow> bool" where
  "wait_inv s \<longleftrightarrow>
     distinct (writeLockWaiters s) \<and> set (writeLockWaiters s) = in_phase Waiting (handlers s)"

lemma wait_inv_set_phase:
  assumes "wait_inv s" "hd_phase (handlers s ! i) \<noteq> Waiting" "ph \<noteq> Waiting"
  shows "wait_inv (set_phase i ph s)"
proof -
  have "in_phase Waiting (handlers (set_phase i ph s)) = in_phase Waiting (handlers s)"
    using assms(2,3) by (auto simp: in_phase_def hd_phase_set_phase split: if_splits)
  with assms(1) show ?thesis by (simp add: wait_inv_def)
qed

lemma wait_inv_release:
  assumes "wait_inv s"
  shows "wait_inv (release_write_lock s)"
proof (cases "writeLockWaiters s = []")
  case True
  with assms show ?thesis by (simp add: wait_inv_def release_write_lock_def)
next
  case False
  have "last (writeLockWaiters s) \<in> in_phase Waiting (handlers s)"
    using last_in_set [OF False] assms by (simp add: wait_inv_def)
  then have "last (writeLockWaiters s) < length (handlers s)" by (simp add: in_phase_def)
  from in_phase_set_phase [OF this, of Waiting Woken] butlast_distinct [OF False] False assms
  show ?thesis by (simp add: wait_inv_def release_write_lock_def)
qed

lemma wait_inv_acquire:
  assumes "wait_inv s" "i < length (handlers s)" "hd_phase (handlers s ! i) = Queued"
  shows "wait_inv (acquire_write_lock i s)"
  using assms in_phase_set_phase [OF assms(2), of Waiting]
  by (auto simp: wait_inv_def acquire_write_lock_def in_phase_def)

lemma waiter_phase:
  "wait_inv s \<Longrightarrow> j \<in> set (writeLockWaiters s) \<Longrightarrow> j < length (handlers s) \<and> hd_phase (handlers s ! j) = Waiting"
  by (auto simp: wait_inv_def in_phase_def)

lemma release_phase:
  assumes "wait_inv s" "hd_phase (handlers s ! i) \<noteq> Waiting"
  shows "hd_phase (handlers (release_write_lock s) ! i) = hd_phase (handlers s ! i)"
proof (cases "writeLockWaiters s = []")
  case False
  with waiter_phase [OF assms(1) last_in_set [OF False]] assms(2)
  have "i \<noteq> last (writeLockWaiters s)" by auto
  with False show ?thesis by (simp add: release_write_lock_def)
qed (simp add: release_write_lock_def)

lemma node_inv_release:
  assumes "node_inv s" "wait_inv s"
  shows "node_inv (release_write_lock s)"
proof (cases "writeLockWaiters s = []")
  case True
  with assms show ?thesis
    by (auto simp: release_write_lock_def intro: node_inv_cong)
next
  case False
  with waiter_phase [OF assms(2) last_in_set [OF False]] show ?thesis
    by (auto simp: release_write_lock_def intro!: node_inv_set_phase node_inv_cong [OF assms(1)])
qed

lemma node_inv_handler:
  assumes "node_inv s" "wait_inv s" "handler_step fresh i s = Some (Inr (), t)"
  shows "node_inv t"
proof (cases "hd_phase (handlers s ! i)")
  case Queued
  with assms(3) have "start_handler i s = (Inr (), t)" by (simp add: handler_step_def)
  from start_handler_run [OF this] Queued show ?thesis
    by (auto simp: acquire_write_lock_def split: if_splits
        intro!: node_inv_set_phase node_inv_cong [OF assms(1)])
next
  case Woken
  with assms show ?thesis by (auto simp: handler_step_def intro: node_inv_set_phase)
next
  case Writing
  with assms(3) have "write_response fresh i s = (Inr (), t)" by (simp add: handler_step_def)
  from write_response_run [OF this] Writing show ?thesis
    by (auto intro!: node_inv_set_phase node_inv_cong [OF assms(1)])
next
  case Handled
  with assms(3) have "t = set_phase i Leaving (release_write_lock s)" by (simp add: handler_step_def)
  with node_inv_release [OF assms(1,2)] release_phase [OF assms(2), of i] Handled show ?thesis
    by (simp add: node_inv_set_phase)
next
  case Leaving
  with assms(3) have "finish_handler i s = (Inr (), t)" by (simp add: handler_step_def)
  from finish_handler_run [OF this] Leaving show ?thesis
    by (auto intro!: node_inv_set_phase node_inv_cong [OF assms(1)])
qed (use assms(3) in \<open>simp_all add: handler_step_def\<close>)

lemma wait_inv_handler:
  assumes "wait_inv s" "i < length (handlers s)" "handler_step fresh i s = Some (Inr (), t)"
  shows "wait_inv t"
proof (cases "hd_phase (handlers s ! i)")
  case Queued
  with assms(3) have "start_handler i s = (Inr (), t)" by (simp add: handler_step_def)
  from start_handler_run [OF this] Queued assms(1,2) show ?thesis
    by (auto simp: wait_inv_acquire wait_inv_set_phase split: if_splits)
next
  case Woken
  with assms show ?thesis by (auto simp: handler_step_def intro: wait_inv_set_phase)
next
  case Writing
  with assms(3) have "write_response fresh i s = (Inr (), t)" by (simp add: handler_step_def)
  from write_response_run [OF this] Writing assms(1) show ?thesis
    by (auto intro!: wait_inv_set_phase) (simp add: wait_inv_def)
next
  case Handled
  with assms(3) have "t = set_phase i Leaving (release_write_lock s)" by (simp add: handler_step_def)
  with wait_inv_release [OF assms(1)] release_phase [OF assms(1), of i] Handled show ?thesis
    by (simp add: wait_inv_set_phase)
next
  case Leaving
  with assms(3) have "finish_handler i s = (Inr (), t)" by (simp add: handler_step_def)
  from finish_handler_run [OF this] Leaving assms(1) show ?thesis
    by (auto intro!: wait_inv_set_phase) (simp add: wait_inv_def)
qed (use assms(3) in \<open>simp_all add: handler_step_def\<close>)

text \<open>
  The wire carries one response for each handler of a Ping that has written, with the tag of its
  request.
\<close>

definition past :: "phase \<Rightarrow> bool" where
  "past ph \<longleftrightarrow> ph = Handled \<or> ph = Leaving \<or> ph = Finished \<or> ph = Collected"

definition response_to :: "request_header \<Rightarrow> bytes" where
  "response_to rh = response_header_bytes \<lparr>responseLen = 0, rtag = tag rh\<rparr>"

definition answer_inv :: "server \<Rightarrow> bool" where
  "answer_inv s \<longleftrightarrow>
     wire s = concat (map (\<lambda>i. response_to (requests s ! i)) (answered s)) \<and>
     distinct (answered s) \<and>
     (\<forall>i. i \<in> set (answered s) \<longleftrightarrow>
        i < length (handlers s) \<and> methodId (requests s ! i) = CommandId_Ping \<and>
        past (hd_phase (handlers s ! i))) \<and>
     (\<forall>i<length (handlers s). hd_phase (handlers s ! i) \<in> {Waiting, Woken, Writing} \<longrightarrow>
        methodId (requests s ! i) = CommandId_Ping)"

lemma answer_inv_new: "answer_inv server_new"
  by (simp add: answer_inv_def server_new_def)

lemma answer_inv_cong:
  assumes "answer_inv s" "handlers t = handlers s" "requests t = requests s" "wire t = wire s"
    "answered t = answered s"
  shows "answer_inv t"
  using assms by (simp add: answer_inv_def)

lemma answer_inv_set_phase:
  assumes "answer_inv s"
    and "past (hd_phase (handlers s ! i)) = past ph \<or> methodId (requests s ! i) \<noteq> CommandId_Ping"
    and "ph \<in> {Waiting, Woken, Writing} \<Longrightarrow>
      hd_phase (handlers s ! i) \<in> {Waiting, Woken, Writing} \<or> methodId (requests s ! i) = CommandId_Ping"
  shows "answer_inv (set_phase i ph s)"
  using assms by (auto simp: answer_inv_def hd_phase_set_phase split: if_splits)

lemma answer_inv_collected:
  assumes "answer_inv s"
    and "hd_phase (handlers s ! i) = Finished \<or> hd_phase (handlers s ! i) = Collected"
  shows "answer_inv (collected r e i s)"
proof -
  have "answer_inv (set_phase i Collected s)"
    using assms by (intro answer_inv_set_phase) (auto simp: past_def)
  then show ?thesis by (rule answer_inv_cong) (simp_all add: collected_frame)
qed

lemma answer_inv_drained:
  assumes "answer_inv s"
    and "hd_phase (handlers s ! i) = Finished \<or> hd_phase (handlers s ! i) = Collected"
  shows "answer_inv (set_phase i Collected (s\<lparr>nodes := n\<rparr>))"
proof -
  have "answer_inv (set_phase i Collected s)"
    using assms by (intro answer_inv_set_phase) (auto simp: past_def)
  then show ?thesis by (rule answer_inv_cong) simp_all
qed

lemma answer_inv_header:
  assumes "answer_inv s" "listen_header fresh rh s = Some (Inr (), t)"
  shows "answer_inv t"
proof -
  from assms(2) obtain u where u:
    "collect_loop (finishedHandlers s) (s\<lparr>handlersKeepingLock := True\<rparr>) = Some (Inr (), u)"
    "t = accepted fresh rh u"
    by (rule listen_header_accepted)
  have "answer_inv (s\<lparr>handlersKeepingLock := True\<rparr>)"
    by (rule answer_inv_cong [OF assms(1)]) simp_all
  then have "answer_inv u"
    by (rule collect_loop_invariant [where P = answer_inv, OF u(1)]) (rule answer_inv_collected)
  then show ?thesis by (rule answer_inv_cong) (simp_all add: u(2) accepted_def)
qed

lemma answer_inv_body:
  assumes "answer_inv s" "length (requests s) = length (handlers s)"
    and "listen_body body r s = (Inr (), t)"
  shows "answer_inv t"
proof -
  from listen_body_run [OF assms(3)] obtain e where
    "t = s\<lparr>nodes := (nodes s)(r \<mapsto>
               e\<lparr>requestBuffer := (requestBuffer e)\<lparr>bdata := Some body\<rparr>,
                 handlerCoro := Some (length (handlers s))\<rparr>),
             handlers := handlers s @ [\<lparr>hd_ref = r, hd_phase = Queued\<rparr>],
             requests := requests s @ [requestHeader e], listener := AwaitHeader\<rparr>" by blast
  then have t: "handlers t = handlers s @ [\<lparr>hd_ref = r, hd_phase = Queued\<rparr>]"
    "requests t = requests s @ [requestHeader e]" "wire t = wire s" "answered t = answered s"
    by simp_all
  have "i < length (handlers s)" if "i \<in> set (answered s)" for i
    using that assms(1) by (simp add: answer_inv_def)
  then have m: "map (\<lambda>i. response_to (requests t ! i)) (answered s) =
      map (\<lambda>i. response_to (requests s ! i)) (answered s)"
    using assms(2) by (auto simp: t nth_append)
  have w: "wire t = concat (map (\<lambda>i. response_to (requests t ! i)) (answered t))"
    unfolding t(3,4) m using assms(1) unfolding answer_inv_def by blast
  have p: "\<not> past Queued" by (simp add: past_def)
  show ?thesis
    using assms(1,2) p unfolding answer_inv_def
    by (intro conjI w) (auto simp: t nth_append less_Suc_eq)
qed

lemma answer_inv_acquire:
  assumes "answer_inv s" "hd_phase (handlers s ! i) = Queued" "methodId (requests s ! i) = CommandId_Ping"
  shows "answer_inv (acquire_write_lock i s)"
proof -
  have "answer_inv (set_phase i Writing s)" "answer_inv (set_phase i Waiting s)"
    using assms by (auto simp: past_def intro!: answer_inv_set_phase)
  then show ?thesis
    by (cases "writeLock s") (auto simp: acquire_write_lock_def intro: answer_inv_cong)
qed

lemma answer_inv_handler:
  assumes "answer_inv s" "node_inv s" "wait_inv s" "i < length (handlers s)"
    and "handler_step fresh i s = Some (Inr (), t)"
  shows "answer_inv t"
proof -
  have own: "requestHeader e = requests s ! i"
    if "hd_phase (handlers s ! i) \<noteq> Collected" "nodes s (hd_ref (handlers s ! i)) = Some e" for e
    using node_invD(5) [OF assms(2,4) that(1)] that(2) by auto
  show ?thesis
  proof (cases "hd_phase (handlers s ! i)")
    case Queued
    with assms(5) have "start_handler i s = (Inr (), t)" by (simp add: handler_step_def)
    from start_handler_run [OF this] obtain e where e: "nodes s (hd_ref (handlers s ! i)) = Some e"
      "if methodId (requestHeader e) = CommandId_Ping then t = acquire_write_lock i s
        else t = set_phase i Handled s" by blast
    with own [OF _ e(1)] Queued have "if methodId (requests s ! i) = CommandId_Ping
        then t = acquire_write_lock i s else t = set_phase i Handled s" by simp
    with assms(1) Queued answer_inv_acquire [OF assms(1) Queued]
      answer_inv_set_phase [OF assms(1), of i Handled] show ?thesis
      by (auto split: if_splits)
  next
    case Woken
    with assms(1,5) show ?thesis
      by (auto simp: handler_step_def past_def intro!: answer_inv_set_phase)
  next
    case Writing
    with assms(5) have "write_response fresh i s = (Inr (), t)" by (simp add: handler_step_def)
    from write_response_run [OF this] own Writing have t: "t = set_phase i Handled
        (s\<lparr>wire := wire s @ response_to (requests s ! i), answered := answered s @ [i]\<rparr>)"
      by (auto simp: response_to_def)
    from assms(1,4) Writing have "methodId (requests s ! i) = CommandId_Ping" "i \<notin> set (answered s)"
      by (auto simp: answer_inv_def past_def)
    with assms(1,4) show ?thesis
      by (auto simp: t answer_inv_def hd_phase_set_phase) (auto simp: past_def)
  next
    case Handled
    with assms(5) have t: "t = set_phase i Leaving (release_write_lock s)"
      by (simp add: handler_step_def)
    have "answer_inv (release_write_lock s)"
    proof (cases "writeLockWaiters s = []")
      case True
      with assms(1) show ?thesis by (auto simp: release_write_lock_def intro: answer_inv_cong)
    next
      case False
      with waiter_phase [OF assms(3) last_in_set [OF False]] show ?thesis
        by (auto simp: release_write_lock_def past_def
            intro!: answer_inv_set_phase answer_inv_cong [OF assms(1)])
    qed
    then show ?thesis
      unfolding t using release_phase [OF assms(3), of i] Handled
      by (intro answer_inv_set_phase) (simp_all add: past_def)
  next
    case Leaving
    with assms(5) have "finish_handler i s = (Inr (), t)" by (simp add: handler_step_def)
    from finish_handler_run [OF this] Leaving show ?thesis
      by (auto simp: past_def intro!: answer_inv_set_phase answer_inv_cong [OF assms(1)])
  qed (use assms(5) in \<open>simp_all add: handler_step_def\<close>)
qed

definition server_inv :: "server \<Rightarrow> bool" where
  "server_inv s \<longleftrightarrow> node_inv s \<and> wait_inv s \<and> answer_inv s"

lemma wait_inv_cong:
  "wait_inv s \<Longrightarrow> handlers t = handlers s \<Longrightarrow> writeLockWaiters t = writeLockWaiters s \<Longrightarrow> wait_inv t"
  by (simp add: wait_inv_def)

lemma wait_inv_collected:
  assumes "wait_inv s"
    and "hd_phase (handlers s ! i) = Finished \<or> hd_phase (handlers s ! i) = Collected"
  shows "wait_inv (collected r e i s)"
proof -
  have "wait_inv (set_phase i Collected s)" using assms by (intro wait_inv_set_phase) auto
  then show ?thesis by (rule wait_inv_cong) (simp_all add: collected_frame)
qed

lemma wait_inv_header:
  assumes "wait_inv s" "listen_header fresh rh s = Some (Inr (), t)"
  shows "wait_inv t"
proof -
  from assms(2) obtain u where u:
    "collect_loop (finishedHandlers s) (s\<lparr>handlersKeepingLock := True\<rparr>) = Some (Inr (), u)"
    "t = accepted fresh rh u"
    by (rule listen_header_accepted)
  have "wait_inv (s\<lparr>handlersKeepingLock := True\<rparr>)" by (rule wait_inv_cong [OF assms(1)]) simp_all
  then have "wait_inv u"
    by (rule collect_loop_invariant [where P = wait_inv, OF u(1)]) (rule wait_inv_collected)
  then show ?thesis by (rule wait_inv_cong) (simp_all add: u(2) accepted_def)
qed

lemma wait_inv_body:
  assumes "wait_inv s" "listen_body body r s = (Inr (), t)"
  shows "wait_inv t"
proof -
  from listen_body_run [OF assms(2)] have t:
    "handlers t = handlers s @ [\<lparr>hd_ref = r, hd_phase = Queued\<rparr>]"
    "writeLockWaiters t = writeLockWaiters s"
    by auto
  have "in_phase Waiting (handlers t) = in_phase Waiting (handlers s)"
    by (auto simp: t in_phase_def nth_append less_Suc_eq)
  with assms(1) t(2) show ?thesis by (simp add: wait_inv_def)
qed

lemma server_inv_new: "server_inv server_new"
  by (simp add: server_inv_def node_inv_new answer_inv_new)
    (simp add: wait_inv_def server_new_def in_phase_def)

lemma server_inv_drain:
  assumes "server_inv s" "listen_closed s = Some (Inr (), t)"
  shows "server_inv t"
proof -
  let ?P = "\<lambda>s. server_inv s \<and> listener s = Stopped"
  have "node_inv (s\<lparr>listener := Stopped\<rparr>)" "wait_inv (s\<lparr>listener := Stopped\<rparr>)"
    "answer_inv (s\<lparr>listener := Stopped\<rparr>)"
    using assms(1) unfolding server_inv_def
    by (auto intro: node_inv_cong wait_inv_cong answer_inv_cong)
  then have i: "?P (s\<lparr>listener := Stopped\<rparr>)" by (simp add: server_inv_def)
  have "drain_loop (map snd (pendingResponses s)) (s\<lparr>listener := Stopped\<rparr>) = Some (Inr (), t)"
    using assms(2) by (simp add: listen_closed_def)
  from drain_loop_invariant [where P = ?P, OF this i] show ?thesis
  proof -
    assume r: "(\<And>r e i s. ?P s \<Longrightarrow> nodes s r = Some e \<Longrightarrow> handlerCoro e = Some i \<Longrightarrow>
      hd_phase (handlers s ! i) = Finished \<or> hd_phase (handlers s ! i) = Collected \<Longrightarrow>
      ?P (set_phase i Collected (s\<lparr>nodes := (nodes s)(r \<mapsto> e\<lparr>handlerCoro := None\<rparr>)\<rparr>))) \<Longrightarrow> ?P t"
    show ?thesis
    proof (rule r [THEN conjunct1])
      fix r e i s
      let ?t = "set_phase i Collected (s\<lparr>nodes := (nodes s)(r \<mapsto> e\<lparr>handlerCoro := None\<rparr>)\<rparr>)"
      assume a: "?P s" "nodes s r = Some e" "handlerCoro e = Some i"
        "hd_phase (handlers s ! i) = Finished \<or> hd_phase (handlers s ! i) = Collected"
      have "node_inv ?t" using a by (intro node_inv_moved) (simp_all add: server_inv_def)
      moreover have "wait_inv ?t"
      proof (rule wait_inv_cong)
        show "wait_inv (set_phase i Collected s)"
          using a by (intro wait_inv_set_phase) (auto simp: server_inv_def)
      qed simp_all
      moreover have "answer_inv ?t"
        using a by (intro answer_inv_drained) (auto simp: server_inv_def)
      ultimately show "?P ?t" using a(1) by (simp add: server_inv_def)
    qed
  qed
qed

lemma server_inv_do:
  assumes "server_inv s" "server_do fresh e s = Some (Inr (), t)"
  shows "server_inv t"
proof (cases e)
  case (Header rh)
  with assms show ?thesis
    by (auto simp: server_do_def server_inv_def split: if_splits
        intro: node_inv_header wait_inv_header answer_inv_header)
next
  case (Body b)
  with assms obtain r where "listener s = AwaitBody r" "listen_body b r s = (Inr (), t)"
    by (auto simp: server_do_def split: listener.splits)
  with assms(1) node_invD(2) [of s] show ?thesis
    by (auto simp: server_inv_def intro: node_inv_body wait_inv_body answer_inv_body)
next
  case (Step i)
  with assms show ?thesis
    by (auto simp: server_do_def server_inv_def split: if_splits
        intro: node_inv_handler wait_inv_handler answer_inv_handler)
next
  case Closed
  with assms show ?thesis by (auto simp: server_do_def split: if_splits intro: server_inv_drain)
qed

lemma server_inv_run:
  "server_run fresh es server_new = Some (Inr (), s) \<Longrightarrow> server_inv s"
  by (rule server_run_invariant [where P = server_inv]) (auto intro: server_inv_new server_inv_do)

subsection \<open>References to erased nodes\<close>

text \<open>
  A node that was erased stays erased, \<open>finishedHandlers\<close> only grows, and \<open>handlersKeepingLock\<close> is
  free between steps.
\<close>

definition erased :: "nat \<Rightarrow> server \<Rightarrow> bool" where
  "erased r s \<longleftrightarrow> r < next_node s \<and> nodes s r = None"

definition stale :: "nat \<Rightarrow> server \<Rightarrow> bool" where
  "stale r s \<longleftrightarrow> erased r s \<and> (\<exists>xs. finishedHandlers s = r # xs)"

lemma erased_collected: "erased q s \<Longrightarrow> nodes s r = Some e \<Longrightarrow> erased q (collected r e i s)"
  by (auto simp: erased_def collected_def erase_pending_def modify_run split: option.splits)

lemma collect_loop_erases:
  assumes "collect_loop rs s = Some (Inr (), u)" "node_inv s" "listener s = AwaitHeader" "r \<in> set rs"
  shows "erased r u"
  using assms
proof (induction rs arbitrary: s)
  case (Cons q rs)
  from Cons.prems(1) obtain e i where c: "nodes s q = Some e" "handlerCoro e = Some i"
    "hd_phase (handlers s ! i) = Finished \<or> hd_phase (handlers s ! i) = Collected"
    "collect_loop rs (collected q e i s) = Some (Inr (), u)"
    by (rule collect_loop_ConsD)
  have i: "node_inv (collected q e i s) \<and> listener (collected q e i s) = AwaitHeader"
    using Cons.prems(2,3) c(1,2) by (intro node_inv_collected) simp_all
  show ?case
  proof (cases "r = q")
    case True
    from node_invD(3,4) [OF Cons.prems(2) c(1)] have "erased q (collected q e i s)"
      by (simp add: erased_def collected_def erase_pending_def modify_run)
    then have "erased q u"
      by (rule collect_loop_invariant [where P = "erased q", OF c(4)]) (rule erased_collected)
    with True show ?thesis by simp
  next
    case False
    with Cons i c(4) show ?thesis by simp
  qed
qed simp

lemma release_frame [simp]:
  "finishedHandlers (release_write_lock s) = finishedHandlers s"
  "nodes (release_write_lock s) = nodes s" "next_node (release_write_lock s) = next_node s"
  "handlersKeepingLock (release_write_lock s) = handlersKeepingLock s"
  by (simp_all add: release_write_lock_def)

lemma stale_handler:
  assumes "handler_step fresh i s = Some (Inr (), t)"
  shows "nodes t = nodes s \<and> next_node t = next_node s \<and>
    handlersKeepingLock t = handlersKeepingLock s \<and> (\<exists>xs. finishedHandlers t = finishedHandlers s @ xs)"
proof (cases "hd_phase (handlers s ! i)")
  case Queued
  with assms have "start_handler i s = (Inr (), t)" by (simp add: handler_step_def)
  from start_handler_run [OF this] show ?thesis
    by (auto simp: acquire_write_lock_def split: if_splits)
next
  case Writing
  with assms have "write_response fresh i s = (Inr (), t)" by (simp add: handler_step_def)
  from write_response_run [OF this] show ?thesis by auto
next
  case Leaving
  with assms have "finish_handler i s = (Inr (), t)" by (simp add: handler_step_def)
  from finish_handler_run [OF this] show ?thesis by auto
qed (use assms in \<open>auto simp: handler_step_def\<close>)

lemma stale_accepted: "stale q s \<Longrightarrow> stale q (accepted fresh rh s)"
  by (auto simp: stale_def erased_def accepted_def)

lemma stale_collected: "stale q s \<Longrightarrow> nodes s r = Some e \<Longrightarrow> stale q (collected r e i s)"
  by (auto simp: stale_def erased_collected collected_frame)

lemma stale_event:
  assumes "stale q s" "server_do fresh e s = Some (Inr (), t)"
  shows "stale q t"
proof (cases e)
  case (Header rh)
  with assms(2) have "listen_header fresh rh s = Some (Inr (), t)"
    by (simp add: server_do_def split: if_splits)
  then obtain u where u:
    "collect_loop (finishedHandlers s) (s\<lparr>handlersKeepingLock := True\<rparr>) = Some (Inr (), u)"
    "t = accepted fresh rh u"
    by (rule listen_header_accepted)
  have "stale q (s\<lparr>handlersKeepingLock := True\<rparr>)" using assms(1) by (simp add: stale_def erased_def)
  then have "stale q u"
    by (rule collect_loop_invariant [where P = "stale q", OF u(1)]) (rule stale_collected)
  with u(2) show ?thesis by (simp add: stale_accepted)
next
  case (Body b)
  with assms(2) obtain r where "listen_body b r s = (Inr (), t)"
    by (auto simp: server_do_def split: listener.splits)
  from listen_body_run [OF this] assms(1) show ?thesis by (auto simp: stale_def erased_def)
next
  case (Step i)
  with assms(2) have "handler_step fresh i s = Some (Inr (), t)"
    by (simp add: server_do_def split: if_splits)
  from stale_handler [OF this] assms(1) show ?thesis by (auto simp: stale_def erased_def)
next
  case Closed
  with assms(2) have "drain_loop (map snd (pendingResponses s)) (s\<lparr>listener := Stopped\<rparr>) = Some (Inr (), t)"
    by (simp add: server_do_def listen_closed_def split: if_splits)
  moreover have "stale q (s\<lparr>listener := Stopped\<rparr>)" using assms(1) by (simp add: stale_def erased_def)
  ultimately show ?thesis
    by (rule drain_loop_invariant) (auto simp: stale_def erased_def)
qed

lemma unlocked_event:
  assumes "\<not> handlersKeepingLock s" "server_do fresh e s = Some (Inr (), t)"
  shows "\<not> handlersKeepingLock t"
proof (cases e)
  case (Header rh)
  with assms(2) have "listen_header fresh rh s = Some (Inr (), t)"
    by (simp add: server_do_def split: if_splits)
  then obtain u where "t = accepted fresh rh u" by (rule listen_header_accepted)
  then show ?thesis by (simp add: accepted_def)
next
  case (Body b)
  with assms(2) obtain r where "listen_body b r s = (Inr (), t)"
    by (auto simp: server_do_def split: listener.splits)
  from listen_body_run [OF this] assms(1) show ?thesis by auto
next
  case (Step i)
  with assms(2) have "handler_step fresh i s = Some (Inr (), t)"
    by (simp add: server_do_def split: if_splits)
  from stale_handler [OF this] assms(1) show ?thesis by auto
next
  case Closed
  with assms(2) have "drain_loop (map snd (pendingResponses s)) (s\<lparr>listener := Stopped\<rparr>) = Some (Inr (), t)"
    by (simp add: server_do_def listen_closed_def split: if_splits)
  then show ?thesis
    by (rule drain_loop_invariant [where P = "\<lambda>s. \<not> handlersKeepingLock s"]) (simp_all add: assms(1))
qed

lemma unlocked_run:
  assumes "server_run fresh es s = Some (Inr (), t)" "\<not> handlersKeepingLock s"
  shows "\<not> handlersKeepingLock t"
  by (rule server_run_invariant [where P = "\<lambda>s. \<not> handlersKeepingLock s", OF assms])
    (rule unlocked_event)

lemma stale_run: "server_run fresh es s = Some (Inr (), t) \<Longrightarrow> stale q s \<Longrightarrow> stale q t"
  by (erule server_run_invariant [where P = "stale q"]) (auto intro: stale_event)

lemma stale_header:
  "stale q s \<Longrightarrow> \<not> handlersKeepingLock s \<Longrightarrow>
     \<exists>t. listen_header fresh rh s = Some (Inl (UB UseAfterErase), t)"
  by (auto simp: stale_def erased_def listen_header_def lock_keeping_def deref_def)

subsection \<open>Reading requests off the stream\<close>

text \<open>
  What \<open>listen\<close> reads for one request: the header into a local at \<open>p\<close>, then as many bytes as it
  says into the request's own buffer at \<open>q\<close>.
\<close>

definition read_request ::
    "'s transport \<Rightarrow> ('s \<Rightarrow> nat \<Rightarrow> u8) \<Rightarrow> nat \<Rightarrow> nat \<Rightarrow> ('s, request_header \<times> bytes) act" where
  "read_request T mem p q =
     andthen (op_raw_read T p (of_nat request_header_size)) (\<lambda>_ s.
       (let rh = request_header_of (load_bytes p request_header_size (mem s)) in
        andthen (op_raw_read T q (requestLength rh)) (\<lambda>_ s.
          (Inr (rh, load_bytes q (unat (requestLength rh)) (mem s)), s)) s))"

fun read_requests ::
    "'s transport \<Rightarrow> ('s \<Rightarrow> nat \<Rightarrow> u8) \<Rightarrow> nat \<Rightarrow> nat \<Rightarrow> nat \<Rightarrow>
      ('s, (request_header \<times> bytes) list) act" where
  "read_requests T mem p q 0 = ret []"
| "read_requests T mem p q (Suc n) =
     andthen (read_request T mem p q) (\<lambda>r.
     andthen (read_requests T mem p q n) (\<lambda>rs. ret (r # rs)))"

definition request_message :: "request_header \<times> bytes \<Rightarrow> bytes" where
  "request_message m = request_header_bytes (fst m) @ snd m"

definition well_sized :: "request_header \<times> bytes \<Rightarrow> bool" where
  "well_sized m \<longleftrightarrow> length (snd m) = unat (requestLength (fst m))"

context byte_stream
begin

lemma read_request_ok:
  assumes "ok s" "well_sized m" "incoming s = request_message m @ rest"
  shows "\<exists>t. read_request T mem p q s = (Inr m, t) \<and> ok t \<and> incoming t = rest"
proof -
  let ?n = "of_nat request_header_size :: u32"
  have n: "unat ?n = 7" by (simp add: request_header_size_def)
  have l: "unat ?n \<le> length (incoming s)" using assms(3) by (simp add: n request_message_def)
  from read_ok [OF assms(1) l, of p] obtain u where u: "op_raw_read T p ?n s = (Inr (), u)" "ok u"
    "mem u = store_bytes p (take 7 (incoming s)) (mem s)" "incoming u = drop 7 (incoming s)"
    unfolding n by blast
  have b: "take 7 (incoming s) = request_header_bytes (fst m)" "incoming u = snd m @ rest"
    using assms(3) u(4) by (simp_all add: request_message_def)
  then have h: "request_header_of (load_bytes p request_header_size (mem u)) = fst m"
    using u(3) request_header_of_bytes [of "fst m" "[]"] by (simp add: request_header_size_def)
  have "unat (requestLength (fst m)) \<le> length (incoming u)"
    using assms(2) b(2) by (simp add: well_sized_def)
  from read_ok [OF u(2) this, of q] assms(2) b(2) obtain t where
    t: "op_raw_read T q (requestLength (fst m)) u = (Inr (), t)" "ok t" "incoming t = rest"
    "mem t = store_bytes q (snd m) (mem u)"
    by (auto simp: well_sized_def)
  then show ?thesis
    using u(1) h assms(2) by (simp add: read_request_def andthen_Inr Let_def well_sized_def)
qed

lemma read_requests_ok:
  assumes "ok s" "\<forall>m\<in>set ms. well_sized m" "incoming s = concat (map request_message ms) @ rest"
  shows "\<exists>t. read_requests T mem p q (length ms) s = (Inr ms, t) \<and> ok t \<and> incoming t = rest"
  using assms
proof (induction ms arbitrary: s)
  case Nil
  then show ?case by (simp add: ret_run)
next
  case (Cons m ms)
  have "incoming s = request_message m @ concat (map request_message ms) @ rest"
    using Cons.prems(3) by simp
  with read_request_ok [OF Cons.prems(1), of m _ p q] Cons.prems(2) obtain u where
    u: "read_request T mem p q s = (Inr m, u)" "ok u"
    "incoming u = concat (map request_message ms) @ rest" by auto
  from Cons.IH [OF u(2) _ u(3)] Cons.prems(2) obtain t where
    "read_requests T mem p q (length ms) u = (Inr ms, t)" "ok t" "incoming t = rest" by auto
  with u(1) show ?case by (simp add: andthen_Inr ret_run)
qed

end

subsection \<open>The steps the handlers have left\<close>

lemma release_frame_more [simp]:
  "listener (release_write_lock s) = listener s"
  "requests (release_write_lock s) = requests s" "answered (release_write_lock s) = answered s"
  "wire (release_write_lock s) = wire s"
  by (simp_all add: release_write_lock_def)

lemma acquire_frame [simp]:
  "nodes (acquire_write_lock i s) = nodes s" "listener (acquire_write_lock i s) = listener s"
  "requests (acquire_write_lock i s) = requests s" "answered (acquire_write_lock i s) = answered s"
  "wire (acquire_write_lock i s) = wire s"
  by (simp_all add: acquire_write_lock_def)

text \<open>What a step of a handler leaves alone.\<close>

lemma handler_frame:
  assumes "handler_step fresh i s = Some (Inr (), t)"
  shows "requests t = requests s" "listener t = listener s" "nodes t = nodes s"
    "answered t = answered s \<or> answered t = answered s @ [i]"
proof -
  have "requests t = requests s \<and> listener t = listener s \<and> nodes t = nodes s \<and>
      (answered t = answered s \<or> answered t = answered s @ [i])"
  proof (cases "hd_phase (handlers s ! i)")
    case Queued
    with assms have "start_handler i s = (Inr (), t)" by (simp add: handler_step_def)
    from start_handler_run [OF this] show ?thesis by (auto split: if_splits)
  next
    case Writing
    with assms have "write_response fresh i s = (Inr (), t)" by (simp add: handler_step_def)
    from write_response_run [OF this] show ?thesis by auto
  next
    case Leaving
    with assms have "finish_handler i s = (Inr (), t)" by (simp add: handler_step_def)
    from finish_handler_run [OF this] show ?thesis by auto
  qed (use assms in \<open>auto simp: handler_step_def\<close>)
  then show "requests t = requests s" "listener t = listener s" "nodes t = nodes s"
    "answered t = answered s \<or> answered t = answered s @ [i]"
    by blast+
qed

primrec phase_load :: "phase \<Rightarrow> nat" where
  "phase_load Queued = 8" | "phase_load Waiting = 7" | "phase_load Woken = 6"
| "phase_load Writing = 5" | "phase_load Handled = 2" | "phase_load Leaving = 1"
| "phase_load Finished = 0" | "phase_load Collected = 0"

definition server_load :: "server \<Rightarrow> nat" where
  "server_load s = sum_list (map (\<lambda>h. phase_load (hd_phase h)) (handlers s))"

lemma server_load_set_phase:
  assumes "i < length (handlers s)"
  shows "server_load (set_phase i ph s) + phase_load (hd_phase (handlers s ! i)) =
    server_load s + phase_load ph"
  using assms elem_le_sum_list [of i "map (\<lambda>h. phase_load (hd_phase h)) (handlers s)"]
  by (simp add: server_load_def map_update sum_list_update)

lemma server_load_cong: "handlers t = handlers s \<Longrightarrow> server_load t = server_load s"
  by (simp add: server_load_def)

lemma server_load_release:
  assumes "wait_inv s"
  shows "server_load (release_write_lock s) \<le> server_load s"
proof (cases "writeLockWaiters s = []")
  case True
  then show ?thesis by (simp add: release_write_lock_def server_load_def)
next
  case False
  let ?j = "last (writeLockWaiters s)" and ?s = "s\<lparr>writeLockWaiters := butlast (writeLockWaiters s)\<rparr>"
  from assms last_in_set [OF False] have "?j < length (handlers s)" "hd_phase (handlers s ! ?j) = Waiting"
    by (auto simp: wait_inv_def in_phase_def)
  with server_load_set_phase [of ?j ?s Woken] server_load_cong [of ?s s] False show ?thesis
    by (simp add: release_write_lock_def)
qed

lemma server_load_collect:
  assumes "collect_loop rs s = Some (Inr (), u)"
  shows "server_load u \<le> server_load s"
proof (rule collect_loop_invariant [where P = "\<lambda>u. server_load u \<le> server_load s", OF assms])
  fix r e i v assume a: "server_load v \<le> server_load s"
  show "server_load (collected r e i v) \<le> server_load s"
  proof (cases "i < length (handlers v)")
    case True
    with server_load_set_phase [OF True, of Collected] a show ?thesis
      by (simp add: server_load_def collected_frame)
  next
    case False
    with a show ?thesis by (simp add: server_load_def collected_frame list_update_beyond not_less)
  qed
qed simp

lemma handler_load:
  assumes "wait_inv s" "i < length (handlers s)" "handler_step fresh i s = Some (Inr (), t)"
  shows "server_load t + 2 * length (answered t) < server_load s + 2 * length (answered s)"
proof (cases "hd_phase (handlers s ! i)")
  case Queued
  with assms(3) have "start_handler i s = (Inr (), t)" by (simp add: handler_step_def)
  from start_handler_run [OF this] obtain u ph where "t = set_phase i ph u" "handlers u = handlers s"
    "answered u = answered s" "phase_load ph < 8"
    by (fastforce simp: acquire_write_lock_def split: if_splits)
  with server_load_set_phase [of i u ph] server_load_cong [of u s] Queued assms(2) show ?thesis by simp
next
  case Woken
  with assms(3) have t: "t = set_phase i Writing s" by (simp add: handler_step_def)
  have "answered t = answered s" unfolding t by simp
  with server_load_set_phase [OF assms(2), of Writing] Woken t show ?thesis by simp
next
  case Writing
  with assms(3) have "write_response fresh i s = (Inr (), t)" by (simp add: handler_step_def)
  from write_response_run [OF this] obtain u where "t = set_phase i Handled u" "handlers u = handlers s"
    "answered u = answered s @ [i]" by force
  with server_load_set_phase [of i u Handled] server_load_cong [of u s] Writing assms(2) show ?thesis
    by simp
next
  case Handled
  let ?u = "release_write_lock s"
  from Handled assms(3) have t: "t = set_phase i Leaving ?u" by (simp add: handler_step_def)
  have "i < length (handlers ?u)" using assms(2) by (simp add: release_write_lock_def)
  with server_load_set_phase [of i ?u Leaving] server_load_release [OF assms(1)]
    release_phase [OF assms(1), of i] Handled t show ?thesis by simp
next
  case Leaving
  with assms(3) have "finish_handler i s = (Inr (), t)" by (simp add: handler_step_def)
  from finish_handler_run [OF this] obtain u where "t = set_phase i Finished u"
    "handlers u = handlers s" "answered u = answered s" by force
  with server_load_set_phase [of i u Finished] server_load_cong [of u s] Leaving assms(2) show ?thesis
    by simp
qed (use assms(3) in \<open>simp_all add: handler_step_def\<close>)

subsection \<open>What the server guarantees\<close>

lemma holders_one:
  assumes "holders hs \<le> 1" "i < length hs" "j < length hs"
    and "holding (hd_phase (hs ! i))" "holding (hd_phase (hs ! j))"
  shows "i = j"
proof (rule ccontr)
  assume ij: "i \<noteq> j"
  let ?hs = "hs[i := (hs ! i)\<lparr>hd_phase := Collected\<rparr>]"
  from holders_set_phase [OF assms(2), of Collected] assms(1,4) have "holders ?hs = 0"
    by (simp add: holding_def)
  with num_pos [of j ?hs "\<lambda>h. holding (hd_phase h)"] assms(3,5) ij show False
    by (simp add: holders_def)
qed

lemma run_result:
  assumes "map_option fst x = Some r"
  obtains s where "x = Some (r, s)" "s = snd (the x)"
  using assms by (cases x) auto

definition ping_request :: "u16 \<Rightarrow> request_header" where
  "ping_request t = \<lparr>requestLength = 0, methodId = CommandId_Ping, tag = t\<rparr>"





text \<open>
  A GetNode request breaks the write lock.  Its handler never acquires the lock but
  \<open>handleRequest\<close> releases it all the same, so that a Ping handler is woken while another is writing:
  a run without failure reaches a state in which two handlers are at their call of \<open>rawWrite\<close>.
\<close>

lemma server_getnode_breaks_lock:
  "\<exists>s. server_run (\<lambda>_. 0) [Header (ping_request 1), Body [], Header (ping_request 2), Body [],
      Header \<lparr>requestLength = 0, methodId = CommandId_GetNode, tag = 3\<rparr>, Body [],
      Step 0, Step 1, Step 2, Step 2, Step 1] server_new = Some (Inr (), s) \<and>
    map hd_phase (handlers s) = [Writing, Writing, Leaving]"
proof -
  let ?es = "[Header (ping_request 1), Body [], Header (ping_request 2), Body [],
      Header \<lparr>requestLength = 0, methodId = CommandId_GetNode, tag = 3\<rparr>, Body [],
      Step 0, Step 1, Step 2, Step 2, Step 1]"
  let ?r = "server_run (\<lambda>_. 0) ?es server_new"
  have "map_option fst ?r = Some (Inr ())" by code_simp
  then obtain s where s: "?r = Some (Inr (), s)" "s = snd (the ?r)" by (rule run_result)
  have "map hd_phase (handlers s) = [Writing, Writing, Leaving]" unfolding s(2) by code_simp
  with s(1) show ?thesis by (intro exI [of _ s] conjI)
qed

text \<open>
  An invalid request is never accepted, but it is not handled either.  For a header with a body
  over the limit, an unknown method or method 0, the branch that should stop the connection only
  unlocks \<open>handlersKeepingLock\<close>, and the code goes on to unlock it again, which is undefined: after
  any run, \<open>listen\<close> fails on such a header (there, or already while collecting a finished handler).
\<close>

lemma server_invalid_request:
  assumes "server_run fresh es server_new = Some (Inr (), s)"
    and "MAX_REQUEST_LENGTH < requestLength rh \<or> CommandId_COMMAND_COUNT \<le> methodId rh \<or> methodId rh = 0"
  shows "listen_header fresh rh s \<noteq> Some (Inr (), t) \<and>
    (finishedHandlers s = [] \<longrightarrow> (\<exists>u. listen_header fresh rh s = Some (Inl (UB UnlockUnowned), u)))"
proof -
  have bad: "invalid_request rh u" for u using assms(2) by (auto simp: invalid_request_def)
  have "listen_header fresh rh s \<noteq> Some (Inr (), t)"
  proof
    assume "listen_header fresh rh s = Some (Inr (), t)"
    then obtain u where "\<not> invalid_request rh u" by (rule listen_header_accepted)
    with bad show False by blast
  qed
  moreover have "\<exists>u. listen_header fresh rh s = Some (Inl (UB UnlockUnowned), u)"
    if "finishedHandlers s = []"
  proof -
    have "\<not> handlersKeepingLock s" by (rule unlocked_run [OF assms(1)]) (simp add: server_new_def)
    moreover obtain u where
      "accept_request fresh rh (s\<lparr>handlersKeepingLock := True\<rparr>) = (Inl (UB UnlockUnowned), u)"
      using accept_request_run(2) [of "s\<lparr>handlersKeepingLock := True\<rparr>" rh fresh] bad by auto
    ultimately show ?thesis using that by (simp add: listen_header_def lock_keeping_def)
  qed
  ultimately show ?thesis by blast
qed

lemma server_invalid_request_witness:
  "\<exists>u. listen_header (\<lambda>_. 0) \<lparr>requestLength = 0, methodId = 9, tag = 1\<rparr> server_new =
     Some (Inl (UB UnlockUnowned), u)"
proof -
  have r: "server_run (\<lambda>_. 0) [] server_new = Some (Inr (), server_new)" by simp
  have "CommandId_COMMAND_COUNT \<le> methodId \<lparr>requestLength = 0, methodId = 9, tag = 1\<rparr>"
    by (simp add: CommandId_COMMAND_COUNT_def)
  with server_invalid_request [OF r, of "\<lparr>requestLength = 0, methodId = 9, tag = 1\<rparr>"] show ?thesis
    by (simp add: server_new_def)
qed

text \<open>
  A connection serves at most two more headers after a handler finished.  The first header read
  while \<open>finishedHandlers\<close> is not empty collects the finished handlers and erases their nodes, but
  the references stay in the vector, so that whatever happens then, the next header read makes
  \<open>listen\<close> use a reference to an erased node.
\<close>

lemma server_stale_reference:
  assumes "server_run fresh es server_new = Some (Inr (), s)" "listener s = AwaitHeader"
    and "finishedHandlers s \<noteq> []" "listen_header fresh rh s = Some (Inr (), t)"
    and "server_run fresh es' t = Some (Inr (), u)"
  shows "\<exists>v. listen_header fresh rh' u = Some (Inl (UB UseAfterErase), v)"
proof -
  from assms(4) obtain w where w:
    "collect_loop (finishedHandlers s) (s\<lparr>handlersKeepingLock := True\<rparr>) = Some (Inr (), w)"
    "t = accepted fresh rh w"
    by (rule listen_header_accepted)
  obtain q xs where q: "finishedHandlers s = q # xs" using assms(3) by (cases "finishedHandlers s") auto
  have "node_inv (s\<lparr>handlersKeepingLock := True\<rparr>)"
    using server_inv_run [OF assms(1)] unfolding server_inv_def by (auto intro: node_inv_cong)
  with collect_loop_erases [OF w(1), of q] assms(2) q have "erased q w" by simp
  moreover have "finishedHandlers w = q # xs"
    by (rule collect_loop_invariant [where P = "\<lambda>s. finishedHandlers s = q # xs", OF w(1)])
      (simp_all add: q collected_frame)
  ultimately have "stale q w" by (simp add: stale_def)
  then have "stale q t" unfolding w(2) by (rule stale_accepted)
  then have st: "stale q u" by (rule stale_run [OF assms(5)])
  have "\<not> handlersKeepingLock t" by (simp add: w(2) accepted_def)
  then have "\<not> handlersKeepingLock u" by (rule unlocked_run [OF assms(5)])
  with st show ?thesis by (rule stale_header)
qed

lemma server_stale_reference_witness:
  "\<exists>s t v. server_run (\<lambda>_. 0) [Header (ping_request 1), Body [], Step 0, Step 0, Step 0, Step 0]
      server_new = Some (Inr (), s) \<and>
    listen_header (\<lambda>_. 0) (ping_request 2) s = Some (Inr (), t) \<and>
    listen_header (\<lambda>_. 0) (ping_request 3) t = Some (Inl (UB UseAfterErase), v)"
proof -
  let ?es = "[Header (ping_request 1), Body [], Step 0, Step 0, Step 0, Step 0]"
  let ?r = "server_run (\<lambda>_. 0) ?es server_new"
  have "map_option fst ?r = Some (Inr ())" by code_simp
  then obtain s where s: "?r = Some (Inr (), s)" "s = snd (the ?r)" by (rule run_result)
  have l: "listener s = AwaitHeader" unfolding s(2) by code_simp
  have f: "finishedHandlers s \<noteq> []" unfolding s(2) by code_simp
  have "map_option fst (listen_header (\<lambda>_. 0) (ping_request 2) s) = Some (Inr ())"
    unfolding s(2) by code_simp
  then obtain t where t: "listen_header (\<lambda>_. 0) (ping_request 2) s = Some (Inr (), t)"
    by (rule run_result)
  have "server_run (\<lambda>_. 0) [] t = Some (Inr (), t)" by simp
  from server_stale_reference [OF s(1) l f t this] obtain v where
    "listen_header (\<lambda>_. 0) (ping_request 3) t = Some (Inl (UB UseAfterErase), v)" by blast
  with s(1) t show ?thesis by (intro exI conjI)
qed

lemma drain_loop_null:
  assumes "drain_loop rs s = Some (Inr (), u)" "r \<in> set rs" "nodes s r = Some e" "handlerCoro e = None"
  shows False
  using assms
proof (induction rs arbitrary: s)
  case (Cons q rs)
  from Cons.prems(1) obtain e' i where c: "nodes s q = Some e'" "handlerCoro e' = Some i"
    "drain_loop rs (set_phase i Collected (s\<lparr>nodes := (nodes s)(q \<mapsto> e'\<lparr>handlerCoro := None\<rparr>)\<rparr>)) =
      Some (Inr (), u)"
    by (rule drain_loop_ConsD)
  from c(1,2) Cons.prems(3,4) have "q \<noteq> r" by auto
  with Cons.IH [OF c(3)] Cons.prems show ?case by simp
qed simp

text \<open>
  A peer that closes the connection inside a request crashes the server.  While \<open>listen\<close> reads a
  body, the node of the request already exists with a null coroutine; the loop that waits for the
  pending handlers resumes it, so that after any run the end of \<open>listen\<close> is not reached, and with no
  other request pending it is the null coroutine that is asked whether it is done.
\<close>

lemma server_closed_in_body:
  assumes "server_run fresh es server_new = Some (Inr (), s)" "listener s = AwaitBody r"
  shows "listen_closed s \<noteq> Some (Inr (), t) \<and>
    (\<forall>k. pendingResponses s = [(k, r)] \<longrightarrow>
      (\<exists>u. listen_closed s = Some (Inl (UB NullCoroutine), u)))"
proof -
  have n: "node_inv s" using server_inv_run [OF assms(1)] by (simp add: server_inv_def)
  from node_invD(8) [OF n assms(2)] obtain e where e: "nodes s r = Some e" "handlerCoro e = None"
    by blast
  from node_invD(4) [OF n e(1)] have "r \<in> set (map snd (pendingResponses s))"
    by (force dest: map_of_SomeD)
  with drain_loop_null [of "map snd (pendingResponses s)" "s\<lparr>listener := Stopped\<rparr>" t r e] e
  have "listen_closed s \<noteq> Some (Inr (), t)" by (auto simp: listen_closed_def)
  with e show ?thesis
    by (auto simp: listen_closed_def deref_def set_node_def modify_run resume_handler_def)
qed

lemma server_closed_in_body_witness:
  "\<exists>s u. server_run (\<lambda>_. 0) [Header (ping_request 1)] server_new = Some (Inr (), s) \<and>
    listen_closed s = Some (Inl (UB NullCoroutine), u)"
proof -
  let ?r = "server_run (\<lambda>_. 0) [Header (ping_request 1)] server_new"
  have "map_option fst ?r = Some (Inr ())" by code_simp
  then obtain s where s: "?r = Some (Inr (), s)" "s = snd (the ?r)" by (rule run_result)
  have l: "listener s = AwaitBody 0" unfolding s(2) by code_simp
  have "length (pendingResponses s) = 1" "snd (hd (pendingResponses s)) = 0"
    unfolding s(2) by code_simp+
  then have "pendingResponses s = [(fst (hd (pendingResponses s)), 0)]"
    by (cases "pendingResponses s") (auto simp: prod_eq_iff)
  with server_closed_in_body [OF s(1) l] obtain u where
    "listen_closed s = Some (Inl (UB NullCoroutine), u)" by blast
  with s(1) show ?thesis by (intro exI conjI)
qed

text \<open>
  C31: requests are framed exactly.  A client that sends requests one after the other, each with as
  many bytes as its header says, is understood whatever the segments in which the bytes arrive: the
  server reads off the secure overlay the same headers and bodies in the same order, and the bytes
  behind them are left for the next read.
\<close>

theorem server_reads_requests:
  assumes "conn_ok c" "\<forall>m\<in>set ms. well_sized m"
    and "concat (segments c) = concat (map request_message ms) @ rest"
  shows "\<exists>t. read_requests (client_overlay caller h key) (\<lambda>c. memory (sock c)) p q (length ms) c =
      (Inr ms, t) \<and> conn_ok t \<and> concat (segments t) = rest"
  using assms by (rule secure.read_requests_ok)

theorem server_reads_requests_witness:
  "\<exists>t. read_requests (client_overlay 1 2 []) (\<lambda>c. memory (sock c)) 64 128 1
      \<lparr>sock = socket_new (''a'', 1) (''b'', 2) (\<lambda>_. 0) (\<lambda>_. promise_new ()),
       segments = [[2, 0, 0], [0, 1, 5], [0, 7, 8], [9]], sent = []\<rparr> =
    (Inr [(\<lparr>requestLength = 2, methodId = 1, tag = 5\<rparr>, [7, 8])], t) \<and> concat (segments t) = [9]"
proof -
  let ?m = "(\<lparr>requestLength = 2, methodId = 1, tag = 5\<rparr>, [7, 8] :: bytes)"
  let ?c = "\<lparr>sock = socket_new (''a'', 1) (''b'', 2) (\<lambda>_. 0) (\<lambda>_. promise_new ()),
       segments = [[2, 0, 0], [0, 1, 5], [0, 7, 8], [9]], sent = []\<rparr>"
  have "conn_ok ?c" by (simp add: conn_ok_def socket_new_def idle_def)
  moreover have "\<forall>m\<in>set [?m]. well_sized m" by (simp add: well_sized_def)
  moreover have "concat (segments ?c) = concat (map request_message [?m]) @ [9]"
    by (simp add: request_message_def request_header_bytes_def int_bytes_def le_bytes_numeral)
  ultimately show ?thesis using server_reads_requests [of ?c "[?m]" "[9]" 1 2 "[]" 64 128] by auto
qed

end
