(* ===== verification/Closing.thy ===== *)
theory Closing
  imports Servers
begin

section \<open>The end of a connection\<close>

text \<open>
  The last loop of \<open>ServerHandler::listen\<close> (\<open>proto/ServerHandler.cpp\<close>), which resumes and awaits the
  coroutine of every pending request after the peer has closed, while handlers run on the threads of
  the pool.  \<open>resumeSuspended\<close> resumes a handler wherever it is: one at its last suspension runs to its
  end, one that is still queued runs on the thread of \<open>listen\<close>, and its handle is still in the queue of
  the pool, so that a thread of the pool resumes it a second time.  \<open>listen_closed\<close> of \<open>Servers\<close> is the
  case in which nothing of this happens; this theory has the others.
\<close>

subsection \<open>State\<close>

text \<open>
  Where \<open>listen\<close> is, with the references of the map it has still to visit: at the head of the loop,
  inside \<open>handler.resume()\<close> of a handler that it runs itself, past \<open>await_ready\<close> of it, suspended until
  it ends, or returned.
\<close>

datatype drain_pc =
    Looping "nat list"
  | Inline nat "nat list"
  | Registering nat "nat list"
  | Awaiting nat "nat list"
  | Ended

text \<open>
  \<open>tokens\<close>: the handlers whose coroutine is in the queue of the pool.  \<open>waited\<close>: the handlers that
  have been suspended in \<open>acquireWriteLock\<close>; their \<open>handleRequest\<close> is suspended, awaiting \<open>handlePing\<close>,
  until that returns.
\<close>

record closing =
  srv :: server
  dpc :: drain_pc
  tokens :: "nat list"
  waited :: "nat list"

abbreviation phase_of :: "nat \<Rightarrow> closing \<Rightarrow> phase" where
  "phase_of i c \<equiv> hd_phase (handlers (srv c) ! i)"

definition queued :: "server \<Rightarrow> nat list" where
  "queued s = filter (\<lambda>i. hd_phase (handlers s ! i) = Queued) [0..<length (handlers s)]"

definition closing_start :: "nat list \<Rightarrow> server \<Rightarrow> closing" where
  "closing_start w s =
     \<lparr>srv = s\<lparr>listener := Stopped\<rparr>, dpc = Looping (map snd (pendingResponses s)),
      tokens = queued s, waited = w\<rparr>"

subsection \<open>Resuming the coroutine of a handler\<close>

definition note_wait :: "nat \<Rightarrow> closing \<Rightarrow> closing" where
  "note_wait i c = (if phase_of i c = Waiting then c\<lparr>waited := i # waited c\<rparr> else c)"

text \<open>
  \<open>handle.resume()\<close> on the coroutine of \<open>handleRequest\<close>.  In the middle of its await of \<open>handlePing\<close> the
  promise of that has no result yet and an assertion fails; while it runs on a thread, or after it has
  ended, resuming it is undefined.
\<close>

definition resume_outer :: "nat \<Rightarrow> (closing, unit) act" where
  "resume_outer i c =
     (case phase_of i c of
        Queued \<Rightarrow> (case start_handler i (srv c) of (r, s) \<Rightarrow> (r, note_wait i (c\<lparr>srv := s\<rparr>)))
      | Finished \<Rightarrow> (Inr (), c\<lparr>srv := set_phase i Collected (srv c)\<rparr>)
      | Collected \<Rightarrow> (Inl (UB ResumeDone), c)
      | Waiting \<Rightarrow> (Inl (AssertFailed ''check coroutine only after it exits''), c)
      | Woken \<Rightarrow> (Inl (AssertFailed ''check coroutine only after it exits''), c)
      | Writing \<Rightarrow>
          (if i \<in> set (waited c) then (Inl (AssertFailed ''check coroutine only after it exits''), c)
           else (Inl (UB ResumeRunning), c))
      | Handled \<Rightarrow> (Inl (UB ResumeRunning), c)
      | Leaving \<Rightarrow> (Inl (UB ResumeRunning), c))"

text \<open>One round of the loop, up to where \<open>listen\<close> is suspended or runs the handler itself.\<close>

definition drain_next :: "nat \<Rightarrow> nat list \<Rightarrow> (closing, unit) act" where
  "drain_next r rs c =
     (case deref r (srv c) of
        (Inl x, _) \<Rightarrow> (Inl x, c)
      | (Inr e, _) \<Rightarrow>
          let c' = c\<lparr>srv := snd (set_node r (e\<lparr>handlerCoro := None\<rparr>) (srv c))\<rparr> in
          (case handlerCoro e of
             None \<Rightarrow> (Inl (UB NullCoroutine), c')
           | Some i \<Rightarrow>
               if phase_of i c' = Collected then (Inr (), c'\<lparr>dpc := Looping rs\<rparr>)
               else
                 (case resume_outer i c' of
                    (Inl x, d) \<Rightarrow> (Inl x, d)
                  | (Inr _, d) \<Rightarrow>
                      (Inr (), d\<lparr>dpc := (if phase_of i d = Collected then Looping rs else Inline i rs)\<rparr>))))"

text \<open>
  \<open>resume()\<close> returns when the handler is suspended, or when another thread has taken it over after it
  had waited; then comes \<open>await_ready\<close>, and \<open>setCallerCoroutine\<close> in a step of its own.
\<close>

definition listen_moves :: "closing \<Rightarrow> ((err + unit) \<times> closing) option" where
  "listen_moves c =
     (case dpc c of
        Looping [] \<Rightarrow> Some (Inr (), c\<lparr>dpc := Ended\<rparr>)
      | Looping (r # rs) \<Rightarrow> Some (drain_next r rs c)
      | Inline i rs \<Rightarrow>
          if phase_of i c = Collected then Some (Inr (), c\<lparr>dpc := Looping rs\<rparr>)
          else if phase_of i c = Waiting \<or> phase_of i c = Finished \<or> i \<in> set (waited c)
          then Some (Inr (), c\<lparr>dpc := Registering i rs\<rparr>)
          else None
      | Registering i rs \<Rightarrow> Some (Inr (), c\<lparr>dpc := Awaiting i rs\<rparr>)
      | Awaiting i rs \<Rightarrow> None
      | Ended \<Rightarrow> None)"

text \<open>A handler goes on by itself; one that is queued is taken from the queue by a thread of the pool.\<close>

definition handler_moves :: "(nat \<Rightarrow> u8) \<Rightarrow> nat \<Rightarrow> closing \<Rightarrow> ((err + unit) \<times> closing) option" where
  "handler_moves fresh i c =
     (if i < length (handlers (srv c)) \<and> (phase_of i c = Queued \<longrightarrow> i \<in> set (tokens c))
      then map_option (\<lambda>(r, s). (r, note_wait i
             (c\<lparr>srv := s, tokens := (if phase_of i c = Queued then remove1 i (tokens c) else tokens c)\<rparr>)))
           (handler_step fresh i (srv c))
      else None)"

text \<open>
  A thread of the pool takes the handle of a handler that \<open>listen\<close> has resumed already.  If that
  brings the handler to its end, the coroutine registered as its caller goes on.
\<close>

definition stale_moves :: "nat \<Rightarrow> closing \<Rightarrow> ((err + unit) \<times> closing) option" where
  "stale_moves i c =
     (if i \<in> set (tokens c) \<and> phase_of i c \<noteq> Queued
      then Some (case resume_outer i (c\<lparr>tokens := remove1 i (tokens c)\<rparr>) of
             (Inl x, d) \<Rightarrow> (Inl x, d)
           | (Inr _, d) \<Rightarrow>
               (Inr (), case dpc d of
                  Awaiting j rs \<Rightarrow> if j = i then d\<lparr>dpc := Looping rs\<rparr> else d
                | _ \<Rightarrow> d))
      else None)"

datatype close_move = Listen | Handler nat | Token nat

definition close_do ::
    "(nat \<Rightarrow> u8) \<Rightarrow> close_move \<Rightarrow> closing \<Rightarrow> ((err + unit) \<times> closing) option" where
  "close_do fresh e c =
     (case e of
        Listen \<Rightarrow> listen_moves c
      | Handler i \<Rightarrow> handler_moves fresh i c
      | Token i \<Rightarrow> stale_moves i c)"

fun close_run ::
    "(nat \<Rightarrow> u8) \<Rightarrow> close_move list \<Rightarrow> closing \<Rightarrow> ((err + unit) \<times> closing) option" where
  "close_run fresh [] c = Some (Inr (), c)"
| "close_run fresh (e # es) c =
     (case close_do fresh e c of
        None \<Rightarrow> None
      | Some (Inl x, d) \<Rightarrow> Some (Inl x, d)
      | Some (Inr _, d) \<Rightarrow> close_run fresh es d)"

text \<open>
  The server when the peer closes: it has not failed, is still listening, and \<open>w\<close> tells which of the
  handlers that are running now have waited for the write lock before.
\<close>

definition may_close :: "(nat \<Rightarrow> u8) \<Rightarrow> nat list \<Rightarrow> server \<Rightarrow> bool" where
  "may_close fresh w s \<longleftrightarrow>
     (\<exists>es. server_run fresh es server_new = Some (Inr (), s)) \<and> listener s \<noteq> Stopped \<and>
     in_phase Waiting (handlers s) \<union> in_phase Woken (handlers s) \<subseteq> set w \<and>
     (\<forall>i\<in>set w. i < length (handlers s) \<and> hd_phase (handlers s ! i) \<noteq> Queued)"

inductive close_reach :: "(nat \<Rightarrow> u8) \<Rightarrow> server \<Rightarrow> closing \<Rightarrow> bool" for fresh s where
  init: "may_close fresh w s \<Longrightarrow> close_reach fresh s (closing_start w s)"
| step: "close_reach fresh s c \<Longrightarrow> close_do fresh e c = Some (Inr (), d) \<Longrightarrow> close_reach fresh s d"

lemma close_run_reach:
  "close_run fresh es c = Some (Inr (), d) \<Longrightarrow> close_reach fresh s c \<Longrightarrow> close_reach fresh s d"
  by (induction es arbitrary: c)
    (auto split: option.splits prod.splits sum.splits intro: close_reach.step)

subsection \<open>The requests that are pending when the peer closes\<close>

text \<open>
  While \<open>listen\<close> reads, every node has a valid method, and only the one whose body is being read has
  no handler.
\<close>

definition pending_nodes :: "server \<Rightarrow> bool" where
  "pending_nodes s \<longleftrightarrow>
     (\<forall>t r. map_of (pendingResponses s) t = Some r \<longrightarrow>
        (\<exists>e. nodes s r = Some e \<and> tag (requestHeader e) = t))"

definition pending_inv :: "server \<Rightarrow> bool" where
  "pending_inv s \<longleftrightarrow> listener s = Stopped \<or>
     (\<forall>r e. nodes s r = Some e \<longrightarrow>
        methodId (requestHeader e) < CommandId_COMMAND_COUNT \<and>
        (handlerCoro e = None \<longrightarrow> listener s = AwaitBody r)) \<and>
     pending_nodes s"

lemma pending_nodes_collected:
  assumes "node_inv s" "pending_nodes s" "nodes s r = Some e"
  shows "pending_nodes (collected r e i s)"
proof -
  have om: "om_wf (pendingResponses s)" and m: "map_of (pendingResponses s) (tag (requestHeader e)) = Some r"
    using node_invD(1) node_invD(4) assms(1,3) by blast+
  show ?thesis
    using assms(2,3) om m
    by (force simp: pending_nodes_def collected_def erase_pending_def modify_run om.find_erase)
qed

lemma pending_nodes_accepted:
  assumes "node_inv s" "pending_nodes s"
  shows "pending_nodes (accepted fresh rh s)"
  using assms node_invD(1) [OF assms(1)] node_invD(3) [OF assms(1)]
  by (force simp: pending_nodes_def accepted_def)

lemma pending_inv_collected:
  assumes "node_inv s" "nodes s r = Some e" "handlerCoro e = Some i"
    and "\<forall>r e. nodes s r = Some e \<longrightarrow> Q r e"
  shows "nodes (collected r e i s) q = Some d \<Longrightarrow> Q q d"
proof -
  assume d: "nodes (collected r e i s) q = Some d"
  have "map_of (pendingResponses s) (tag (requestHeader e)) = Some r"
    by (rule node_invD(4) [OF assms(1,2)])
  with d have "q \<noteq> r" "nodes s q = Some d"
    by (auto simp: collected_def erase_pending_def modify_run split: if_splits)
  with assms(4) show "Q q d" by blast
qed

lemma pending_inv_header:
  assumes "server_inv s" "pending_inv s" "listener s = AwaitHeader"
    and "listen_header fresh rh s = Some (Inr (), t)"
  shows "pending_inv t"
proof -
  let ?Q = "\<lambda>r e. methodId (requestHeader e) < CommandId_COMMAND_COUNT \<and> handlerCoro e \<noteq> None"
  let ?P = "\<lambda>s. node_inv s \<and> listener s = AwaitHeader \<and> 
    (\<forall>r e. nodes s r = Some e \<longrightarrow> ?Q r e) \<and> pending_nodes s"
  from assms(4) obtain u where u:
    "collect_loop (finishedHandlers s) (s\<lparr>handlersKeepingLock := True\<rparr>) = Some (Inr (), u)"
    "\<not> invalid_request rh u" "t = accepted fresh rh u"
    by (rule listen_header_accepted)
  have "?P u"
  proof (rule collect_loop_invariant [where P = ?P, OF u(1)])
    show "?P (s\<lparr>handlersKeepingLock := True\<rparr>)"
      using assms(1,2,3) node_inv_cong [of s "s\<lparr>handlersKeepingLock := True\<rparr>"]
      by (auto simp: pending_inv_def server_inv_def pending_nodes_def)
    fix r e i v
    assume v: "?P v" "nodes v r = Some e" "handlerCoro e = Some i"
      "hd_phase (handlers v ! i) = Finished \<or> hd_phase (handlers v ! i) = Collected"
    have "\<forall>q d. nodes (collected r e i v) q = Some d \<longrightarrow> ?Q q d"
      using pending_inv_collected [of v r e i ?Q] v(1,2,3) by blast
    moreover have "node_inv (collected r e i v)" "pending_nodes (collected r e i v)"
      using node_inv_collected [of v r e i] pending_nodes_collected [of v r e i] v by simp_all
    ultimately show "?P (collected r e i v)" using v(1) by (simp add: collected_frame)
  qed
  moreover from this have "pending_nodes (accepted fresh rh u)" by (simp add: pending_nodes_accepted)
  ultimately show ?thesis
    using u(2,3) by (auto simp: pending_inv_def accepted_def invalid_request_def not_le)
qed

lemma pending_inv_body:
  assumes "pending_inv s" "listener s = AwaitBody r" "listen_body body r s = (Inr (), t)"
  shows "pending_inv t"
  using listen_body_run [OF assms(3)] assms(1,2)
  by (fastforce simp: pending_inv_def pending_nodes_def split: if_splits)

lemma handler_pending:
  assumes "handler_step fresh i s = Some (Inr (), t)"
  shows "pendingResponses t = pendingResponses s"
proof (cases "hd_phase (handlers s ! i)")
  case Queued
  with assms start_handler_run [of i s t] show ?thesis
    by (auto simp: handler_step_def acquire_write_lock_def split: if_splits)
next
  case Writing
  with assms write_response_run [of fresh i s t] show ?thesis by (auto simp: handler_step_def)
next
  case Leaving
  with assms finish_handler_run [of i s t] show ?thesis by (auto simp: handler_step_def)
qed (use assms in \<open>auto simp: handler_step_def release_write_lock_def\<close>)

lemma pending_inv_do:
  assumes "server_inv s" "pending_inv s" "server_do fresh e s = Some (Inr (), t)"
  shows "pending_inv t"
proof (cases e)
  case (Header rh)
  with assms show ?thesis
    by (auto simp: server_do_def split: if_splits intro: pending_inv_header)
next
  case (Body b)
  with assms show ?thesis
    by (auto simp: server_do_def split: listener.splits intro: pending_inv_body)
next
  case (Step i)
  with assms(3) have "handler_step fresh i s = Some (Inr (), t)"
    by (simp add: server_do_def split: if_splits)
  from handler_frame [OF this] handler_pending [OF this] assms(2) show ?thesis
    by (simp add: pending_inv_def pending_nodes_def)
next
  case Closed
  with assms(3) have "drain_loop (map snd (pendingResponses s)) (s\<lparr>listener := Stopped\<rparr>) = Some (Inr (), t)"
    by (simp add: server_do_def listen_closed_def split: if_splits)
  then have "listener t = Stopped"
    by (rule drain_loop_invariant [where P = "\<lambda>s. listener s = Stopped"]) simp_all
  then show ?thesis by (simp add: pending_inv_def)
qed

lemma pending_inv_run:
  assumes "server_run fresh es server_new = Some (Inr (), s)"
  shows "server_inv s \<and> pending_inv s"
proof (rule server_run_invariant [where P = "\<lambda>s. server_inv s \<and> pending_inv s", OF assms])
  show "server_inv server_new \<and> pending_inv server_new"
    by (simp add: server_inv_new) (simp add: pending_inv_def pending_nodes_def server_new_def)
qed (use server_inv_do pending_inv_do in blast)

text \<open>The map and the nodes: every node is pending under its tag, and no two tags share one.\<close>

lemma pending_distinct:
  assumes "node_inv s" "pending_nodes s"
  shows "distinct (map snd (pendingResponses s)) \<and>
    (\<forall>r\<in>set (map snd (pendingResponses s)). nodes s r \<noteq> None)"
proof -
  have om: "distinct (map fst (pendingResponses s))"
    by (rule om_wf_distinct [OF node_invD(1) [OF assms(1)]])
  have p: "\<exists>e. nodes s r = Some e \<and> tag (requestHeader e) = t" if "(t, r) \<in> set (pendingResponses s)" for t r
    using assms(2) map_of_is_SomeI [OF om that] by (auto simp: pending_nodes_def)
  have "inj_on snd (set (pendingResponses s))"
  proof (rule inj_onI)
    fix x y assume "x \<in> set (pendingResponses s)" "y \<in> set (pendingResponses s)" "snd x = snd y"
    then obtain t u r where "x = (t, r)" "y = (u, r)" "(t, r) \<in> set (pendingResponses s)"
      "(u, r) \<in> set (pendingResponses s)" by (metis prod.collapse)
    with p [of t r] p [of u r] show "x = y" by auto
  qed
  moreover have "nodes s r \<noteq> None" if "(t, r) \<in> set (pendingResponses s)" for t r
    using p [OF that] by auto
  ultimately show ?thesis using om by (auto simp: distinct_map)
qed

lemma nodes_pending:
  assumes "node_inv s" "nodes s r = Some e"
  shows "r \<in> set (map snd (pendingResponses s))"
  using node_invD(4) [OF assms] by (force dest: map_of_SomeD)

subsection \<open>What holds while the loop runs\<close>

text \<open>
  The steps of the handlers do not depend on the coroutines kept in the nodes, which \<open>listen\<close> moves
  out one by one.
\<close>

definition with_nodes :: "(nat \<Rightarrow> response_state option) \<Rightarrow> server \<Rightarrow> server" where
  "with_nodes n s = s\<lparr>nodes := n\<rparr>"

definition same_requests ::
    "(nat \<Rightarrow> response_state option) \<Rightarrow> (nat \<Rightarrow> response_state option) \<Rightarrow> bool" where
  "same_requests n m \<longleftrightarrow> (\<forall>r. map_option requestHeader (n r) = map_option requestHeader (m r))"

lemma with_nodes_simps [simp]:
  "nodes (with_nodes n s) = n" "handlers (with_nodes n s) = handlers s"
  "writeLock (with_nodes n s) = writeLock s" "writeLockWaiters (with_nodes n s) = writeLockWaiters s"
  "handlersKeepingLock (with_nodes n s) = handlersKeepingLock s"
  "finishedHandlers (with_nodes n s) = finishedHandlers s" "listener (with_nodes n s) = listener s"
  "pendingResponses (with_nodes n s) = pendingResponses s" "next_node (with_nodes n s) = next_node s"
  "requests (with_nodes n s) = requests s" "answered (with_nodes n s) = answered s"
  "wire (with_nodes n s) = wire s" "with_nodes (nodes s) s = s"
  "with_nodes n (with_nodes m s) = with_nodes n s"
  "set_phase i ph (with_nodes n s) = with_nodes n (set_phase i ph s)"
  "acquire_write_lock i (with_nodes n s) = with_nodes n (acquire_write_lock i s)"
  "release_write_lock (with_nodes n s) = with_nodes n (release_write_lock s)"
  by (simp_all add: with_nodes_def set_phase_def acquire_write_lock_def release_write_lock_def)

lemma same_requestsD:
  assumes "same_requests n (nodes s)"
  shows "nodes s r = None \<Longrightarrow> n r = None"
    and "nodes s r = Some e \<Longrightarrow> \<exists>d. n r = Some d \<and> requestHeader d = requestHeader e"
  using assms unfolding same_requests_def by (metis map_option_is_None, metis map_option_eq_Some)

lemma start_handler_nodes:
  assumes "same_requests n (nodes s)"
  shows "start_handler i (with_nodes n s) = map_prod id (with_nodes n) (start_handler i s)"
proof (cases "nodes s (hd_ref (handlers s ! i))")
  case None
  with same_requestsD(1) [OF assms None] show ?thesis
    by (simp add: start_handler_def deref_def andthen_def)
next
  case (Some e)
  with same_requestsD(2) [OF assms Some] show ?thesis
    by (auto simp: start_handler_def deref_def andthen_def modify_run fail_run Let_def)
qed

lemma write_response_nodes:
  assumes "same_requests n (nodes s)"
  shows "write_response fresh i (with_nodes n s) = map_prod id (with_nodes n) (write_response fresh i s)"
proof (cases "nodes s (hd_ref (handlers s ! i))")
  case None
  with same_requestsD(1) [OF assms None] show ?thesis
    by (simp add: write_response_def deref_def andthen_def)
next
  case (Some e)
  with same_requestsD(2) [OF assms Some] show ?thesis
    by (auto simp: write_response_def deref_def andthen_def modify_run ping_response_bytes with_nodes_def
        set_phase_def)
qed

lemma finish_handler_nodes:
  "finish_handler i (with_nodes n s) = map_prod id (with_nodes n) (finish_handler i s)"
  by (simp add: finish_handler_def lock_keeping_def unlock_keeping_def andthen_def modify_run with_nodes_def
      set_phase_def)

lemma handler_step_nodes:
  assumes "same_requests n (nodes s)"
  shows "handler_step fresh i (with_nodes n s) =
    map_option (map_prod id (with_nodes n)) (handler_step fresh i s)"
  by (cases "hd_phase (handlers s ! i)")
    (simp_all add: handler_step_def start_handler_nodes [OF assms] write_response_nodes [OF assms]
      finish_handler_nodes)

text \<open>The nodes with the coroutines of those moved out that are not to be visited any more.\<close>

definition moved :: "nat list \<Rightarrow> (nat \<Rightarrow> response_state option) \<Rightarrow> nat \<Rightarrow> response_state option" where
  "moved rs n = (\<lambda>r. if r \<in> set rs then n r else map_option (handlerCoro_update (\<lambda>_. None)) (n r))"

lemma same_requests_moved: "same_requests n (moved rs n)"
  by (simp add: same_requests_def moved_def option.map_comp comp_def)

primrec rest :: "drain_pc \<Rightarrow> nat list" where
  "rest (Looping rs) = rs"
| "rest (Inline i rs) = rs"
| "rest (Registering i rs) = rs"
| "rest (Awaiting i rs) = rs"
| "rest Ended = []"

primrec current :: "drain_pc \<Rightarrow> nat option" where
  "current (Looping rs) = None"
| "current (Inline i rs) = Some i"
| "current (Registering i rs) = Some i"
| "current (Awaiting i rs) = Some i"
| "current Ended = None"

text \<open>The state without \<open>listen\<close>: \<open>n\<close> are the nodes when the peer closed.\<close>

definition handlers_inv :: "(nat \<Rightarrow> response_state option) \<Rightarrow> server \<Rightarrow> bool" where
  "handlers_inv n s \<longleftrightarrow>
     server_inv (with_nodes n s) \<and> listener s = Stopped \<and> \<not> handlersKeepingLock s \<and>
     (\<forall>r e. n r = Some e \<longrightarrow> methodId (requestHeader e) < CommandId_COMMAND_COUNT)"

definition tokens_inv :: "closing \<Rightarrow> bool" where
  "tokens_inv c \<longleftrightarrow>
     distinct (tokens c) \<and>
     (\<forall>i\<in>set (tokens c). i < length (handlers (srv c)) \<and>
        (phase_of i c = Queued \<or> current (dpc c) = Some i \<and> phase_of i c \<noteq> Collected)) \<and>
     (\<forall>i<length (handlers (srv c)). phase_of i c = Queued \<longrightarrow> i \<in> set (tokens c)) \<and>
     (\<forall>i<length (handlers (srv c)). phase_of i c = Waiting \<or> phase_of i c = Woken \<longrightarrow>
        i \<in> set (waited c)) \<and>
     (\<forall>i. current (dpc c) = Some i \<longrightarrow> i < length (handlers (srv c)) \<and> phase_of i c \<noteq> Queued \<and>
        (phase_of i c \<noteq> Collected \<longrightarrow> i \<in> set (tokens c)))"

definition visited_inv :: "(nat \<Rightarrow> response_state option) \<Rightarrow> closing \<Rightarrow> bool" where
  "visited_inv n c \<longleftrightarrow>
     nodes (srv c) = moved (rest (dpc c)) n \<and> distinct (rest (dpc c)) \<and>
     (\<forall>r\<in>set (rest (dpc c)). n r \<noteq> None) \<and>
     (\<forall>r e. n r = Some e \<longrightarrow> r \<notin> set (rest (dpc c)) \<longrightarrow>
        (\<exists>j. handlerCoro e = Some j \<and> (phase_of j c = Collected \<or> current (dpc c) = Some j)))"

definition drain_inv :: "(nat \<Rightarrow> response_state option) \<Rightarrow> closing \<Rightarrow> bool" where
  "drain_inv n c \<longleftrightarrow> handlers_inv n (srv c) \<and> tokens_inv c \<and> visited_inv n c"

subsection \<open>A handler takes a step\<close>

text \<open>What a step of the handler \<open>i\<close> does to the phases: it moves on, and may wake one that waits.\<close>

definition phases_move :: "nat \<Rightarrow> server \<Rightarrow> server \<Rightarrow> bool" where
  "phases_move i s t \<longleftrightarrow>
     length (handlers t) = length (handlers s) \<and>
     hd_phase (handlers t ! i) \<in> {Waiting, Writing, Handled, Leaving, Finished} \<and>
     (hd_phase (handlers t ! i) = Waiting \<longrightarrow> hd_phase (handlers s ! i) = Queued) \<and>
     (\<forall>j<length (handlers s). j \<noteq> i \<longrightarrow> hd_phase (handlers t ! j) = hd_phase (handlers s ! j) \<or>
        hd_phase (handlers s ! j) = Waiting \<and> hd_phase (handlers t ! j) = Woken)"

lemma phases_move_set:
  assumes "i < length (handlers s)" "handlers t = (handlers s)[i := (handlers s ! i)\<lparr>hd_phase := ph\<rparr>]"
    and "ph \<in> {Writing, Handled, Leaving, Finished} \<or> ph = Waiting \<and> hd_phase (handlers s ! i) = Queued"
  shows "phases_move i s t"
  using assms by (auto simp: phases_move_def)

lemma phases_move_start:
  assumes "i < length (handlers s)" "hd_phase (handlers s ! i) = Queued" "start_handler i s = (Inr (), t)"
  shows "phases_move i s t"
proof -
  from start_handler_run [OF assms(3)]
  have "t = set_phase i Handled s \<or> t = acquire_write_lock i s" by (auto split: if_splits)
  then obtain ph where "handlers t = (handlers s)[i := (handlers s ! i)\<lparr>hd_phase := ph\<rparr>]"
    "ph = Handled \<or> ph = Writing \<or> ph = Waiting"
    by (auto simp: acquire_write_lock_def split: if_splits)
  with assms(2) show ?thesis by (intro phases_move_set [OF assms(1)]) auto
qed

lemma release_phases:
  assumes "wait_inv s" "j < length (handlers s)"
  shows "hd_phase (handlers (release_write_lock s) ! j) = hd_phase (handlers s ! j) \<or>
    hd_phase (handlers s ! j) = Waiting \<and> hd_phase (handlers (release_write_lock s) ! j) = Woken"
proof (cases "writeLockWaiters s = []")
  case False
  with waiter_phase [OF assms(1) last_in_set [OF False]] assms(2) show ?thesis
    by (auto simp: release_write_lock_def nth_list_update)
qed (simp add: release_write_lock_def)

lemma phases_move_handler:
  assumes "wait_inv s" "i < length (handlers s)" "handler_step fresh i s = Some (Inr (), t)"
  shows "phases_move i s t"
proof (cases "hd_phase (handlers s ! i)")
  case Queued
  with assms(2,3) show ?thesis by (intro phases_move_start) (simp_all add: handler_step_def)
next
  case Woken
  with assms show ?thesis by (auto simp: handler_step_def intro: phases_move_set [of i s _ Writing])
next
  case Writing
  with assms(3) have "write_response fresh i s = (Inr (), t)" by (simp add: handler_step_def)
  from write_response_run [OF this] show ?thesis
    by (auto intro: phases_move_set [OF assms(2), of _ Handled])
next
  case Handled
  with assms(3) have t: "t = set_phase i Leaving (release_write_lock s)" by (simp add: handler_step_def)
  have "length (handlers (release_write_lock s)) = length (handlers s)"
    by (simp add: release_write_lock_def)
  with release_phases [OF assms(1)] assms(2) show ?thesis
    by (auto simp: t phases_move_def nth_list_update)
next
  case Leaving
  with assms(3) have "finish_handler i s = (Inr (), t)" by (simp add: handler_step_def)
  from finish_handler_run [OF this] show ?thesis
    by (auto intro: phases_move_set [OF assms(2), of _ Finished])
qed (use assms(3) in \<open>simp_all add: handler_step_def\<close>)

text \<open>A handler does not fail: its node is there, with a method that exists.\<close>

lemma handler_node:
  assumes "handlers_inv n s" "same_requests (nodes s) n"
    and "i < length (handlers s)" "hd_phase (handlers s ! i) \<noteq> Collected"
  shows "\<exists>e. nodes s (hd_ref (handlers s ! i)) = Some e \<and>
    methodId (requestHeader e) < CommandId_COMMAND_COUNT"
proof -
  have "node_inv (with_nodes n s)" using assms(1) by (simp add: handlers_inv_def server_inv_def)
  from node_invD(5) [OF this, of i] assms(3,4) obtain e where e: "n (hd_ref (handlers s ! i)) = Some e"
    by auto
  have "same_requests (nodes s) (nodes (with_nodes n s))" using assms(2) by simp
  from same_requestsD(2) [OF this, of "hd_ref (handlers s ! i)" e] e assms(1) show ?thesis
    by (auto simp: handlers_inv_def)
qed

lemma method_cases: "(m :: u8) < CommandId_COMMAND_COUNT \<Longrightarrow>
    m = CommandId_End \<or> m = CommandId_Ping \<or> m = CommandId_GetNode"
proof -
  assume "m < CommandId_COMMAND_COUNT"
  then have "unat m < 3" by (simp add: command_ids word_less_nat_alt)
  then have "unat m = unat (0 :: u8) \<or> unat m = unat (1 :: u8) \<or> unat m = unat (2 :: u8)" by auto
  then show ?thesis unfolding word_unat_eq_iff [symmetric] by (simp add: command_ids)
qed

lemma handler_succeeds:
  assumes "handlers_inv n s" "same_requests (nodes s) n" "i < length (handlers s)"
    and "handler_step fresh i s = Some (r, t)"
  shows "r = Inr ()"
proof (cases "hd_phase (handlers s ! i)")
  case Queued
  with handler_node [OF assms(1-3)] obtain e where e: "nodes s (hd_ref (handlers s ! i)) = Some e"
    "methodId (requestHeader e) < CommandId_COMMAND_COUNT" by auto
  with assms(4) Queued method_cases [OF e(2)] show ?thesis
    by (auto simp: handler_step_def start_handler_def deref_def andthen_def Let_def modify_run
        split: if_splits)
next
  case Writing
  with handler_node [OF assms(1-3)] assms(4) show ?thesis
    by (auto simp: handler_step_def write_response_def deref_def andthen_def ping_response_bytes
        modify_run)
next
  case Leaving
  with assms(1,4) show ?thesis
    by (auto simp: handler_step_def finish_handler_def andthen_def lock_keeping_def unlock_keeping_def
        modify_run handlers_inv_def)
qed (use assms(4) in \<open>auto simp: handler_step_def\<close>)

lemma handlers_inv_step:
  assumes "handlers_inv n s" "same_requests n (nodes s)" "i < length (handlers s)"
    and "handler_step fresh i s = Some (Inr (), t)"
  shows "handlers_inv n t" "phases_move i s t" "nodes t = nodes s"
proof -
  have h: "handler_step fresh i (with_nodes n s) = Some (Inr (), with_nodes n t)"
    using assms(4) by (simp add: handler_step_nodes [OF assms(2)])
  have v: "server_inv (with_nodes n s)" using assms(1) by (simp add: handlers_inv_def)
  then have "wait_inv s" by (simp add: server_inv_def wait_inv_def)
  from phases_move_handler [OF this assms(3,4)] show "phases_move i s t" .
  from handler_frame [OF assms(4)] show "nodes t = nodes s" by blast
  have "server_inv (with_nodes n t)"
    using v h node_inv_handler wait_inv_handler answer_inv_handler assms(3)
    unfolding server_inv_def by fastforce
  moreover have "\<not> handlersKeepingLock t"
  proof (rule unlocked_event)
    show "server_do fresh (Step i) s = Some (Inr (), t)"
      using assms(3,4) by (simp add: server_do_def)
    show "\<not> handlersKeepingLock s" using assms(1) by (simp add: handlers_inv_def)
  qed
  ultimately show "handlers_inv n t"
    using assms(1) handler_frame(2) [OF assms(4)] by (simp add: handlers_inv_def)
qed

subsection \<open>Every step keeps the invariant\<close>

lemma tokens_invD:
  assumes "tokens_inv c"
  shows "distinct (tokens c)"
    and "i \<in> set (tokens c) \<Longrightarrow> i < length (handlers (srv c))"
    and "i \<in> set (tokens c) \<Longrightarrow>
      phase_of i c = Queued \<or> current (dpc c) = Some i \<and> phase_of i c \<noteq> Collected"
    and "i < length (handlers (srv c)) \<Longrightarrow> phase_of i c = Queued \<Longrightarrow> i \<in> set (tokens c)"
    and "i < length (handlers (srv c)) \<Longrightarrow> phase_of i c = Waiting \<or> phase_of i c = Woken \<Longrightarrow>
      i \<in> set (waited c)"
    and "current (dpc c) = Some i \<Longrightarrow> i < length (handlers (srv c))"
    and "current (dpc c) = Some i \<Longrightarrow> phase_of i c \<noteq> Queued"
    and "current (dpc c) = Some i \<Longrightarrow> phase_of i c \<noteq> Collected \<Longrightarrow> i \<in> set (tokens c)"
  using assms unfolding tokens_inv_def by blast+

lemma tokens_invI:
  assumes "distinct (tokens c)"
    and "\<And>i. i \<in> set (tokens c) \<Longrightarrow> i < length (handlers (srv c)) \<and>
      (phase_of i c = Queued \<or> current (dpc c) = Some i \<and> phase_of i c \<noteq> Collected)"
    and "\<And>i. i < length (handlers (srv c)) \<Longrightarrow> phase_of i c = Queued \<Longrightarrow> i \<in> set (tokens c)"
    and "\<And>i. i < length (handlers (srv c)) \<Longrightarrow> phase_of i c = Waiting \<or> phase_of i c = Woken \<Longrightarrow>
      i \<in> set (waited c)"
    and "\<And>i. current (dpc c) = Some i \<Longrightarrow> i < length (handlers (srv c)) \<and> phase_of i c \<noteq> Queued \<and>
      (phase_of i c \<noteq> Collected \<longrightarrow> i \<in> set (tokens c))"
  shows "tokens_inv c"
  using assms unfolding tokens_inv_def by blast

lemma note_wait_simps [simp]:
  "srv (note_wait i c) = srv c" "dpc (note_wait i c) = dpc c" "tokens (note_wait i c) = tokens c"
  "set (waited (note_wait i c)) =
     (if phase_of i c = Waiting then insert i (set (waited c)) else set (waited c))"
  by (simp_all add: note_wait_def)

text \<open>
  A handler moves, on a thread of the pool (then its handle has left the queue) or on that of
  \<open>listen\<close> (then it is the current one).
\<close>

lemma tokens_inv_moves:
  assumes "tokens_inv c" "phases_move i (srv c) t" "i < length (handlers (srv c))"
    and "tokens d = (if phase_of i c = Queued \<and> current (dpc d) \<noteq> Some i
      then remove1 i (tokens c) else tokens c)"
    and "srv d = t" "dpc d = dpc c \<or> current (dpc c) = None \<and> current (dpc d) = Some i \<and> phase_of i c = Queued"
    and "waited d = waited c" "phase_of i c \<noteq> Collected"
  shows "tokens_inv (note_wait i d)"
proof -
  note inv = tokens_invD [OF assms(1)]
  have len: "length (handlers t) = length (handlers (srv c))"
    and mine: "hd_phase (handlers t ! i) \<notin> {Queued, Collected, Woken}"
    and other: "\<And>j. j < length (handlers (srv c)) \<Longrightarrow> j \<noteq> i \<Longrightarrow>
      hd_phase (handlers t ! j) = phase_of j c \<or>
      phase_of j c = Waiting \<and> hd_phase (handlers t ! j) = Woken"
    using assms(2) by (auto simp: phases_move_def)
  have cur: "current (dpc d) = Some j \<Longrightarrow> j \<noteq> i \<Longrightarrow> current (dpc c) = Some j" for j
    using assms(6) by auto
  show ?thesis
  proof (rule tokens_invI)
    show "distinct (tokens (note_wait i d))" using inv(1) assms(4) by simp
    fix j
    show "j < length (handlers (srv (note_wait i d))) \<and> (phase_of j (note_wait i d) = Queued \<or>
        current (dpc (note_wait i d)) = Some j \<and> phase_of j (note_wait i d) \<noteq> Collected)"
      if "j \<in> set (tokens (note_wait i d))"
    proof (cases "j = i")
      case True
      with that inv(1) inv(3) [of i] assms(4,6) have "current (dpc d) = Some i"
        by (auto split: if_splits)
      with True mine assms(3,5) len show ?thesis by simp
    next
      case False
      with that assms(4) have "j \<in> set (tokens c)" by (auto split: if_splits dest: notin_set_remove1)
      with inv(2,3) [of j] other [OF _ False] assms(5,6) len show ?thesis by fastforce
    qed
    show "j \<in> set (tokens (note_wait i d))"
      if "j < length (handlers (srv (note_wait i d)))" "phase_of j (note_wait i d) = Queued"
    proof -
      from that mine assms(5) have "j \<noteq> i" by auto
      with that other [of j] assms(5) len inv(4) [of j] assms(4) show ?thesis by auto
    qed
    show "j \<in> set (waited (note_wait i d))"
      if "j < length (handlers (srv (note_wait i d)))"
        "phase_of j (note_wait i d) = Waiting \<or> phase_of j (note_wait i d) = Woken"
    proof (cases "j = i")
      case True
      with that mine assms(5) show ?thesis by auto
    next
      case False
      with that other [OF _ False] assms(5,7) len inv(5) [of j] show ?thesis by auto
    qed
    show "j < length (handlers (srv (note_wait i d))) \<and> phase_of j (note_wait i d) \<noteq> Queued \<and>
        (phase_of j (note_wait i d) \<noteq> Collected \<longrightarrow> j \<in> set (tokens (note_wait i d)))"
      if "current (dpc (note_wait i d)) = Some j"
    proof (cases "j = i")
      case True
      have "i \<in> set (tokens d)"
      proof (cases "phase_of i c = Queued")
        case True
        with inv(4) [OF assms(3)] that \<open>j = i\<close> assms(4) show ?thesis by simp
      next
        case False
        with that \<open>j = i\<close> assms(6) have "current (dpc c) = Some i" by auto
        from inv(8) [OF this assms(8)] False assms(4) show ?thesis by simp
      qed
      with True mine assms(3,5) len show ?thesis by simp
    next
      case False
      with that cur have c: "current (dpc c) = Some j" by simp
      from inv(6-8) [OF c] other [OF _ False] assms(4,5) len False show ?thesis by auto
    qed
  qed
qed

text \<open>The handler \<open>i\<close> is brought to its end.\<close>

lemma handlers_inv_collect:
  assumes "handlers_inv n s" "hd_phase (handlers s ! i) = Finished"
  shows "handlers_inv n (set_phase i Collected s)"
proof -
  have v: "node_inv (with_nodes n s)" "wait_inv (with_nodes n s)" "answer_inv (with_nodes n s)"
    using assms(1) by (simp_all add: handlers_inv_def server_inv_def)
  have "server_inv (set_phase i Collected (with_nodes n s))"
    unfolding server_inv_def using assms(2)
    by (intro conjI node_inv_set_phase [OF v(1)] wait_inv_set_phase [OF v(2)]
        answer_inv_set_phase [OF v(3)]) (simp_all add: past_def)
  with assms(1) show ?thesis by (simp add: handlers_inv_def)
qed

lemma tokens_inv_collect:
  assumes "tokens_inv c" "phase_of i c = Finished"
    and "srv d = set_phase i Collected s" "handlers s = handlers (srv c)" "waited d = waited c"
    and "current (dpc c) = Some i \<and> tokens d = remove1 i (tokens c) \<or> current (dpc c) = None \<and> tokens d = tokens c"
    and "dpc d = dpc c \<or> current (dpc d) = None"
  shows "tokens_inv d"
proof -
  note inv = tokens_invD [OF assms(1)]
  have len: "length (handlers (srv d)) = length (handlers (srv c))"
    and ph: "\<And>j. j < length (handlers (srv c)) \<Longrightarrow>
      phase_of j d = (if j = i then Collected else phase_of j c)"
    using assms(3,4) by (simp_all add: nth_list_update)
  have i: "i \<notin> set (tokens d)"
    using assms(2,6) inv(1) inv(3) [of i] by auto
  have sub: "j \<in> set (tokens d) \<longleftrightarrow> j \<in> set (tokens c) \<and> j \<noteq> i" for j
    using assms(6) i inv(1) by auto
  show ?thesis
  proof (rule tokens_invI)
    show "distinct (tokens d)" using inv(1) assms(6) by auto
    fix j
    show "j < length (handlers (srv d)) \<and>
        (phase_of j d = Queued \<or> current (dpc d) = Some j \<and> phase_of j d \<noteq> Collected)"
      if "j \<in> set (tokens d)"
      using that inv(2,3) [of j] sub [of j] ph [of j] assms(6) len by auto
    show "j \<in> set (tokens d)" if "j < length (handlers (srv d))" "phase_of j d = Queued"
      using that ph [of j] inv(4) [of j] sub [of j] len by (auto split: if_splits)
    show "j \<in> set (waited d)"
      if "j < length (handlers (srv d))" "phase_of j d = Waiting \<or> phase_of j d = Woken"
      using that ph [of j] inv(5) [of j] len assms(5) by (auto split: if_splits)
    show "j < length (handlers (srv d)) \<and> phase_of j d \<noteq> Queued \<and>
        (phase_of j d \<noteq> Collected \<longrightarrow> j \<in> set (tokens d))"
      if "current (dpc d) = Some j"
    proof -
      from that assms(7) have c: "current (dpc c) = Some j" by auto
      from inv(6-8) [OF c] ph [of j] sub [of j] len show ?thesis by (auto split: if_splits)
    qed
  qed
qed

lemma visited_invD:
  assumes "visited_inv n c"
  shows "nodes (srv c) = moved (rest (dpc c)) n" "distinct (rest (dpc c))"
    and "r \<in> set (rest (dpc c)) \<Longrightarrow> n r \<noteq> None"
    and "n r = Some e \<Longrightarrow> r \<notin> set (rest (dpc c)) \<Longrightarrow>
      \<exists>j. handlerCoro e = Some j \<and> (phase_of j c = Collected \<or> current (dpc c) = Some j)"
  using assms unfolding visited_inv_def by blast+

text \<open>Nothing is undone: handlers that have ended stay so, and \<open>listen\<close> leaves one only when it ended.\<close>

lemma visited_inv_later:
  assumes "visited_inv n c" "nodes (srv d) = nodes (srv c)" "rest (dpc d) = rest (dpc c)"
    and "\<And>j. phase_of j c = Collected \<or> current (dpc c) = Some j \<Longrightarrow>
      j < length (handlers (srv c)) \<Longrightarrow> phase_of j d = Collected \<or> current (dpc d) = Some j"
    and "\<And>j r e. n r = Some e \<Longrightarrow> handlerCoro e = Some j \<Longrightarrow> j < length (handlers (srv c))"
  shows "visited_inv n d"
  unfolding visited_inv_def assms(2,3)
proof (intro conjI allI impI ballI)
  fix r e assume r: "n r = Some e" "r \<notin> set (rest (dpc c))"
  from visited_invD(4) [OF assms(1) r] assms(4,5) r(1)
  show "\<exists>j. handlerCoro e = Some j \<and> (phase_of j d = Collected \<or> current (dpc d) = Some j)" by blast
qed (use visited_invD [OF assms(1)] in \<open>blast+\<close>)

lemma drain_invD:
  assumes "drain_inv n c"
  shows "handlers_inv n (srv c)" "tokens_inv c" "visited_inv n c"
    and "same_requests n (nodes (srv c))" "same_requests (nodes (srv c)) n"
    and "n r = Some e \<Longrightarrow> handlerCoro e = Some j \<Longrightarrow> j < length (handlers (srv c))"
proof -
  show i: "handlers_inv n (srv c)" "tokens_inv c" "visited_inv n c" using assms by (simp_all add: drain_inv_def)
  show "same_requests n (nodes (srv c))"
    unfolding visited_invD(1) [OF i(3)] by (rule same_requests_moved)
  then show "same_requests (nodes (srv c)) n" by (simp add: same_requests_def)
  have "node_inv (with_nodes n (srv c))" using i(1) by (simp add: handlers_inv_def server_inv_def)
  from node_invD(6) [OF this] show "n r = Some e \<Longrightarrow> handlerCoro e = Some j \<Longrightarrow> j < length (handlers (srv c))"
    by simp
qed

lemma phases_collected:
  "phases_move i s t \<Longrightarrow> j < length (handlers s) \<Longrightarrow> hd_phase (handlers s ! i) \<noteq> Collected \<Longrightarrow>
     hd_phase (handlers s ! j) = Collected \<Longrightarrow> hd_phase (handlers t ! j) = Collected"
  unfolding phases_move_def by (cases "j = i") force+

lemma drain_inv_handler:
  assumes "drain_inv n c" "handler_moves fresh i c = Some (Inr (), d)"
  shows "drain_inv n d"
proof -
  note inv = drain_invD [OF assms(1)]
  from assms(2) obtain t where i: "i < length (handlers (srv c))" "phase_of i c = Queued \<longrightarrow> i \<in> set (tokens c)"
    and t: "handler_step fresh i (srv c) = Some (Inr (), t)"
    and d: "d = note_wait i (c\<lparr>srv := t,
        tokens := (if phase_of i c = Queued then remove1 i (tokens c) else tokens c)\<rparr>)"
    by (auto simp: handler_moves_def split: if_splits)
  note h = handlers_inv_step [OF inv(1,4) i(1) t]
  from t have nc: "phase_of i c \<noteq> Collected" by (auto simp: handler_step_def)
  have "tokens_inv d"
    unfolding d
  proof (rule tokens_inv_moves [OF inv(2) h(2) i(1)])
    show "tokens (c\<lparr>srv := t, tokens := (if phase_of i c = Queued then remove1 i (tokens c) else tokens c)\<rparr>)
      = (if phase_of i c = Queued \<and> current (dpc (c\<lparr>srv := t,
          tokens := (if phase_of i c = Queued then remove1 i (tokens c) else tokens c)\<rparr>)) \<noteq> Some i
        then remove1 i (tokens c) else tokens c)"
      using tokens_invD(7) [OF inv(2), of i] by auto
  qed (use nc in simp_all)
  moreover have "visited_inv n d"
    by (rule visited_inv_later [OF inv(3) _ _ _ inv(6)])
      (use phases_collected [OF h(2) _ nc] h(3) in \<open>auto simp: d\<close>)
  ultimately show ?thesis using h(1) by (simp add: drain_inv_def d)
qed

lemma drain_inv_stale:
  assumes "drain_inv n c" "stale_moves i c = Some (Inr (), d)"
  shows "drain_inv n d"
proof -
  note inv = drain_invD [OF assms(1)]
  from assms(2) have i: "i \<in> set (tokens c)" "phase_of i c \<noteq> Queued"
    by (auto simp: stale_moves_def split: if_splits)
  let ?c = "c\<lparr>tokens := remove1 i (tokens c)\<rparr>"
  from assms(2) i have f: "phase_of i c = Finished"
    by (auto simp: stale_moves_def resume_outer_def split: phase.splits if_splits)
  from tokens_invD(3) [OF inv(2) i(1)] i(2) have cur: "current (dpc c) = Some i" by simp
  from tokens_invD(2) [OF inv(2) i(1)] have li: "i < length (handlers (srv c))" .
  have d: "d = (case dpc c of Awaiting j rs \<Rightarrow>
        (?c\<lparr>srv := set_phase i Collected (srv c), dpc := Looping rs\<rparr>)
      | _ \<Rightarrow> ?c\<lparr>srv := set_phase i Collected (srv c)\<rparr>)"
    using assms(2) i f cur by (auto simp: stale_moves_def resume_outer_def split: drain_pc.splits)
  have s: "srv d = set_phase i Collected (srv c)" "tokens d = remove1 i (tokens c)" "waited d = waited c"
    "rest (dpc d) = rest (dpc c)" "dpc d = dpc c \<or> current (dpc d) = None"
    by (auto simp: d split: drain_pc.splits)
  have "handlers_inv n (srv d)" unfolding s by (rule handlers_inv_collect [OF inv(1) f])
  moreover have "tokens_inv d"
    using cur s by (intro tokens_inv_collect [OF inv(2) f s(1)]) simp_all
  moreover have "visited_inv n d"
  proof (rule visited_inv_later [OF inv(3) _ s(4) _ inv(6)])
    fix j assume "phase_of j c = Collected \<or> current (dpc c) = Some j" "j < length (handlers (srv c))"
    with cur li s(5) show "phase_of j d = Collected \<or> current (dpc d) = Some j"
      by (auto simp: s(1) nth_list_update)
  qed (simp_all add: s)
  ultimately show ?thesis by (simp add: drain_inv_def)
qed

text \<open>A round of the loop: the coroutine of the next node is moved out.\<close>

lemma moved_next:
  assumes "visited_inv n c" "dpc c = Looping (r # rs)" "nodes (srv c) r = Some e"
  shows "n r = Some e" "(nodes (srv c))(r \<mapsto> e\<lparr>handlerCoro := None\<rparr>) = moved rs n" "r \<notin> set rs"
proof -
  note v = visited_invD [OF assms(1), unfolded assms(2) rest.simps]
  from v(1) assms(3) show "n r = Some e" by (simp add: moved_def)
  from v(2) show "r \<notin> set rs" by simp
  with v(1) \<open>n r = Some e\<close> show "(nodes (srv c))(r \<mapsto> e\<lparr>handlerCoro := None\<rparr>) = moved rs n"
    by (auto simp: moved_def)
qed

lemma visited_next:
  assumes "visited_inv n c" "dpc c = Looping (r # rs)" "n r = Some e" "handlerCoro e = Some i"
    and "nodes (srv d) = moved rs n" "rest (dpc d) = rs"
    and "phase_of i d = Collected \<or> current (dpc d) = Some i"
    and "\<And>j. j < length (handlers (srv c)) \<Longrightarrow> phase_of j c = Collected \<Longrightarrow> phase_of j d = Collected"
    and "\<And>j r e. n r = Some e \<Longrightarrow> handlerCoro e = Some j \<Longrightarrow> j < length (handlers (srv c))"
  shows "visited_inv n d"
  unfolding visited_inv_def assms(5,6)
proof (intro conjI allI impI ballI)
  note v = visited_invD [OF assms(1), unfolded assms(2) rest.simps current.simps]
  show "distinct rs" "\<And>q. q \<in> set rs \<Longrightarrow> n q \<noteq> None" using v(2,3) by simp_all
  fix q d' assume q: "n q = Some d'" "q \<notin> set rs"
  show "\<exists>j. handlerCoro d' = Some j \<and> (phase_of j d = Collected \<or> current (dpc d) = Some j)"
  proof (cases "q = r")
    case True
    with q(1) assms(3,4,7) show ?thesis by auto
  next
    case False
    with v(4) [OF q(1)] q(2) assms(8,9) q(1) show ?thesis by auto
  qed
qed simp

lemma drain_next_cases:
  assumes "drain_inv n c" "dpc c = Looping (r # rs)" "drain_next r rs c = (Inr (), d)"
  obtains e i where "n r = Some e" "handlerCoro e = Some i"
    "phase_of i c = Collected" "d = c\<lparr>srv := with_nodes (moved rs n) (srv c), dpc := Looping rs\<rparr>"
  | e i where "n r = Some e" "handlerCoro e = Some i"
    "phase_of i c = Finished"
    "d = c\<lparr>srv := set_phase i Collected (with_nodes (moved rs n) (srv c)), dpc := Looping rs\<rparr>"
  | e i t where "n r = Some e" "handlerCoro e = Some i" "phase_of i c = Queued"
    "start_handler i (with_nodes (moved rs n) (srv c)) = (Inr (), t)"
    "d = note_wait i (c\<lparr>srv := t, dpc := Inline i rs\<rparr>)"
proof -
  note inv = drain_invD [OF assms(1)]
  from assms(3) obtain e where "nodes (srv c) r = Some e"
    by (auto simp: drain_next_def deref_def split: option.splits)
  note m = moved_next [OF inv(3) assms(2) this]
  have w: "snd (set_node r (e\<lparr>handlerCoro := None\<rparr>) (srv c)) = with_nodes (moved rs n) (srv c)"
    by (simp add: set_node_def modify_run m(2) [symmetric] with_nodes_def)
  from assms(3) \<open>nodes (srv c) r = Some e\<close> obtain i where i: "handlerCoro e = Some i"
    by (auto simp: drain_next_def deref_def Let_def split: option.splits)
  let ?c = "c\<lparr>srv := with_nodes (moved rs n) (srv c)\<rparr>"
  have li: "i < length (handlers (srv c))" by (rule inv(6) [OF m(1) i])
  show thesis
  proof (cases "phase_of i c = Collected")
    case True
    with that(1) [OF m(1) i] assms(3) \<open>nodes (srv c) r = Some e\<close> i w show thesis
      by (auto simp: drain_next_def deref_def Let_def)
  next
    case False
    with assms(3) \<open>nodes (srv c) r = Some e\<close> i w obtain d' where
      d': "resume_outer i ?c = (Inr (), d')"
        "d = d'\<lparr>dpc := (if phase_of i d' = Collected then Looping rs else Inline i rs)\<rparr>"
      by (auto simp: drain_next_def deref_def Let_def split: prod.splits sum.splits)
    show thesis
    proof (cases "phase_of i c = Queued")
      case True
      with d'(1) obtain t where t: "start_handler i (with_nodes (moved rs n) (srv c)) = (Inr (), t)"
        "d' = note_wait i (?c\<lparr>srv := t\<rparr>)"
        by (auto simp: resume_outer_def split: prod.splits)
      have "phases_move i (with_nodes (moved rs n) (srv c)) t"
        using True li t(1) by (intro phases_move_start) simp_all
      then have "hd_phase (handlers t ! i) \<noteq> Collected" by (auto simp: phases_move_def)
      with that(3) [OF m(1) i True t(1)] t(2) d'(2) show thesis by (simp add: note_wait_def)
    next
      case nq: False
      with d'(1) False have "phase_of i c = Finished"
        "d' = ?c\<lparr>srv := set_phase i Collected (with_nodes (moved rs n) (srv c))\<rparr>"
        by (auto simp: resume_outer_def split: phase.splits if_splits)
      with that(2) [OF m(1) i] d'(2) li show thesis by simp
    qed
  qed
qed

lemma handlers_inv_nodes [simp]: "handlers_inv n (with_nodes m s) = handlers_inv n s"
  by (simp add: handlers_inv_def)

lemma drain_inv_next:
  assumes "drain_inv n c" "dpc c = Looping (r # rs)" "drain_next r rs c = (Inr (), d)"
  shows "drain_inv n d"
proof -
  note inv = drain_invD [OF assms(1)]
  note visit = visited_next [OF inv(3) assms(2)]
  from assms show ?thesis
  proof (cases rule: drain_next_cases)
    case (1 e i)
    have "tokens_inv d"
      using inv(2) assms(2) by (simp add: 1(4) tokens_inv_def)
    moreover have "visited_inv n d"
      by (rule visit [OF 1(1,2) _ _ _ _ inv(6)]) (simp_all add: 1(3,4))
    ultimately show ?thesis using inv(1) by (simp add: drain_inv_def 1(4))
  next
    case (2 e i)
    have li: "i < length (handlers (srv c))" by (rule inv(6) [OF 2(1,2)])
    have "handlers_inv n (srv d)"
      using handlers_inv_collect [of n "with_nodes (moved rs n) (srv c)" i] inv(1) 2(3) by (simp add: 2(4))
    moreover have "tokens_inv d"
      using assms(2)
      by (intro tokens_inv_collect [OF inv(2) 2(3), where s = "with_nodes (moved rs n) (srv c)"])
        (simp_all add: 2(4))
    moreover have "visited_inv n d"
      by (rule visit [OF 2(1,2) _ _ _ _ inv(6)]) (use li in \<open>auto simp: 2(4) nth_list_update\<close>)
    ultimately show ?thesis by (simp add: drain_inv_def)
  next
    case (3 e i t)
    let ?s = "with_nodes (moved rs n) (srv c)"
    have li: "i < length (handlers ?s)" using inv(6) [OF 3(1,2)] by simp
    have "handler_step fresh i ?s = Some (Inr (), t)" for fresh
      using 3(3,4) by (simp add: handler_step_def)
    note h = handlers_inv_step [OF _ _ li this, of n]
    have h': "handlers_inv n t" "phases_move i ?s t" "nodes t = moved rs n"
      using h inv(1) same_requests_moved by simp_all
    have pm: "phases_move i (srv c) t" using h'(2) by (simp add: phases_move_def)
    have d: "srv d = t" "dpc d = Inline i rs" by (simp_all add: 3(5))
    have "tokens_inv d"
      unfolding 3(5) using assms(2) li 3(3)
      by (intro tokens_inv_moves [OF inv(2) pm]) simp_all
    moreover have "visited_inv n d"
      by (rule visit [OF 3(1,2) _ _ _ _ inv(6)])
        (use h'(3) phases_collected [OF pm] 3(3) in \<open>auto simp: d\<close>)
    ultimately show ?thesis using h'(1) by (simp add: drain_inv_def d)
  qed
qed

lemma drain_inv_listen:
  assumes "drain_inv n c" "listen_moves c = Some (Inr (), d)"
  shows "drain_inv n d"
proof -
  note inv = drain_invD [OF assms(1)]
  have same: "drain_inv n (c\<lparr>dpc := q\<rparr>)"
    if "rest q = rest (dpc c)" "current q = current (dpc c) \<or>
      current q = None \<and> (\<forall>i. current (dpc c) = Some i \<longrightarrow> phase_of i c = Collected)" for q
  proof -
    have "tokens_inv (c\<lparr>dpc := q\<rparr>)"
      using inv(2) that(2) by (auto simp: tokens_inv_def)
    moreover have "visited_inv n (c\<lparr>dpc := q\<rparr>)"
      by (rule visited_inv_later [OF inv(3) _ _ _ inv(6)]) (use that in auto)
    ultimately show ?thesis using inv(1) by (simp add: drain_inv_def)
  qed
  show ?thesis
  proof (cases "dpc c")
    case (Looping rs)
    with assms same [of Ended] show ?thesis
      by (cases rs) (auto simp: listen_moves_def intro: drain_inv_next)
  qed (use assms(2) same in \<open>auto simp: listen_moves_def split: if_splits\<close>)
qed

lemma drain_inv_do:
  assumes "drain_inv n c" "close_do fresh e c = Some (Inr (), d)"
  shows "drain_inv n d"
  using assms by (cases e)
    (auto simp: close_do_def intro: drain_inv_listen drain_inv_handler drain_inv_stale)

lemma drain_inv_start:
  assumes "may_close fresh w s"
  shows "drain_inv (nodes s) (closing_start w s)"
proof -
  from assms obtain es where run: "server_run fresh es server_new = Some (Inr (), s)"
    and ns: "listener s \<noteq> Stopped"
    and w: "in_phase Waiting (handlers s) \<union> in_phase Woken (handlers s) \<subseteq> set w"
    by (auto simp: may_close_def)
  from pending_inv_run [OF run] ns
  have si: "server_inv s" and pi: "\<And>r e. nodes s r = Some e \<Longrightarrow>
      methodId (requestHeader e) < CommandId_COMMAND_COUNT" and pn: "pending_nodes s"
    by (auto simp: pending_inv_def)
  then have ni: "node_inv s" "wait_inv s" "answer_inv s" by (simp_all add: server_inv_def)
  have u: "\<not> handlersKeepingLock s" by (rule unlocked_run [OF run]) (simp add: server_new_def)
  let ?s = "s\<lparr>listener := Stopped\<rparr>"
  have "server_inv ?s"
    using node_inv_cong [OF ni(1), of ?s] wait_inv_cong [OF ni(2), of ?s] answer_inv_cong [OF ni(3), of ?s]
    by (simp add: server_inv_def)
  moreover have "with_nodes (nodes s) ?s = ?s" by (simp add: with_nodes_def)
  ultimately have "server_inv (with_nodes (nodes s) ?s)" by (simp only:)
  with u pi have "handlers_inv (nodes s) ?s" by (simp add: handlers_inv_def)
  moreover have "tokens_inv (closing_start w s)"
    using w by (intro tokens_invI) (auto simp: closing_start_def queued_def in_phase_def)
  moreover have "visited_inv (nodes s) (closing_start w s)"
  proof -
    let ?rs = "map snd (pendingResponses s)"
    have "moved ?rs (nodes s) = nodes s"
    proof
      fix r show "moved ?rs (nodes s) r = nodes s r"
        using nodes_pending [OF ni(1), of r] by (cases "nodes s r") (auto simp: moved_def)
    qed
    moreover have "distinct ?rs" "\<forall>r\<in>set ?rs. nodes s r \<noteq> None"
      using pending_distinct [OF ni(1) pn] by blast+
    ultimately show ?thesis
      using nodes_pending [OF ni(1)] by (auto simp: visited_inv_def closing_start_def)
  qed
  ultimately show ?thesis by (simp add: drain_inv_def closing_start_def)
qed

subsection \<open>Properties of closing\<close>

lemma close_frame:
  assumes "close_do fresh e c = Some (Inr (), d)"
  shows "requests (srv d) = requests (srv c) \<and> length (handlers (srv d)) = length (handlers (srv c))"
proof -
  have start: "requests t = requests s \<and> length (handlers t) = length (handlers s)"
    if "start_handler i s = (Inr (), t)" for i s t
    using start_handler_run [OF that] by (auto simp: acquire_write_lock_def split: if_splits)
  have outer: "requests (srv d) = requests (srv c) \<and> length (handlers (srv d)) = length (handlers (srv c))"
    if "resume_outer i c = (Inr (), d)" for i c d
    using that start by (auto simp: resume_outer_def split: phase.splits prod.splits if_splits)
  show ?thesis
  proof (cases e)
    case Listen
    with assms have l: "listen_moves c = Some (Inr (), d)" by (simp add: close_do_def)
    show ?thesis
    proof (cases "dpc c")
      case (Looping rs)
      show ?thesis
      proof (cases rs)
        case (Cons r qs)
        with l Looping have "drain_next r qs c = (Inr (), d)" by (simp add: listen_moves_def)
        then obtain e' i where "nodes (srv c) r = Some e'" "handlerCoro e' = Some i"
          "phase_of i c = Collected \<and> srv d = snd (set_node r (e'\<lparr>handlerCoro := None\<rparr>) (srv c)) \<or>
           (\<exists>f. resume_outer i (c\<lparr>srv := snd (set_node r (e'\<lparr>handlerCoro := None\<rparr>) (srv c))\<rparr>) = (Inr (), f) \<and>
             srv d = srv f)"
          by (auto simp: drain_next_def deref_def Let_def set_node_def modify_run
              split: option.splits prod.splits sum.splits if_splits)
        with outer show ?thesis by (fastforce simp: set_node_def modify_run)
      qed (use l Looping in \<open>auto simp: listen_moves_def\<close>)
    qed (use l in \<open>auto simp: listen_moves_def split: if_splits\<close>)
  next
    case (Handler i)
    with assms obtain t where "handler_step fresh i (srv c) = Some (Inr (), t)" "srv d = t"
      by (auto simp: close_do_def handler_moves_def split: if_splits)
    moreover from this have "length (handlers t) = length (handlers (srv c))"
      using start write_response_run [of fresh i "srv c" t] finish_handler_run [of i "srv c" t]
      by (cases "phase_of i c") (auto simp: handler_step_def release_write_lock_def)
    ultimately show ?thesis using handler_frame(1) by simp
  next
    case (Token i)
    with assms obtain f where "resume_outer i (c\<lparr>tokens := remove1 i (tokens c)\<rparr>) = (Inr (), f)"
      "srv d = srv f"
      by (auto simp: close_do_def stale_moves_def split: if_splits prod.splits sum.splits drain_pc.splits)
    with outer [of i "c\<lparr>tokens := remove1 i (tokens c)\<rparr>" f] show ?thesis by simp
  qed
qed

lemma close_reach_inv:
  assumes "close_reach fresh s c"
  shows "drain_inv (nodes s) c" "requests (srv c) = requests s"
    "length (handlers (srv c)) = length (handlers s)" "\<exists>w. may_close fresh w s"
proof -
  from assms have "drain_inv (nodes s) c \<and> requests (srv c) = requests s \<and>
      length (handlers (srv c)) = length (handlers s) \<and> (\<exists>w. may_close fresh w s)"
  proof induction
    case (init w)
    then show ?case using drain_inv_start by (auto simp: closing_start_def)
  next
    case (step c e d)
    with drain_inv_do close_frame [OF step(2)] show ?case by auto
  qed
  then show "drain_inv (nodes s) c" "requests (srv c) = requests s"
    "length (handlers (srv c)) = length (handlers s)" "\<exists>w. may_close fresh w s" by blast+
qed


lemma closing_failures_core:
  assumes "close_reach fresh s c" "close_do fresh e c = Some (Inl x, d)"
  shows "e = Listen \<and> x = UB NullCoroutine \<and> (\<exists>r. listener s = AwaitBody r) \<or>
    (e = Listen \<or> (\<exists>i. e = Token i)) \<and>
    (\<exists>i<length (handlers s).
       phase_of i c \<in> {Waiting, Woken, Writing} \<and> i \<in> set (waited c) \<and>
         x = AssertFailed ''check coroutine only after it exits'' \<or>
       phase_of i c = Writing \<and> i \<notin> set (waited c) \<and> x = UB ResumeRunning \<or>
       phase_of i c \<in> {Handled, Leaving} \<and> x = UB ResumeRunning)"
proof -
  note r = close_reach_inv [OF assms(1)]
  note inv = drain_invD [OF r(1)]
  let ?F = "\<lambda>i. phase_of i c \<in> {Waiting, Woken, Writing} \<and> i \<in> set (waited c) \<and>
         x = AssertFailed ''check coroutine only after it exits'' \<or>
       phase_of i c = Writing \<and> i \<notin> set (waited c) \<and> x = UB ResumeRunning \<or>
       phase_of i c \<in> {Handled, Leaving} \<and> x = UB ResumeRunning"
  have outer: "?F i"
    if "resume_outer i f = (Inl x, d')" "phase_of i f = phase_of i c" "phase_of i c \<noteq> Collected"
      "waited f = waited c" "i < length (handlers (srv c))"
      "phase_of i c = Queued \<Longrightarrow> \<exists>t. start_handler i (srv f) = (Inr (), t)" for i f d'
    using that tokens_invD(5) [OF inv(2) that(5)]
    by (auto simp: resume_outer_def split: phase.splits if_splits)
  show ?thesis
  proof (cases e)
    case Listen
    with assms(2) obtain q rs where l: "dpc c = Looping (q # rs)" "drain_next q rs c = (Inl x, d)"
      by (auto simp: close_do_def listen_moves_def split: drain_pc.splits list.splits if_splits)
    from visited_invD(1,3) [OF inv(3)] l(1) obtain b where b: "nodes (srv c) q = Some b"
      by (auto simp: moved_def)
    note m = moved_next [OF inv(3) l(1) b]
    have w: "snd (set_node q (b\<lparr>handlerCoro := None\<rparr>) (srv c)) = with_nodes (moved rs (nodes s)) (srv c)"
      by (simp add: set_node_def modify_run m(2) [symmetric] with_nodes_def)
    show ?thesis
    proof (cases "handlerCoro b")
      case None
      from r(4) obtain es where es: "server_run fresh es server_new = Some (Inr (), s)" "listener s \<noteq> Stopped"
        by (auto simp: may_close_def)
      from pending_inv_run [OF es(1)] es(2) m(1) None have "listener s = AwaitBody q"
        by (auto simp: pending_inv_def)
      with None Listen l(2) b show ?thesis by (auto simp: drain_next_def deref_def Let_def)
    next
      case (Some i)
      let ?c = "c\<lparr>srv := with_nodes (moved rs (nodes s)) (srv c)\<rparr>"
      have li: "i < length (handlers (srv c))" by (rule inv(6) [OF m(1) Some])
      from Some l(2) b w obtain d' where o: "resume_outer i ?c = (Inl x, d')" "phase_of i c \<noteq> Collected"
        by (auto simp: drain_next_def deref_def Let_def split: if_splits prod.splits sum.splits)
      have "?F i"
      proof (rule outer [OF o(1) _ o(2) _ li])
        assume q: "phase_of i c = Queued"
        let ?t = "with_nodes (moved rs (nodes s)) (srv c)"
        obtain u t where t: "start_handler i ?t = (u, t)" by fastforce
        have "u = Inr ()"
        proof (rule handler_succeeds)
          show "handler_step fresh i ?t = Some (u, t)" using q t by (simp add: handler_step_def)
          show "handlers_inv (nodes s) ?t" using inv(1) by simp
          show "same_requests (nodes ?t) (nodes s)"
            using same_requests_moved [of "nodes s" rs] by (simp add: same_requests_def)
        qed (use li in simp)
        with t show "\<exists>t. start_handler i (srv ?c) = (Inr (), t)" by simp
      qed simp_all
      with Listen li r(3) show ?thesis by auto
    qed
  next
    case (Handler i)
    with assms(2) obtain t where "handler_step fresh i (srv c) = Some (Inl x, t)"
      "i < length (handlers (srv c))"
      by (auto simp: close_do_def handler_moves_def split: if_splits)
    with handler_succeeds [OF inv(1,5)] show ?thesis by fastforce
  next
    case (Token i)
    with assms(2) obtain d' where t: "i \<in> set (tokens c)" "phase_of i c \<noteq> Queued"
      "resume_outer i (c\<lparr>tokens := remove1 i (tokens c)\<rparr>) = (Inl x, d')"
      by (auto simp: close_do_def stale_moves_def split: if_splits prod.splits sum.splits)
    from tokens_invD(2,3) [OF inv(2) t(1)] t(2) have "i < length (handlers (srv c))" "phase_of i c \<noteq> Collected"
      by auto
    with outer [OF t(3)] t(2) Token r(3) show ?thesis by auto
  qed
qed


text \<open>
  The one way the last loop can hang.  When neither \<open>listen\<close> nor a handler nor a thread of the
  pool with a handle to resume can move, and \<open>listen\<close> has not returned, it is suspended and waits for
  a handler that has ended: the handler ended between \<open>await_ready\<close> and the registration of \<open>listen\<close>
  as its caller, and nobody resumes \<open>listen\<close> any more.
\<close>

lemma closing_hangs:
  assumes "close_reach fresh s c" "\<forall>e. close_do fresh e c = None" "dpc c \<noteq> Ended"
  shows "\<exists>i rs. dpc c = Awaiting i rs \<and> phase_of i c = Collected"
proof -
  note r = close_reach_inv [OF assms(1)]
  note inv = drain_invD [OF r(1)]
  have l: "listen_moves c = None" using assms(2) [rule_format, of Listen] by (simp add: close_do_def)
  have h: "handler_moves fresh i c = None" for i
    using assms(2) [rule_format, of "Handler i"] by (simp add: close_do_def)
  have t: "stale_moves i c = None" for i
    using assms(2) [rule_format, of "Token i"] by (simp add: close_do_def)
  show ?thesis
  proof (cases "dpc c")
    case (Looping rs)
    with l show ?thesis by (cases rs) (simp_all add: listen_moves_def)
  next
    case (Inline i rs)
    then have c: "current (dpc c) = Some i" by simp
    from tokens_invD(5-7) [OF inv(2)] c have i: "i < length (handlers (srv c))" "phase_of i c \<noteq> Queued"
      "phase_of i c = Waiting \<or> phase_of i c = Woken \<Longrightarrow> i \<in> set (waited c)" by blast+
    from l Inline i(3) have "phase_of i c \<notin> {Collected, Waiting, Finished, Woken}"
      by (auto simp: listen_moves_def split: if_splits)
    with h [of i] i(1,2) show ?thesis
      by (cases "phase_of i c") (auto simp: handler_moves_def handler_step_def)
  next
    case (Awaiting i rs)
    then have c: "current (dpc c) = Some i" by simp
    have "phase_of i c = Collected"
    proof (rule ccontr)
      assume "phase_of i c \<noteq> Collected"
      with tokens_invD(7,8) [OF inv(2) c] t [of i] show False by (auto simp: stale_moves_def)
    qed
    with Awaiting show ?thesis by blast
  qed (use l assms(3) in \<open>simp_all add: listen_moves_def\<close>)
qed

subsection \<open>Termination\<close>

primrec pc_load :: "drain_pc \<Rightarrow> nat" where
  "pc_load (Looping rs) = 5 * length rs + 1"
| "pc_load (Inline i rs) = 5 * length rs + 4"
| "pc_load (Registering i rs) = 5 * length rs + 3"
| "pc_load (Awaiting i rs) = 5 * length rs + 2"
| "pc_load Ended = 0"

definition close_rank :: "closing \<Rightarrow> nat" where
  "close_rank c = server_load (srv c) + 2 * length (answered (srv c)) + length (tokens c) + pc_load (dpc c)"

lemma server_load_nodes [simp]: "server_load (with_nodes n s) = server_load s"
  by (rule server_load_cong) simp

lemma load_collect:
  assumes "i < length (handlers s)" "hd_phase (handlers s ! i) = Finished"
  shows "server_load (set_phase i Collected s) = server_load s"
  using server_load_set_phase [OF assms(1), of Collected] assms(2) by simp

text \<open>
  C21: closing takes finitely many steps: in every reachable state every step of \<open>listen\<close>, of a handler
  or of a thread of the pool decreases a rank.  Together with \<open>closing_hangs\<close>: after finitely many
  steps the loop has returned, has failed, or hangs in the way stated there.
\<close>

theorem closing_terminates:
  assumes "close_reach fresh s c" "close_do fresh e c = Some (Inr (), d)"
  shows "close_rank d < close_rank c"
proof -
  note inv = drain_invD [OF close_reach_inv(1) [OF assms(1)]]
  have w: "wait_inv (srv c)" using inv(1) by (simp add: handlers_inv_def server_inv_def wait_inv_def)
  show ?thesis
  proof (cases e)
    case Listen
    with assms(2) have l: "listen_moves c = Some (Inr (), d)" by (simp add: close_do_def)
    show ?thesis
    proof (cases "dpc c")
      case (Looping rs)
      show ?thesis
      proof (cases rs)
        case (Cons r qs)
        with l Looping have n: "drain_next r qs c = (Inr (), d)" "dpc c = Looping (r # qs)"
          by (simp_all add: listen_moves_def)
        from drain_next_cases [OF close_reach_inv(1) [OF assms(1)] n(2,1)] show ?thesis
        proof cases
          case (1 b i)
          with n(2) show ?thesis by (simp add: close_rank_def)
        next
          case (2 b i)
          with n(2) inv(6) [OF 2(1,2)] show ?thesis
            using load_collect [of i "with_nodes (moved qs (nodes s)) (srv c)"] by (simp add: close_rank_def)
        next
          case (3 b i t)
          let ?s = "with_nodes (moved qs (nodes s)) (srv c)"
          have "handler_step fresh i ?s = Some (Inr (), t)" using 3(3,4) by (simp add: handler_step_def)
          moreover have "wait_inv ?s" "i < length (handlers ?s)"
            using w inv(6) [OF 3(1,2)] by (simp_all add: wait_inv_def)
          ultimately have "server_load t + 2 * length (answered t) < server_load ?s + 2 * length (answered ?s)"
            by (intro handler_load)
          then show ?thesis using n(2) by (simp add: 3(5) close_rank_def)
        qed
      qed (use l Looping in \<open>auto simp: listen_moves_def close_rank_def\<close>)
    qed (use l in \<open>auto simp: listen_moves_def close_rank_def split: if_splits\<close>)
  next
    case (Handler i)
    with assms(2) obtain t where t: "i < length (handlers (srv c))" "handler_step fresh i (srv c) = Some (Inr (), t)"
      and d: "d = note_wait i (c\<lparr>srv := t,
        tokens := (if phase_of i c = Queued then remove1 i (tokens c) else tokens c)\<rparr>)"
      by (auto simp: close_do_def handler_moves_def split: if_splits)
    have "length (tokens d) \<le> length (tokens c)" by (simp add: d length_remove1)
    with handler_load [OF w t] show ?thesis by (simp add: d close_rank_def)
  next
    case (Token i)
    with assms(2) have i: "i \<in> set (tokens c)" "phase_of i c \<noteq> Queued"
      and o: "stale_moves i c = Some (Inr (), d)"
      by (auto simp: close_do_def stale_moves_def split: if_splits)
    from o i have f: "phase_of i c = Finished"
      by (auto simp: stale_moves_def resume_outer_def split: phase.splits if_splits)
    have li: "i < length (handlers (srv c))" by (rule tokens_invD(2) [OF inv(2) i(1)])
    have "srv d = set_phase i Collected (srv c)" "tokens d = remove1 i (tokens c)"
      "pc_load (dpc d) \<le> pc_load (dpc c)"
      using o i f by (auto simp: stale_moves_def resume_outer_def split: drain_pc.splits)
    moreover have "length (remove1 i (tokens c)) < length (tokens c)"
      using length_pos_if_in_set [OF i(1)] i(1) by (simp add: length_remove1)
    ultimately show ?thesis using load_collect [OF li f] by (simp add: close_rank_def)
  qed
qed

subsection \<open>Closing an idle connection\<close>

text \<open>
  The loop of \<open>Servers\<close>, which is over in one step or fails, is the one of this theory when nothing
  else moves.
\<close>

lemma drain_loop_steps:
  assumes "drain_loop rs s = Some (r, t)"
    and "\<And>q e i. nodes s q = Some e \<Longrightarrow> handlerCoro e = Some i \<Longrightarrow> i < length (handlers s)"
    and "srv c = s" "dpc c = Looping rs"
  shows "\<exists>k d. close_run fresh (replicate k Listen) c = Some (r, d) \<and> srv d = t \<and> (r = Inr () \<longrightarrow> dpc d = Ended)"
  using assms
proof (induction rs arbitrary: s c)
  case Nil
  then show ?case
    by (intro exI [of _ 1] exI [of _ "c\<lparr>dpc := Ended\<rparr>"]) (auto simp: close_do_def listen_moves_def)
next
  case (Cons q rs)
  have listen: "close_run fresh (replicate (Suc k) Listen) c =
      (case drain_next q rs c of
         (Inl x, d) \<Rightarrow> Some (Inl x, d) | (Inr _, d) \<Rightarrow> close_run fresh (replicate k Listen) d)" for k
    using Cons.prems(4) by (simp add: close_do_def listen_moves_def)
  show ?case
  proof (cases "nodes s q")
    case None
    with Cons.prems show ?thesis
      by (intro exI [of _ "Suc 0"] exI [of _ c])
        (auto simp: close_do_def listen_moves_def drain_next_def deref_def)
  next
    case (Some e)
    let ?s = "snd (set_node q (e\<lparr>handlerCoro := None\<rparr>) s)"
    let ?c = "c\<lparr>srv := ?s\<rparr>"
    have sn: "handlers ?s = handlers s" "nodes ?s = (nodes s)(q \<mapsto> e\<lparr>handlerCoro := None\<rparr>)"
      by (simp_all add: set_node_def modify_run)
    show ?thesis
    proof (cases "handlerCoro e")
      case None
      with Some Cons.prems listen [of 0] show ?thesis
        by (intro exI [of _ "Suc 0"] exI [of _ ?c])
          (auto simp: drain_next_def deref_def Let_def resume_handler_def)
    next
      case j: (Some i)
      have li: "i < length (handlers s)" by (rule Cons.prems(2) [OF Some j])
      have bound: "i' < length (handlers ?s)" if "nodes ?s q' = Some e'" "handlerCoro e' = Some i'" for q' e' i'
        using that Cons.prems(2) by (auto simp: sn split: if_splits)
      from Cons.prems(1) Some j consider
          (over) "hd_phase (handlers s ! i) = Collected" "drain_loop rs ?s = Some (r, t)"
        | (last) "hd_phase (handlers s ! i) = Finished" "drain_loop rs (set_phase i Collected ?s) = Some (r, t)"
        | (wait) "hd_phase (handlers s ! i) = Waiting"
            "r = Inl (AssertFailed ''check coroutine only after it exits'')" "t = ?s"
        by (auto simp: deref_def resume_handler_def sn split: phase.splits)
      then show ?thesis
      proof cases
        case over
        have "\<exists>k d. close_run fresh (replicate k Listen) (?c\<lparr>dpc := Looping rs\<rparr>) = Some (r, d) \<and> srv d = t \<and>
            (r = Inr () \<longrightarrow> dpc d = Ended)"
          by (rule Cons.IH [OF over(2)]) (use bound in simp_all)
        then obtain k d where
          "close_run fresh (replicate k Listen) (?c\<lparr>dpc := Looping rs\<rparr>) = Some (r, d)" "srv d = t"
          "r = Inr () \<longrightarrow> dpc d = Ended" by blast
        with over(1) Some j Cons.prems(3) show ?thesis
          by (intro exI [of _ "Suc k"] exI [of _ d]) (simp only: listen, simp add: drain_next_def deref_def sn)
      next
        case last
        let ?t = "set_phase i Collected ?s"
        have "i' < length (handlers ?t)" if "nodes ?t q' = Some e'" "handlerCoro e' = Some i'" for q' e' i'
          using bound that by simp
        note bound' = this
        have "\<exists>k d. close_run fresh (replicate k Listen) (?c\<lparr>srv := ?t, dpc := Looping rs\<rparr>) = Some (r, d) \<and> srv d = t \<and>
            (r = Inr () \<longrightarrow> dpc d = Ended)"
          by (rule Cons.IH [OF last(2)]) (use bound' in simp_all)
        then obtain k d where
          "close_run fresh (replicate k Listen) (?c\<lparr>srv := ?t, dpc := Looping rs\<rparr>) = Some (r, d)" "srv d = t"
          "r = Inr () \<longrightarrow> dpc d = Ended" by blast
        with last(1) Some j Cons.prems(3) li show ?thesis
          by (intro exI [of _ "Suc k"] exI [of _ d])
            (simp only: listen, simp add: drain_next_def deref_def sn resume_outer_def)
      next
        case wait
        with Some j Cons.prems(3) listen [of 0] show ?thesis
          by (intro exI [of _ "Suc 0"] exI [of _ ?c])
            (simp add: drain_next_def deref_def Let_def resume_outer_def sn)
      qed
    qed
  qed
qed


definition at_rest :: "closing \<Rightarrow> bool" where
  "at_rest c \<longleftrightarrow>
     (\<forall>i<length (handlers (srv c)). phase_of i c = Finished \<or> phase_of i c = Collected) \<and>
     tokens c = [] \<and> current (dpc c) = None"

lemma at_rest_still:
  assumes "at_rest c"
  shows "handler_moves fresh i c = None" "stale_moves i c = None"
  using assms by (auto simp: at_rest_def handler_moves_def handler_step_def stale_moves_def)

lemma at_rest_step:
  assumes "drain_inv n c" "at_rest c" "close_do fresh e c = Some (Inr (), d)"
  shows "at_rest d"
proof -
  from assms(2,3) at_rest_still have l: "listen_moves c = Some (Inr (), d)"
    by (cases e) (auto simp: close_do_def)
  from assms(2) have cur: "current (dpc c) = None" by (simp add: at_rest_def)
  show ?thesis
  proof (cases "dpc c")
    case (Looping rs)
    show ?thesis
    proof (cases rs)
      case Nil
      with l Looping assms(2) show ?thesis by (auto simp: listen_moves_def at_rest_def)
    next
      case (Cons r qs)
      with l Looping have n: "drain_next r qs c = (Inr (), d)" "dpc c = Looping (r # qs)"
        by (simp_all add: listen_moves_def)
      from drain_next_cases [OF assms(1) n(2,1)] show ?thesis
      proof cases
        case (3 e i t)
        with assms(2) drain_invD(6) [OF assms(1) 3(1,2)] show ?thesis by (auto simp: at_rest_def)
      qed (use assms(2) in \<open>auto simp: at_rest_def hd_phase_set_phase\<close>)
    qed
  qed (use l cur in \<open>simp_all add: listen_moves_def\<close>)
qed

text \<open>
  Closing an idle connection.  If no body is being read and every handler has reached its last
  suspension or has been collected when the peer closes, nothing can fail: until the loop is over
  the next step of \<open>listen\<close> is possible, succeeds, and is the only one.
\<close>

lemma closing_idle:
  assumes "close_reach fresh s c" "listener s = AwaitHeader"
    and "\<forall>i<length (handlers s). hd_phase (handlers s ! i) = Finished \<or> hd_phase (handlers s ! i) = Collected"
  shows "(dpc c = Ended \<or> (\<exists>d. close_do fresh Listen c = Some (Inr (), d))) \<and>
    (\<forall>i. close_do fresh (Handler i) c = None \<and> close_do fresh (Token i) c = None)"
proof -
  from assms(1) have "at_rest c"
  proof induction
    case (init w)
    with assms(3) show ?case
      by (auto simp: at_rest_def closing_start_def queued_def filter_empty_conv)
  next
    case (step c e d)
    with close_reach_inv(1) at_rest_step show ?case by blast
  qed
  then have i: "at_rest c" .
  have "dpc c = Ended \<or> (\<exists>r d. close_do fresh Listen c = Some (r, d))"
    using i by (cases "dpc c") (auto simp: at_rest_def close_do_def listen_moves_def split: list.splits)
  moreover have "x \<noteq> Inl y" if "close_do fresh Listen c = Some (x, d)" for x y d
  proof
    assume "x = Inl y"
    with closing_failures_core [OF assms(1), of Listen y d] that assms(2) i close_reach_inv(3) [OF assms(1)]
    show False by (auto simp: at_rest_def)
  qed
  ultimately show ?thesis
    using at_rest_still [OF i] by (auto simp: close_do_def) (metis sum.exhaust old.unit.exhaust)
qed

subsection \<open>Runs\<close>

text \<open>A server that has read \<open>n\<close> Pings and taken some steps, when the peer closes.\<close>

definition closed_after :: "server_event list \<Rightarrow> server" where
  "closed_after es = snd (the (server_run (\<lambda>_. 0) es server_new))"

definition one_ping :: "server_event list" where
  "one_ping = [Header (ping_request 7), Body []]"

lemma closed_after_may_close:
  assumes "map_option fst (server_run (\<lambda>_. 0) es server_new) = Some (Inr ())"
    and "listener (closed_after es) = AwaitHeader"
    and "in_phase Waiting (handlers (closed_after es)) = {}" "in_phase Woken (handlers (closed_after es)) = {}"
  shows "may_close (\<lambda>_. 0) [] (closed_after es)"
proof -
  from assms(1) obtain s where "server_run (\<lambda>_. 0) es server_new = Some (Inr (), s)" by (rule run_result)
  then show ?thesis using assms(2-4) by (auto simp: may_close_def closed_after_def)
qed

lemma in_phase_empty: "(\<forall>h\<in>set hs. hd_phase h \<noteq> ph) \<Longrightarrow> in_phase ph hs = {}"
  by (auto simp: in_phase_def)

lemma one_ping_start: "may_close (\<lambda>_. 0) [] (closed_after one_ping)"
  by (rule closed_after_may_close, code_simp, code_simp; rule in_phase_empty; code_simp)

lemma close_run_result:
  assumes "map_option fst (close_run (\<lambda>_. 0) es (closing_start [] (closed_after one_ping))) = Some (Inr ())"
  obtains c where "close_run (\<lambda>_. 0) es (closing_start [] (closed_after one_ping)) = Some (Inr (), c)"
    "c = snd (the (close_run (\<lambda>_. 0) es (closing_start [] (closed_after one_ping))))"
    "close_reach (\<lambda>_. 0) (closed_after one_ping) c"
proof -
  from assms obtain c where c: "close_run (\<lambda>_. 0) es (closing_start [] (closed_after one_ping)) = Some (Inr (), c)"
    by (cases "close_run (\<lambda>_. 0) es (closing_start [] (closed_after one_ping))") auto
  from close_run_reach [OF c close_reach.init [OF one_ping_start]] that c show thesis by simp
qed

text \<open>\<open>listen\<close> runs the queued handler itself; the pool then resumes it to its end.\<close>

definition good_end :: "close_move list" where
  "good_end = [Listen, Handler 0, Handler 0, Handler 0, Listen, Listen, Token 0, Listen]"



text \<open>The pool ends the handler between \<open>await_ready\<close> and the registration of \<open>listen\<close>.\<close>

definition lost_end :: "close_move list" where
  "lost_end = [Listen, Handler 0, Handler 0, Handler 0, Listen, Token 0, Listen]"

lemma lost_end_run:
  obtains c where "close_run (\<lambda>_. 0) lost_end (closing_start [] (closed_after one_ping)) = Some (Inr (), c)"
    "close_reach (\<lambda>_. 0) (closed_after one_ping) c" "dpc c = Awaiting 0 []"
    "\<forall>e. close_do (\<lambda>_. 0) e c = None"
proof -
  have "map_option fst (close_run (\<lambda>_. 0) lost_end (closing_start [] (closed_after one_ping))) = Some (Inr ())"
    by code_simp
  then obtain c where c: "close_run (\<lambda>_. 0) lost_end (closing_start [] (closed_after one_ping)) = Some (Inr (), c)"
    "c = snd (the (close_run (\<lambda>_. 0) lost_end (closing_start [] (closed_after one_ping))))"
    "close_reach (\<lambda>_. 0) (closed_after one_ping) c" by (rule close_run_result)
  have e: "dpc c = Awaiting 0 []" unfolding c(2) by code_simp
  have t: "tokens c = []" unfolding c(2) by code_simp
  have h: "map hd_phase (handlers (srv c)) = [Collected]" unfolding c(2) by code_simp
  then have "\<forall>i<length (handlers (srv c)). phase_of i c = Collected" by auto
  then have "close_do (\<lambda>_. 0) ev c = None" for ev
    using e t by (cases ev) (auto simp: close_do_def listen_moves_def handler_moves_def handler_step_def
        stale_moves_def)
  with that c(1,3) e show thesis by blast
qed

lemma closing_hangs_witness:
  "\<exists>c. close_run (\<lambda>_. 0) lost_end (closing_start [] (closed_after one_ping)) = Some (Inr (), c) \<and>
     (\<exists>i rs. dpc c = Awaiting i rs \<and> phase_of i c = Collected)"
proof -
  obtain c where c: "close_run (\<lambda>_. 0) lost_end (closing_start [] (closed_after one_ping)) = Some (Inr (), c)"
    "close_reach (\<lambda>_. 0) (closed_after one_ping) c" "dpc c = Awaiting 0 []"
    "\<forall>e. close_do (\<lambda>_. 0) e c = None"
    by (rule lost_end_run)
  from closing_hangs [OF c(2,4)] c(1,3) show ?thesis by auto
qed

theorem closing_terminates_witness:
  "\<exists>d. close_do (\<lambda>_. 0) Listen (closing_start [] (closed_after one_ping)) = Some (Inr (), d) \<and>
     close_rank d < close_rank (closing_start [] (closed_after one_ping))"
proof -
  let ?c = "closing_start [] (closed_after one_ping)"
  have "map_option fst (close_do (\<lambda>_. 0) Listen ?c) = Some (Inr ())" by code_simp
  then obtain d where d: "close_do (\<lambda>_. 0) Listen ?c = Some (Inr (), d)" by auto
  from closing_terminates [OF close_reach.init [OF one_ping_start] d] d show ?thesis by blast
qed

text \<open>A handler that has finished before the peer closes.\<close>

definition one_finished :: "server_event list" where
  "one_finished = one_ping @ [Step 0, Step 0, Step 0, Step 0]"

lemma one_finished_start: "may_close (\<lambda>_. 0) [] (closed_after one_finished)"
  by (rule closed_after_may_close, code_simp, code_simp; rule in_phase_empty; code_simp)


lemma closing_idle_witness:
  "\<exists>d. close_do (\<lambda>_. 0) Listen (closing_start [] (closed_after one_finished)) = Some (Inr (), d)"
proof -
  let ?c = "closing_start [] (closed_after one_finished)"
  have "map hd_phase (handlers (closed_after one_finished)) = [Finished]" by code_simp
  then have "\<forall>i<length (handlers (closed_after one_finished)).
      hd_phase (handlers (closed_after one_finished) ! i) = Finished \<or>
      hd_phase (handlers (closed_after one_finished) ! i) = Collected" by auto
  moreover have "listener (closed_after one_finished) = AwaitHeader" by code_simp
  moreover have "dpc ?c \<noteq> Ended" by (simp add: closing_start_def)
  ultimately show ?thesis using closing_idle [OF close_reach.init [OF one_finished_start]] by blast
qed

end
