(* ===== verification/Clients.thy ===== *)
theory Clients
  imports Servers
begin

section \<open>The client side of a connection\<close>

text \<open>
  \<open>proto/ClientTransport.h\<close> and \<open>.cpp\<close> and \<open>ClientRequestState.h\<close>.  Many coroutines send requests
  over one transport; each registers itself under a tag, and one coroutine at a time
  (\<open>waitForAnyResponse\<close>) reads the header of the next response, whatever request it answers, and
  schedules the sender.  A step of the model is one stretch of a coroutine between two suspensions,
  run under the mutex where the code takes it; a step that would block on the mutex is not possible
  (\<open>None\<close>).  A step that fails still leaves its state behind, and later steps go on from there.
\<close>

definition UINT16_MAX :: nat where
  "UINT16_MAX = 65535"

record request_state =
  rs_header :: response_header
  rs_handle :: "handle option"
  maxResponseSize :: u32
  rs_tag :: u16

definition request_state_default :: request_state where
  "request_state_default =
     \<lparr>rs_header = \<lparr>responseLen = 0, rtag = 0\<rparr>, rs_handle = None, maxResponseSize = 0, rs_tag = 0\<rparr>"

text \<open>
  The coroutine of \<open>waitForAnyResponse\<close>: it waits for a header, it is suspended after it has scheduled
  the sender, or an exception ended it.
\<close>

datatype wait_phase = Reading | Delivered | Failed

record client =
  pendingRequests :: "(u16, request_state) omap"
  lock :: bool
  unreadResponseLength :: u32
  unreadResponseTag :: u16
  currentWait :: "wait_phase option"
  written :: bytes
  woken :: "handle list"      \<comment> \<open>scheduled senders that have not run yet\<close>
  senders :: "handle \<Rightarrow> u16 option"   \<comment> \<open>ghost: the tag each sender reserved\<close>

definition client_new :: client where
  "client_new =
     \<lparr>pendingRequests = [], lock = False, unreadResponseLength = 0, unreadResponseTag = 0,
      currentWait = None, written = [], woken = [],
      senders = (\<lambda>_. None)\<rparr>"

subsection \<open>Reserving a tag\<close>

text \<open>The loop over the tags: the first one that is not in use, below \<open>UINT16_MAX\<close>.\<close>

function first_free :: "(u16, request_state) omap \<Rightarrow> nat \<Rightarrow> nat option" where
  "first_free m i =
     (if i < UINT16_MAX
      then (if map_of m (of_nat i) = None then Some i else first_free m (Suc i))
      else None)"
  by pat_completeness auto
termination
  by (relation "measure (\<lambda>(m, i). UINT16_MAX - i)") auto

declare first_free.simps [simp del]

text \<open>
  One round of \<open>reserveRequestState\<close>: it spins while the table is full, takes the mutex, and keeps
  it when it has a tag.
\<close>

definition reserve_request_state :: "client \<Rightarrow> (u16 option \<times> client) option" where
  "reserve_request_state s =
     (if length (pendingRequests s) = UINT16_MAX then None
      else if lock s then None
      else
        (case first_free (pendingRequests s) 0 of
           None \<Rightarrow> Some (None, s)
         | Some i \<Rightarrow>
             Some (Some (of_nat i),
               s\<lparr>lock := True,
                 pendingRequests := om_put (of_nat i) (request_state_default\<lparr>rs_tag := of_nat i\<rparr>)
                                      (pendingRequests s)\<rparr>)))"

subsection \<open>Waiting for a response\<close>

text \<open>A new \<open>waitForAnyResponse\<close> runs up to its read of a header.\<close>

definition wait_for_any_response :: "client \<Rightarrow> client" where
  "wait_for_any_response s = s\<lparr>currentWait := Some Reading\<rparr>"

text \<open>An exception in it: nobody awaits the coroutine, so that the promise throws it on.\<close>

definition wait_failed :: "exn_class \<Rightarrow> (client, unit) act" where
  "wait_failed c s =
     (case fst (finish (Threw (throw_default c)) (promise_new ())) of
        Inl e \<Rightarrow> (Inl e, s\<lparr>currentWait := Some Failed\<rparr>)
      | Inr _ \<Rightarrow> (Inr (), s\<lparr>currentWait := Some Failed\<rparr>))"

text \<open>The pool ignores a null handle.\<close>

definition on_response_header :: "response_header \<Rightarrow> (client, unit) act" where
  "on_response_header rh s =
     (case map_of (pendingRequests s) (rtag rh) of
        None \<Rightarrow> wait_failed UnknownResponseException s
      | Some st \<Rightarrow>
          (Inr (),
           s\<lparr>pendingRequests := om_adjust (rtag rh) (\<lambda>st. st\<lparr>rs_header := rh\<rparr>) (pendingRequests s),
             unreadResponseLength := responseLen rh, unreadResponseTag := rtag rh,
             currentWait := Some Delivered,
             woken := woken s @ (case rs_handle st of None \<Rightarrow> [] | Some h \<Rightarrow> [h])\<rparr>))"

text \<open>
  \<open>~co_await resumeSuspended(std::move(currentWaitForResponseCoroutine))\<close>: the member is null
  afterwards.  A coroutine that still waits for its header would be resumed inside an await; one an
  exception has ended is not resumed, and has no exception left to take.
\<close>

definition resume_wait :: "(client, unit) act" where
  "resume_wait s =
     (let s' = s\<lparr>currentWait := None\<rparr> in
      case currentWait s of
        None \<Rightarrow> (Inl (UB NullCoroutine), s')
      | Some Delivered \<Rightarrow> (Inr (), s')
      | Some Reading \<Rightarrow> (Inl (AssertFailed ''check coroutine only after it exits''), s')
      | Some Failed \<Rightarrow> (Inr (), s'))"

text \<open>A request is done with: its entry goes, and the next response is waited for.\<close>

definition erase_request :: "u16 \<Rightarrow> client \<Rightarrow> client" where
  "erase_request t s =
     (let s' = s\<lparr>pendingRequests := om_erase t (pendingRequests s)\<rparr> in
      if pendingRequests s' \<noteq> [] then wait_for_any_response s' else s'\<lparr>currentWait := None\<rparr>)"

subsection \<open>Sending\<close>

text \<open>
  \<open>sendRequest\<close> up to its suspension, run by the coroutine \<open>h\<close>.
\<close>

definition send_request ::
    "handle \<Rightarrow> u8 \<Rightarrow> buffer \<Rightarrow> u32 \<Rightarrow> client \<Rightarrow> ((err + unit) \<times> client) option" where
  "send_request h commandId req max_size s =
     (case fst (assert_fully_used req) of
        Inl e \<Rightarrow> Some (Inl e, s)
      | Inr _ \<Rightarrow>
          (case reserve_request_state s of
             None \<Rightarrow> None
           | Some (None, _) \<Rightarrow> None
           | Some (Some t, s1) \<Rightarrow>
               (let hdr = \<lparr>requestLength = blen req - of_nat request_header_size,
                           methodId = commandId, tag = t\<rparr> in
                case set_header hdr req of
                  (Inl e, _) \<Rightarrow> Some (Inl e, s1)
                | (Inr _, req') \<Rightarrow>
                    (let s2 = s1\<lparr>pendingRequests := om_adjust t (\<lambda>st. st\<lparr>maxResponseSize := max_size,
                                  rs_handle := Some h\<rparr>) (pendingRequests s1),
                                written := written s1 @ take (unat (blen req')) (content req'),
                                senders := (senders s1)(h \<mapsto> t)\<rparr> in
                     if length (pendingRequests s2) = 1 then
                       if currentWait s2 = None
                       then Some (Inr (), (wait_for_any_response s2)\<lparr>lock := False\<rparr>)
                       else Some (Inl (AssertFailed ''previous currentWaitForResponseCoroutine must be freed''), s2)
                     else Some (Inr (), s2\<lparr>lock := False\<rparr>)))))"

text \<open>
  \<open>sendRequest\<close> after it was scheduled: its entry is the one with tag \<open>t\<close>.  The header is copied out
  of the entry through a reference after the entry may have been erased.
\<close>

definition send_finish :: "u16 \<Rightarrow> client \<Rightarrow> ((err + response_header) \<times> client) option" where
  "send_finish t s =
     (if lock s then None
      else
        (case resume_wait (s\<lparr>lock := True\<rparr>) of
           (Inl e, s1) \<Rightarrow> Some (Inl e, s1)
         | (Inr _, s1) \<Rightarrow>
             (case map_of (pendingRequests s1) t of
                None \<Rightarrow> Some (Inl (UB UseAfterErase), s1)
              | Some st \<Rightarrow>
                  (let s2 = (if responseLen (rs_header st) = 0 then erase_request t s1 else s1)
                             \<lparr>lock := False\<rparr> in
                   case map_of (pendingRequests s2) t of
                     None \<Rightarrow> Some (Inl (UB UseAfterErase), s2)
                   | Some st' \<Rightarrow> Some (Inr (rs_header st'), s2)))))"

text \<open>
  \<open>rawRead(data, size)\<close> of part of a response body: the assertions, and what follows once the
  transport has the bytes.
\<close>

definition raw_read_body :: "u32 \<Rightarrow> client \<Rightarrow> ((err + unit) \<times> client) option" where
  "raw_read_body sz s =
     (if \<not> sz \<le> unreadResponseLength s
      then Some (Inl (AssertFailed ''read request must not exceed remainder size''), s)
      else if \<not> 0 < unreadResponseLength s
      then Some (Inl (AssertFailed ''there must be some unread remainder''), s)
      else
        (let s1 = s\<lparr>unreadResponseLength := unreadResponseLength s - sz\<rparr> in
         if unreadResponseLength s1 = 0 then
           if lock s1 then None
           else
             (case resume_wait (s1\<lparr>lock := True\<rparr>) of
                (Inl e, s2) \<Rightarrow> Some (Inl e, s2)
              | (Inr _, s2) \<Rightarrow>
                  Some (Inr (), (erase_request (unreadResponseTag s2) s2)\<lparr>lock := False\<rparr>))
         else Some (Inr (), s1)))"

subsection \<open>Interleavings\<close>

text \<open>
  Senders are fresh coroutines with a complete request in a \<open>RequestBuffer\<close>; a scheduled sender runs
  once; the body of a response is read after the sender that got its header has gone on, with any size,
  also where no body is left.
\<close>

datatype client_event =
    Send handle u8 buffer u32 | Response response_header | ReadFailed | Resume handle | ReadBody u32

definition request_ready :: "buffer \<Rightarrow> bool" where
  "request_ready req \<longleftrightarrow> buf_ok req \<and> bdata req \<noteq> None \<and> request_header_size \<le> unat (blen req)"

definition client_do :: "client_event \<Rightarrow> client \<Rightarrow> ((err + unit) \<times> client) option" where
  "client_do e s =
     (case e of
        Send h c req n \<Rightarrow>
          if senders s h = None \<and> request_ready req then send_request h c req n s else None
      | Response rh \<Rightarrow> if currentWait s = Some Reading then Some (on_response_header rh s) else None
      | ReadFailed \<Rightarrow>
          if currentWait s = Some Reading then Some (wait_failed ClosedTransportException s) else None
      | Resume h \<Rightarrow>
          if h \<in> set (woken s)
          then (case send_finish (the (senders s h)) (s\<lparr>woken := remove1 h (woken s)\<rparr>) of
                  None \<Rightarrow> None
                | Some (Inl x, t) \<Rightarrow> Some (Inl x, t)
                | Some (Inr _, t) \<Rightarrow> Some (Inr (), t))
          else None
      | ReadBody n \<Rightarrow> if currentWait s \<noteq> Some Delivered then raw_read_body n s else None)"

inductive client_reach :: "client \<Rightarrow> bool" where
  init: "client_reach client_new"
| step: "client_reach s \<Longrightarrow> client_do e s = Some (r, t) \<Longrightarrow> client_reach t"

fun client_run :: "client_event list \<Rightarrow> client \<Rightarrow> client option" where
  "client_run [] s = Some s"
| "client_run (e # es) s =
     (case client_do e s of None \<Rightarrow> None | Some (r, t) \<Rightarrow> client_run es t)"

lemma client_run_reach: "client_reach s \<Longrightarrow> client_run es s = Some t \<Longrightarrow> client_reach t"
  by (induction es arbitrary: s) (auto split: option.splits intro: client_reach.step)

subsection \<open>Tags\<close>

lemma first_free_least:
  "first_free m i = Some k \<Longrightarrow>
     i \<le> k \<and> k < UINT16_MAX \<and> map_of m (of_nat k) = None \<and>
     (\<forall>j. i \<le> j \<longrightarrow> j < k \<longrightarrow> map_of m (of_nat j) \<noteq> None)"
proof (induction m i rule: first_free.induct)
  case (1 m i)
  show ?case
  proof (cases "i < UINT16_MAX \<and> map_of m (of_nat i) \<noteq> None")
    case True
    with 1 have "Suc i \<le> k \<and> k < UINT16_MAX \<and> map_of m (of_nat k) = None \<and>
        (\<forall>j. Suc i \<le> j \<longrightarrow> j < k \<longrightarrow> map_of m (of_nat j) \<noteq> None)"
      by (subst (asm) (2) first_free.simps) auto
    with True show ?thesis by (metis Suc_leD Suc_leI le_neq_implies_less)
  next
    case False
    with "1.prems" show ?thesis
      by (subst (asm) first_free.simps) (auto split: if_splits)
  qed
qed

lemma first_free_None:
  "first_free m i = None \<Longrightarrow> i \<le> j \<Longrightarrow> j < UINT16_MAX \<Longrightarrow> map_of m (of_nat j) \<noteq> None"
proof (induction m i rule: first_free.induct)
  case (1 m i)
  from "1.prems"(2,3) have i: "i < UINT16_MAX" by simp
  with "1.prems"(1) have "map_of m (of_nat i) \<noteq> None" "first_free m (Suc i) = None"
    by (subst (asm) first_free.simps, simp split: if_splits)+
  with "1.IH" "1.prems" i show ?case by (cases "i = j") auto
qed

lemma u16_of_nat_inj: "inj_on (of_nat :: nat \<Rightarrow> u16) {..<UINT16_MAX}"
proof (rule inj_onI)
  fix a b assume "a \<in> {..<UINT16_MAX}" "b \<in> {..<UINT16_MAX}" "(of_nat a :: u16) = of_nat b"
  then have "unat (of_nat a :: u16) = unat (of_nat b :: u16)" "a < 65536" "b < 65536"
    by (simp_all add: UINT16_MAX_def)
  then show "a = b" by (simp add: unat_of_nat)
qed

lemma first_free_some:
  assumes "om_wf m" "length m < UINT16_MAX"
  shows "\<exists>k. first_free m 0 = Some k"
proof (rule ccontr)
  assume "\<not> ?thesis"
  then have n: "first_free m 0 = None" by simp
  have "card ((of_nat :: nat \<Rightarrow> u16) ` {..<UINT16_MAX}) = UINT16_MAX"
    using card_image [OF u16_of_nat_inj] by simp
  with om.free_key [OF assms(1), of "(of_nat :: nat \<Rightarrow> u16) ` {..<UINT16_MAX}"] assms(2)
  obtain j where "j < UINT16_MAX" "map_of m (of_nat j) = None" by auto
  with first_free_None [OF n, of j] show False by simp
qed

subsection \<open>The invariant\<close>

definition client_inv :: "client \<Rightarrow> bool" where
  "client_inv s \<longleftrightarrow>
     om_wf (pendingRequests s) \<and>
     (\<forall>t st. map_of (pendingRequests s) t = Some st \<longrightarrow>
        rs_tag st = t \<and> (\<exists>h. rs_handle st = Some h \<and> senders s h = Some t)) \<and>
     (pendingRequests s = [] \<longrightarrow> currentWait s = None) \<and>
     (unreadResponseLength s \<noteq> 0 \<longrightarrow>
        map_of (pendingRequests s) (unreadResponseTag s) \<noteq> None \<and>
        currentWait s \<noteq> Some Reading \<and> currentWait s \<noteq> Some Failed) \<and>
     (if currentWait s = Some Delivered
      then \<exists>h st. woken s = [h] \<and> senders s h = Some (unreadResponseTag s) \<and>
        map_of (pendingRequests s) (unreadResponseTag s) = Some st \<and>
        responseLen (rs_header st) = unreadResponseLength s \<and> rs_handle st = Some h
      else woken s = [])"

lemma client_invI:
  assumes "om_wf (pendingRequests s)"
    and "\<And>t st. map_of (pendingRequests s) t = Some st \<Longrightarrow>
      rs_tag st = t \<and> (\<exists>h. rs_handle st = Some h \<and> senders s h = Some t)"
    and "pendingRequests s = [] \<Longrightarrow> currentWait s = None"
    and "unreadResponseLength s \<noteq> 0 \<Longrightarrow>
      map_of (pendingRequests s) (unreadResponseTag s) \<noteq> None \<and> currentWait s \<noteq> Some Reading \<and>
      currentWait s \<noteq> Some Failed"
    and "currentWait s \<noteq> Some Delivered \<Longrightarrow> woken s = []"
    and "currentWait s = Some Delivered \<Longrightarrow>
      \<exists>h st. woken s = [h] \<and> senders s h = Some (unreadResponseTag s) \<and>
        map_of (pendingRequests s) (unreadResponseTag s) = Some st \<and>
        responseLen (rs_header st) = unreadResponseLength s \<and> rs_handle st = Some h"
  shows "client_inv s"
  using assms unfolding client_inv_def by auto

lemma client_invD:
  assumes "client_inv s"
  shows "om_wf (pendingRequests s)"
    and "map_of (pendingRequests s) t = Some st \<Longrightarrow>
      rs_tag st = t \<and> (\<exists>h. rs_handle st = Some h \<and> senders s h = Some t)"
    and "pendingRequests s = [] \<Longrightarrow> currentWait s = None"
    and "unreadResponseLength s \<noteq> 0 \<Longrightarrow>
      map_of (pendingRequests s) (unreadResponseTag s) \<noteq> None \<and> currentWait s \<noteq> Some Reading \<and>
      currentWait s \<noteq> Some Failed"
    and "currentWait s \<noteq> Some Delivered \<Longrightarrow> woken s = []"
    and "currentWait s = Some Delivered \<Longrightarrow>
      \<exists>h st. woken s = [h] \<and> senders s h = Some (unreadResponseTag s) \<and>
        map_of (pendingRequests s) (unreadResponseTag s) = Some st \<and>
        responseLen (rs_header st) = unreadResponseLength s \<and> rs_handle st = Some h"
  using assms unfolding client_inv_def by auto

lemma client_inv_new: "client_inv client_new"
  by (rule client_invI) (simp_all add: client_new_def)

text \<open>The header is written in front of a complete request.\<close>

definition stamped :: "request_header \<Rightarrow> buffer \<Rightarrow> bytes" where
  "stamped hdr req = poke 0 (request_header_bytes hdr) (content req)"

definition sent_header :: "u8 \<Rightarrow> buffer \<Rightarrow> u16 \<Rightarrow> request_header" where
  "sent_header c req t =
     \<lparr>requestLength = blen req - of_nat request_header_size, methodId = c, tag = t\<rparr>"

lemma set_header_ready:
  assumes "request_ready req"
  shows "\<exists>req'. set_header hdr req = (Inr (), req') \<and>
    take (unat (blen req')) (content req') = stamped hdr req"
proof -
  from assms obtain m where m: "bdata req = Some m" "length m = unat (blen req)"
    "request_header_size \<le> length m"
    by (auto simp: request_ready_def buf_ok_def content_def)
  then show ?thesis
    by (simp add: set_header_def stamped_def content_def request_header_size_def)
qed

definition after_send :: "handle \<Rightarrow> u8 \<Rightarrow> buffer \<Rightarrow> u32 \<Rightarrow> u16 \<Rightarrow> client \<Rightarrow> client" where
  "after_send h c req n t s =
     s\<lparr>lock := False,
       pendingRequests := om_put t
         \<lparr>rs_header = \<lparr>responseLen = 0, rtag = 0\<rparr>, rs_handle = Some h, maxResponseSize = n, rs_tag = t\<rparr>
         (pendingRequests s),
       written := written s @ stamped (sent_header c req t) req,
       senders := (senders s)(h \<mapsto> t),
       currentWait := (if pendingRequests s = [] then Some Reading else currentWait s)\<rparr>"

lemma om_adjust_put:
  "om_wf m \<Longrightarrow> om_adjust k f (om_put k v m) = om_put k (f v) m"
  by (rule om_ext) (auto simp: fun_eq_iff)

lemma om_adjust_single: "om_adjust k f [(k, v)] = [(k, f v)]"
  by (simp add: om_adjust_def)

lemma om_put_length_1:
  assumes "om_wf m" "map_of m k = None"
  shows "length (om_put k v m) = 1 \<longleftrightarrow> m = []"
  using om.size_put_fresh [OF assms] by simp

text \<open>What sending does when it is possible: it throws, or it registers and writes the request.\<close>

lemma send_request_cases:
  assumes "client_inv s" "request_ready req" "send_request h c req n s = Some (r, s')"
  shows "(r = Inl (raise DataSerialisationException) \<and> s' = s \<and> boffset req \<noteq> blen req) \<or>
    (\<exists>k. r = Inr () \<and> first_free (pendingRequests s) 0 = Some k \<and> boffset req = blen req \<and>
      \<not> lock s \<and> s' = after_send h c req n (of_nat k) s)"
proof (cases "boffset req = blen req")
  case False
  with assms(3) show ?thesis by (auto simp: send_request_def assert_fully_used_def)
next
  case True
  note d = client_invD [OF assms(1)]
  from True assms(3) obtain k where k: "first_free (pendingRequests s) 0 = Some k" "\<not> lock s"
    by (auto simp: send_request_def assert_fully_used_def reserve_request_state_def Let_def
        split: option.splits if_splits)
  from first_free_least [OF k(1)] have free: "map_of (pendingRequests s) (of_nat k) = None" by blast
  from set_header_ready [OF assms(2), of "sent_header c req (of_nat k)"] obtain req' where
    q: "set_header (sent_header c req (of_nat k)) req = (Inr (), req')"
    "take (unat (blen req')) (content req') = stamped (sent_header c req (of_nat k)) req" by blast
  note one = om_put_length_1 [OF d(1) free]
  from assms(3) True k q one d(3)
  have "r = Inr () \<and> s' = after_send h c req n (of_nat k) s"
    by (auto simp: send_request_def assert_fully_used_def reserve_request_state_def Let_def
        sent_header_def om_adjust_put [OF d(1)] after_send_def wait_for_any_response_def
        request_state_default_def om_adjust_single split: if_splits)
  with True k show ?thesis by blast
qed

lemma client_inv_after_send:
  assumes "client_inv s" "senders s h = None" "map_of (pendingRequests s) t = None"
  shows "client_inv (after_send h c req n t s)"
proof -
  note d = client_invD [OF assms(1)]
  let ?t = "after_send h c req n t s"
  have p: "map_of (pendingRequests ?t) = (map_of (pendingRequests s))(t \<mapsto>
      \<lparr>rs_header = \<lparr>responseLen = 0, rtag = 0\<rparr>, rs_handle = Some h, maxResponseSize = n, rs_tag = t\<rparr>)"
    using d(1) by (simp add: after_send_def)
  show ?thesis
  proof (rule client_invI)
    show "om_wf (pendingRequests ?t)" using d(1) by (simp add: after_send_def)
    show "rs_tag st = t' \<and> (\<exists>h. rs_handle st = Some h \<and> senders ?t h = Some t')"
      if "map_of (pendingRequests ?t) t' = Some st" for t' st
    proof (cases "t' = t")
      case True
      with that show ?thesis unfolding p by (auto simp: after_send_def)
    next
      case False
      with that have "map_of (pendingRequests s) t' = Some st" unfolding p by simp
      from d(2) [OF this] obtain h' where h: "rs_tag st = t'" "rs_handle st = Some h'"
        "senders s h' = Some t'" by blast
      with assms(2) have "h' \<noteq> h" by auto
      with h show ?thesis by (simp add: after_send_def)
    qed
    show "currentWait ?t = None" if "pendingRequests ?t = []"
      using that p by (auto simp: fun_eq_iff dest: spec [of _ t])
    show "map_of (pendingRequests ?t) (unreadResponseTag ?t) \<noteq> None \<and> currentWait ?t \<noteq> Some Reading \<and>
        currentWait ?t \<noteq> Some Failed"
      if "unreadResponseLength ?t \<noteq> 0"
      using that d(4) unfolding p by (auto simp: after_send_def split: if_splits)
    show "woken ?t = []" if "currentWait ?t \<noteq> Some Delivered"
      using that d(3,5) by (auto simp: after_send_def split: if_splits)
    show "\<exists>h st. woken ?t = [h] \<and> senders ?t h = Some (unreadResponseTag ?t) \<and>
        map_of (pendingRequests ?t) (unreadResponseTag ?t) = Some st \<and>
        responseLen (rs_header st) = unreadResponseLength ?t \<and> rs_handle st = Some h"
      if "currentWait ?t = Some Delivered"
    proof -
      from that have "currentWait s = Some Delivered" by (simp add: after_send_def split: if_splits)
      from d(6) [OF this] obtain h' st where h: "woken s = [h']" "senders s h' = Some (unreadResponseTag s)"
        "map_of (pendingRequests s) (unreadResponseTag s) = Some st"
        "responseLen (rs_header st) = unreadResponseLength s" "rs_handle st = Some h'" by blast
      with assms(2,3) have "h' \<noteq> h" "unreadResponseTag s \<noteq> t" by auto
      with h show ?thesis unfolding p by (auto simp: after_send_def)
    qed
  qed
qed

lemma client_inv_send:
  assumes "client_inv s" "senders s h = None" "request_ready req"
    and "send_request h c req n s = Some (r, t)"
  shows "client_inv t"
  using send_request_cases [OF assms(1,3,4)] first_free_least client_inv_after_send [OF assms(1,2)]
    assms(1) by blast

lemma client_inv_failed:
  assumes "client_inv s" "currentWait s = Some Reading"
  shows "client_inv (s\<lparr>currentWait := Some Failed\<rparr>)"
  using client_invD [OF assms(1)] assms(2) by (intro client_invI) auto

lemma wait_failed_run:
  "wait_failed c s = (Inl (raise c), s\<lparr>currentWait := Some Failed\<rparr>)"
  by (simp add: wait_failed_def finish_threw_detached promise_new_def)

definition responded :: "response_header \<Rightarrow> handle \<Rightarrow> client \<Rightarrow> client" where
  "responded rh h s =
     s\<lparr>pendingRequests := om_adjust (rtag rh) (\<lambda>st. st\<lparr>rs_header := rh\<rparr>) (pendingRequests s),
       unreadResponseLength := responseLen rh, unreadResponseTag := rtag rh,
       currentWait := Some Delivered, woken := woken s @ [h]\<rparr>"

lemma on_response_header_run:
  assumes "client_inv s"
  shows "map_of (pendingRequests s) (rtag rh) = None \<Longrightarrow>
      on_response_header rh s = (Inl (raise UnknownResponseException), s\<lparr>currentWait := Some Failed\<rparr>)"
    and "map_of (pendingRequests s) (rtag rh) = Some st \<Longrightarrow>
      \<exists>h. rs_handle st = Some h \<and> senders s h = Some (rtag rh) \<and>
        on_response_header rh s = (Inr (), responded rh h s)"
  using client_invD(2) [OF assms, of "rtag rh" st]
  by (auto simp: on_response_header_def wait_failed_run responded_def)

lemma client_inv_responded:
  assumes "client_inv s" "currentWait s = Some Reading"
    and "map_of (pendingRequests s) (rtag rh) = Some st" "rs_handle st = Some h"
    and "senders s h = Some (rtag rh)"
  shows "client_inv (responded rh h s)"
proof -
  note d = client_invD [OF assms(1)]
  let ?t = "responded rh h s"
  have p: "map_of (pendingRequests ?t) =
      (map_of (pendingRequests s))(rtag rh \<mapsto> st\<lparr>rs_header := rh\<rparr>)"
    using assms(3) by (simp add: responded_def)
  show ?thesis
  proof (rule client_invI)
    show "om_wf (pendingRequests ?t)" using d(1) by (simp add: responded_def)
    show "rs_tag st' = t' \<and> (\<exists>h. rs_handle st' = Some h \<and> senders ?t h = Some t')"
      if "map_of (pendingRequests ?t) t' = Some st'" for t' st'
      using that d(2) [of t' st'] d(2) [OF assms(3)] unfolding p
      by (auto simp: responded_def split: if_splits)
    show "currentWait ?t = None" if "pendingRequests ?t = []"
      using that d(3) assms(2) by (simp add: responded_def)
    show "\<exists>h st. woken ?t = [h] \<and> senders ?t h = Some (unreadResponseTag ?t) \<and>
        map_of (pendingRequests ?t) (unreadResponseTag ?t) = Some st \<and>
        responseLen (rs_header st) = unreadResponseLength ?t \<and> rs_handle st = Some h"
      unfolding p using d(5) assms(2,4,5) by (simp add: responded_def)
  qed (simp_all add: responded_def assms(3))
qed

text \<open>A scheduled sender finds the coroutine it has to resume; what it leaves behind.\<close>

definition after_finish :: "u16 \<Rightarrow> client \<Rightarrow> client" where
  "after_finish t s =
     (if unreadResponseLength s = 0
      then (erase_request t (s\<lparr>woken := [], currentWait := None\<rparr>))\<lparr>lock := False\<rparr>
      else s\<lparr>woken := [], currentWait := None, lock := False\<rparr>)"

lemma resume_cases:
  assumes "client_inv s" "h \<in> set (woken s)"
    and "send_finish (the (senders s h)) (s\<lparr>woken := remove1 h (woken s)\<rparr>) = Some (r, s')"
  obtains st where "currentWait s = Some Delivered" "woken s = [h]"
    "senders s h = Some (unreadResponseTag s)"
    "map_of (pendingRequests s) (unreadResponseTag s) = Some st"
    "responseLen (rs_header st) = unreadResponseLength s"
    "r = (if unreadResponseLength s = 0 then Inl (UB UseAfterErase) else Inr (rs_header st))"
    "s' = after_finish (unreadResponseTag s) s" "\<not> lock s"
proof -
  have w: "currentWait s = Some Delivered"
    using client_invD(5) [OF assms(1)] assms(2) by (metis empty_iff empty_set)
  from client_invD(6) [OF assms(1) this] assms(2) obtain st where
    d: "woken s = [h]" "senders s h = Some (unreadResponseTag s)"
    "map_of (pendingRequests s) (unreadResponseTag s) = Some st"
    "responseLen (rs_header st) = unreadResponseLength s" by auto
  from assms(3) have l: "\<not> lock s" by (auto simp: send_finish_def)
  from assms(3) w d l
  have "r = (if unreadResponseLength s = 0 then Inl (UB UseAfterErase) else Inr (rs_header st)) \<and>
      s' = after_finish (unreadResponseTag s) s"
    by (auto simp: send_finish_def resume_wait_def Let_def after_finish_def erase_request_def
        wait_for_any_response_def split: if_splits)
  with that [OF w d] l show thesis by blast
qed

lemma client_inv_finish:
  assumes "client_inv s" "currentWait s = Some Delivered"
  shows "client_inv (after_finish (unreadResponseTag s) s)"
proof -
  note d = client_invD [OF assms(1)]
  show ?thesis
  proof (cases "unreadResponseLength s = 0")
    case True
    show ?thesis
      by (rule client_invI)
        (use d(1,2) True in \<open>auto simp: after_finish_def erase_request_def wait_for_any_response_def
          Let_def split: if_splits\<close>)
  next
    case False
    show ?thesis
      by (rule client_invI) (use d(1,2,4) False in \<open>auto simp: after_finish_def\<close>)
  qed
qed

text \<open>
  Reading a body: a size beyond what is left fails an assertion; reading to the end finds no coroutine
  to resume.
\<close>

definition misread :: "u32 \<Rightarrow> client \<Rightarrow> bool" where
  "misread n s \<longleftrightarrow> unreadResponseLength s < n \<or> unreadResponseLength s = 0"

lemma raw_read_body_misread:
  "misread n s \<Longrightarrow> raw_read_body n s =
     Some (Inl (AssertFailed (if unreadResponseLength s < n
       then ''read request must not exceed remainder size'' else ''there must be some unread remainder'')), s)"
  by (auto simp: raw_read_body_def misread_def word_gt_0 not_less)

lemma raw_read_body_cases:
  assumes "client_inv s" "currentWait s \<noteq> Some Delivered" "\<not> misread n s"
    and "raw_read_body n s = Some (r, t)"
  shows "(n < unreadResponseLength s \<and> r = Inr () \<and>
      t = s\<lparr>unreadResponseLength := unreadResponseLength s - n\<rparr>) \<or>
    (n = unreadResponseLength s \<and> r = Inl (UB NullCoroutine) \<and>
      t = s\<lparr>unreadResponseLength := 0, lock := True, currentWait := None\<rparr>)"
proof -
  from assms(3) have l: "unreadResponseLength s \<noteq> 0" "n \<le> unreadResponseLength s" by (simp_all add: misread_def not_less)
  with client_invD(4) [OF assms(1)] assms(2) have c: "currentWait s = None"
    by (cases "currentWait s") (auto intro: wait_phase.exhaust)
  have "0 < unreadResponseLength s" using l(1) by (simp add: word_gt_0)
  moreover have "unreadResponseLength s - n = 0 \<longleftrightarrow> n = unreadResponseLength s" by auto
  ultimately show ?thesis
    using assms(4) l c by (auto simp: raw_read_body_def Let_def resume_wait_def split: if_splits)
qed

lemma client_inv_body:
  assumes "client_inv s" "currentWait s \<noteq> Some Delivered" "raw_read_body n s = Some (r, t)"
  shows "client_inv t"
proof (cases "misread n s")
  case True
  with raw_read_body_misread [OF True] assms(1,3) show ?thesis by simp
next
  case False
  note d = client_invD [OF assms(1)]
  from False have "unreadResponseLength s \<noteq> 0" by (auto simp: misread_def)
  with d(4) have u: "map_of (pendingRequests s) (unreadResponseTag s) \<noteq> None \<and>
    currentWait s \<noteq> Some Reading \<and> currentWait s \<noteq> Some Failed" by blast
  from raw_read_body_cases [OF assms(1,2) False assms(3)] show ?thesis
  proof (elim disjE conjE)
    assume "t = s\<lparr>unreadResponseLength := unreadResponseLength s - n\<rparr>"
    then show ?thesis
      using d(1,2,3,5) u assms(2) by (intro client_invI) auto
  next
    assume "t = s\<lparr>unreadResponseLength := 0, lock := True, currentWait := None\<rparr>"
    then show ?thesis using d(1,2,5) assms(2) by (intro client_invI) auto
  qed
qed

lemma client_inv_do:
  assumes "client_inv s" "client_do e s = Some (r, t)"
  shows "client_inv t"
proof (cases e)
  case (Send h c req n)
  with assms show ?thesis by (auto simp: client_do_def split: if_splits intro: client_inv_send)
next
  case (Response rh)
  with assms(2) have w: "currentWait s = Some Reading" "on_response_header rh s = (r, t)"
    by (simp_all add: client_do_def split: if_splits)
  show ?thesis
  proof (cases "map_of (pendingRequests s) (rtag rh)")
    case None
    with on_response_header_run(1) [OF assms(1) None] w client_inv_failed [OF assms(1) w(1)]
    show ?thesis by simp
  next
    case (Some st)
    with on_response_header_run(2) [OF assms(1) Some] w client_inv_responded [OF assms(1) w(1) Some]
    show ?thesis by auto
  qed
next
  case ReadFailed
  with assms show ?thesis
    by (auto simp: client_do_def wait_failed_run split: if_splits intro: client_inv_failed)
next
  case (Resume h)
  with assms(2) obtain q where q: "h \<in> set (woken s)"
    "send_finish (the (senders s h)) (s\<lparr>woken := remove1 h (woken s)\<rparr>) = Some (q, t)"
    by (auto simp: client_do_def split: if_splits option.splits prod.splits sum.splits)
  from resume_cases [OF assms(1) q] have "currentWait s = Some Delivered"
    "t = after_finish (unreadResponseTag s) s" by blast+
  with client_inv_finish [OF assms(1)] show ?thesis by simp
next
  case (ReadBody n)
  with assms show ?thesis by (auto simp: client_do_def split: if_splits intro: client_inv_body)
qed

lemma client_inv_reach: "client_reach s \<Longrightarrow> client_inv s"
  by (induction rule: client_reach.induct) (auto intro: client_inv_new client_inv_do)

subsection \<open>What the client guarantees\<close>

text \<open>
  Every request has a tag of its own.  In every reachable state with fewer than 65535 requests
  outstanding, reserving gives the least tag not in use, which is below 65535, and keeps all other
  entries; in no reachable state do two outstanding requests belong to the same coroutine, and each
  entry carries the tag it is stored under.
\<close>

lemma client_tags:
  assumes "client_reach s" "length (pendingRequests s) < UINT16_MAX" "\<not> lock s"
  shows "(\<exists>k t. reserve_request_state s = Some (Some (of_nat k), t) \<and> k < UINT16_MAX \<and>
      map_of (pendingRequests s) (of_nat k) = None \<and>
      (\<forall>j<k. map_of (pendingRequests s) (of_nat j) \<noteq> None) \<and>
      (\<forall>q. q \<noteq> of_nat k \<longrightarrow> map_of (pendingRequests t) q = map_of (pendingRequests s) q)) \<and>
    (\<forall>p q st st'. map_of (pendingRequests s) p = Some st \<longrightarrow> map_of (pendingRequests s) q = Some st' \<longrightarrow>
      rs_tag st = p \<and> rs_handle st \<noteq> None \<and> (rs_handle st = rs_handle st' \<longrightarrow> p = q))"
proof -
  have i: "client_inv s" using client_inv_reach [OF assms(1)] .
  note wf = client_invD(1) [OF i]
  from first_free_some [OF wf assms(2)] obtain k where k: "first_free (pendingRequests s) 0 = Some k"
    by blast
  from first_free_least [OF k] k assms(2,3) wf
  have "\<exists>k t. reserve_request_state s = Some (Some (of_nat k), t) \<and> k < UINT16_MAX \<and>
      map_of (pendingRequests s) (of_nat k) = None \<and>
      (\<forall>j<k. map_of (pendingRequests s) (of_nat j) \<noteq> None) \<and>
      (\<forall>q. q \<noteq> of_nat k \<longrightarrow> map_of (pendingRequests t) q = map_of (pendingRequests s) q)"
    by (intro exI [of _ k]) (simp add: reserve_request_state_def)
  moreover have "rs_tag st = p \<and> rs_handle st \<noteq> None \<and> (rs_handle st = rs_handle st' \<longrightarrow> p = q)"
    if "map_of (pendingRequests s) p = Some st" "map_of (pendingRequests s) q = Some st'" for p q st st'
    using client_invD(2) [OF i that(1)] client_invD(2) [OF i that(2)] by auto
  ultimately show ?thesis by blast
qed

lemma client_tags_witness:
  "\<exists>k t. reserve_request_state client_new = Some (Some (of_nat k), t) \<and> k < UINT16_MAX"
  using client_tags [OF client_reach.init] by (auto simp: client_new_def UINT16_MAX_def)

text \<open>
  C13: a request goes out as one well-formed message.  When a coroutine sends a request in a buffer
  that is full, the bytes written are the buffer with its first seven bytes replaced by the header
  with the length of the rest, the method and the tag reserved, a message the server frames exactly;
  the sender is registered under that tag.  A buffer that is not full sends nothing.
\<close>

theorem client_sends_message:
  assumes "client_reach s" "senders s h = None" "request_ready req"
    and "send_request h c req n s = Some (r, t)"
  shows "if boffset req = blen req
    then \<exists>k body. r = Inr () \<and> body = drop request_header_size (content req) \<and>
      written t = written s @ request_message
        (\<lparr>requestLength = of_nat (length body), methodId = c, tag = k\<rparr>, body) \<and>
      well_sized (\<lparr>requestLength = of_nat (length body), methodId = c, tag = k\<rparr>, body) \<and>
      map_of (pendingRequests s) k = None \<and>
      (\<exists>st. map_of (pendingRequests t) k = Some st \<and> rs_handle st = Some h \<and> rs_tag st = k \<and>
        maxResponseSize st = n)
    else r = Inl (raise DataSerialisationException) \<and> t = s"
proof -
  have i: "client_inv s" using client_inv_reach [OF assms(1)] .
  let ?body = "drop request_header_size (content req)"
  have len: "length (content req) = unat (blen req)" "7 \<le> unat (blen req)"
    using assms(3) by (simp_all add: request_ready_def buf_ok_def request_header_size_def)
  have l: "blen req - of_nat request_header_size = of_nat (length ?body)"
    using len by (simp add: request_header_size_def of_nat_diff)
  have m: "stamped (sent_header c req k) req = request_message
      (\<lparr>requestLength = of_nat (length ?body), methodId = c, tag = k\<rparr>, ?body)" for k
    using l by (simp add: stamped_def sent_header_def request_message_def poke_def
        request_header_size_def)
  have "unat (of_nat (length ?body) :: u32) = length ?body"
  proof -
    have "unat (blen req) < 2 ^ 32" using unsigned_less [where w = "blen req" and 'a = nat] by simp
    with len show ?thesis by (intro unat_of_nat_u32) (simp add: request_header_size_def)
  qed
  then have ws: "well_sized (\<lparr>requestLength = of_nat (length ?body), methodId = c, tag = k\<rparr>, ?body)" for k
    by (simp add: well_sized_def)
  from send_request_cases [OF i assms(3,4)] show ?thesis
  proof (elim disjE exE conjE)
    fix k assume k: "r = Inr ()" "first_free (pendingRequests s) 0 = Some k" "boffset req = blen req"
      "t = after_send h c req n (of_nat k) s"
    from first_free_least [OF k(2)] client_invD(1) [OF i] k m [of "of_nat k"] ws [of "of_nat k"]
    show ?thesis by (auto simp: after_send_def intro!: exI [of _ "of_nat k :: u16"])
  qed simp
qed

theorem client_sends_message_witness:
  "let req = \<lparr>bdata = Some [0, 0, 0, 0, 0, 0, 0, 42], blen = 8, boffset = 8\<rparr>;
       t = snd (the (send_request 1 CommandId_Ping req 100 client_new))
   in \<exists>k. written t = request_message (\<lparr>requestLength = 1, methodId = CommandId_Ping, tag = k\<rparr>, [42])"
proof -
  let ?req = "\<lparr>bdata = Some [0, 0, 0, 0, 0, 0, 0, 42], blen = 8, boffset = 8\<rparr> :: buffer"
  have q: "request_ready ?req"
    by (simp add: request_ready_def buf_ok_def content_def request_header_size_def)
  have "send_request 1 CommandId_Ping ?req 100 client_new \<noteq> None"
    using client_tags [OF client_reach.init]
    by (auto simp: send_request_def assert_fully_used_def client_new_def UINT16_MAX_def Let_def
        split: option.splits prod.splits sum.splits)
  then obtain r t where t: "send_request 1 CommandId_Ping ?req 100 client_new = Some (r, t)" by auto
  from client_sends_message [OF client_reach.init _ q t]
  have "\<exists>k. written t = request_message (\<lparr>requestLength = 1, methodId = CommandId_Ping, tag = k\<rparr>, [42])"
    by (auto simp: client_new_def content_def request_header_size_def)
  then show ?thesis unfolding Let_def t option.sel snd_conv .
qed


text \<open>
  A response wakes the coroutine that sent the request with its tag.  In every reachable state in
  which a header is awaited, a header with the tag of an outstanding request is stored in the entry of
  that tag and nowhere else, and exactly the coroutine registered there is scheduled; a header with
  any other tag schedules nobody, and the exception is thrown out of the reading coroutine.
\<close>

lemma client_dispatch:
  assumes "client_reach s" "currentWait s = Some Reading" "on_response_header rh s = (r, t)"
  shows "(\<forall>st. map_of (pendingRequests s) (rtag rh) = Some st \<longrightarrow>
      r = Inr () \<and> (\<exists>h. rs_handle st = Some h \<and> woken t = [h]) \<and>
      map_of (pendingRequests t) (rtag rh) = Some (st\<lparr>rs_header := rh\<rparr>) \<and>
      unreadResponseLength t = responseLen rh) \<and>
    (map_of (pendingRequests s) (rtag rh) = None \<longrightarrow>
      r = Inl (raise UnknownResponseException) \<and> woken t = []) \<and>
    (\<forall>q. q \<noteq> rtag rh \<longrightarrow> map_of (pendingRequests t) q = map_of (pendingRequests s) q)"
proof -
  have i: "client_inv s" using client_inv_reach [OF assms(1)] .
  have w: "woken s = []" using client_invD(5) [OF i] assms(2) by simp
  show ?thesis
  proof (cases "map_of (pendingRequests s) (rtag rh)")
    case None
    with on_response_header_run(1) [OF i None] assms(3) w show ?thesis by auto
  next
    case (Some st)
    with on_response_header_run(2) [OF i Some] assms(3) w show ?thesis by (auto simp: responded_def)
  qed
qed

definition full_ping :: buffer where
  "full_ping = \<lparr>bdata = Some [0, 0, 0, 0, 0, 0, 0], blen = 7, boffset = 7\<rparr>"

text \<open>The first request of a client, for the witnesses: it gets tag 0.\<close>

definition first_sent :: client where
  "first_sent = after_send 1 CommandId_Ping full_ping 100 0 client_new"

lemma first_sent_reach: "client_reach first_sent" "currentWait first_sent = Some Reading"
  "map_of (pendingRequests first_sent) 0 =
    Some \<lparr>rs_header = \<lparr>responseLen = 0, rtag = 0\<rparr>, rs_handle = Some 1, maxResponseSize = 100, rs_tag = 0\<rparr>"
proof -
  have q: "request_ready full_ping"
    by (simp add: request_ready_def buf_ok_def content_def request_header_size_def full_ping_def)
  obtain req' where "set_header \<lparr>requestLength = 0, methodId = CommandId_Ping, tag = 0\<rparr> full_ping = (Inr (), req')"
    using set_header_ready [OF q] by blast
  then have "send_request 1 CommandId_Ping full_ping 100 client_new \<noteq> None"
    by (simp add: send_request_def assert_fully_used_def reserve_request_state_def client_new_def
        first_free.simps UINT16_MAX_def Let_def full_ping_def request_header_size_def)
  then obtain r t where t: "send_request 1 CommandId_Ping full_ping 100 client_new = Some (r, t)" by auto
  have "first_free (pendingRequests client_new) 0 = Some 0"
    by (simp add: first_free.simps client_new_def UINT16_MAX_def)
  with send_request_cases [OF client_inv_new q t] have "t = first_sent"
    by (auto simp: first_sent_def full_ping_def)
  with t q have "client_do (Send 1 CommandId_Ping full_ping 100) client_new = Some (r, first_sent)"
    by (simp add: client_do_def client_new_def)
  then show "client_reach first_sent" by (rule client_reach.step [OF client_reach.init])
qed (simp_all add: first_sent_def after_send_def client_new_def)

lemma client_dispatch_witness:
  "woken (snd (on_response_header \<lparr>responseLen = 5, rtag = 0\<rparr> first_sent)) = [1]"
proof -
  obtain r t where t: "on_response_header \<lparr>responseLen = 5, rtag = 0\<rparr> first_sent = (r, t)" by fastforce
  from client_dispatch [OF first_sent_reach(1,2) t] first_sent_reach(3) t show ?thesis by auto
qed

definition first_answered :: "u32 \<Rightarrow> client" where
  "first_answered n = responded \<lparr>responseLen = n, rtag = 0\<rparr> 1 first_sent"

lemma first_answered_reach: "client_reach (first_answered n)"
proof -
  from on_response_header_run(2) [OF client_inv_reach [OF first_sent_reach(1)], of "\<lparr>responseLen = n, rtag = 0\<rparr>"]
    first_sent_reach(3)
  have "on_response_header \<lparr>responseLen = n, rtag = 0\<rparr> first_sent = (Inr (), first_answered n)"
    by (auto simp: first_answered_def)
  with first_sent_reach(2) have
    "client_do (Response \<lparr>responseLen = n, rtag = 0\<rparr>) first_sent = Some (Inr (), first_answered n)"
    by (simp add: client_do_def)
  then show ?thesis by (rule client_reach.step [OF first_sent_reach(1)])
qed

lemma first_answered_state:
  "woken (first_answered n) = [1]" "\<not> lock (first_answered n)"
  "unreadResponseLength (first_answered n) = n"
  by (simp_all add: first_answered_def responded_def first_sent_def after_send_def client_new_def)

text \<open>
  What a sender does when it wakes up.  In every reachable state a scheduled sender takes over
  the coroutine that read its header.  If the response is empty, it erases its entry, starts the next
  wait exactly if other requests are outstanding, and then reads the header it returns out of the
  erased entry; if the response has a body, it returns the header and leaves the entry in place.
\<close>

lemma client_resumes:
  assumes "client_reach s" "h \<in> set (woken s)" "\<not> lock s"
  shows "\<exists>r t. client_do (Resume h) s = Some (r, t) \<and> \<not> lock t \<and> woken t = [] \<and>
    (if unreadResponseLength s = 0
     then r = Inl (UB UseAfterErase) \<and>
       map_of (pendingRequests t) = (map_of (pendingRequests s))(unreadResponseTag s := None) \<and>
       currentWait t = (if pendingRequests t = [] then None else Some Reading)
     else r = Inr () \<and> pendingRequests t = pendingRequests s \<and> currentWait t = None)"
proof -
  have i: "client_inv s" using client_inv_reach [OF assms(1)] .
  have w: "currentWait s = Some Delivered"
    using client_invD(5) [OF i] assms(2) by (metis empty_iff empty_set)
  have "send_finish (the (senders s h)) (s\<lparr>woken := remove1 h (woken s)\<rparr>) \<noteq> None"
    using assms(3) w by (auto simp: send_finish_def resume_wait_def Let_def split: option.splits)
  then obtain r t where f:
    "send_finish (the (senders s h)) (s\<lparr>woken := remove1 h (woken s)\<rparr>) = Some (r, t)" by auto
  obtain st :: request_state where st:
    "r = (if unreadResponseLength s = 0 then Inl (UB UseAfterErase) else Inr (rs_header st))"
    "t = after_finish (unreadResponseTag s) s"
    using resume_cases [OF i assms(2) f] by blast
  with f assms(2) have
    "client_do (Resume h) s =
      Some (if unreadResponseLength s = 0 then Inl (UB UseAfterErase) else Inr (), t)"
    by (simp add: client_do_def)
  moreover have "map_of (pendingRequests t) =
      (map_of (pendingRequests s))(unreadResponseTag s := None)" if "unreadResponseLength s = 0"
  proof -
    have "pendingRequests t = om_erase (unreadResponseTag s) (pendingRequests s)"
      using that by (simp add: st(2) after_finish_def erase_request_def wait_for_any_response_def Let_def)
    then show ?thesis by simp
  qed
  moreover have "\<not> lock t" "woken t = []"
    "currentWait t = (if unreadResponseLength s = 0 \<and> pendingRequests t \<noteq> [] then Some Reading else None)"
    "unreadResponseLength s \<noteq> 0 \<longrightarrow> pendingRequests t = pendingRequests s"
    by (simp_all add: st(2) after_finish_def erase_request_def wait_for_any_response_def Let_def)
  ultimately show ?thesis by auto
qed

lemma client_resumes_witness:
  "\<exists>t. client_do (Resume 1) (first_answered 0) = Some (Inl (UB UseAfterErase), t)"
  using client_resumes [OF first_answered_reach, of 1 0] by (auto simp: first_answered_state)

text \<open>
  No body of a response can be read to its end.  In every reachable state, a \<open>rawRead\<close> that stops
  short of the end only counts down, and the one that reads the last byte resumes the coroutine
  member, which the sender has already moved out of: a null coroutine, with the mutex taken and the
  entry still there, so that nothing can be sent on the connection any more.
\<close>

lemma client_body_end:
  assumes "client_reach s" "currentWait s = None" "0 < n" "n \<le> unreadResponseLength s" "\<not> lock s"
  shows "if n < unreadResponseLength s
    then raw_read_body n s =
      Some (Inr (), s\<lparr>unreadResponseLength := unreadResponseLength s - n\<rparr>)
    else \<exists>t. raw_read_body n s = Some (Inl (UB NullCoroutine), t) \<and> lock t \<and>
      pendingRequests t = pendingRequests s \<and>
      (\<forall>h c req m. boffset req = blen req \<longrightarrow> send_request h c req m t = None)"
proof -
  have i: "client_inv s" using client_inv_reach [OF assms(1)] .
  have "raw_read_body n s \<noteq> None"
    using assms(5) by (auto simp: raw_read_body_def Let_def split: prod.splits sum.splits)
  then obtain r t where rt: "raw_read_body n s = Some (r, t)" by auto
  have no: "send_request h c req m t = None" if "lock t" "boffset req = blen req" for h c req m
    using that by (simp add: send_request_def assert_fully_used_def reserve_request_state_def)
  have "\<not> misread n s" "currentWait s \<noteq> Some Delivered" using assms(2-4) by (auto simp: misread_def)
  with raw_read_body_cases [OF i _ _ rt] assms(3) rt no show ?thesis by auto
qed

lemma first_resumed:
  "\<exists>s. client_do (Resume 1) (first_answered 5) = Some (Inr (), s) \<and> \<not> lock s \<and> currentWait s = None \<and>
     unreadResponseLength s = 5"
proof -
  from client_resumes [OF first_answered_reach, of 1 5] obtain s where s:
    "client_do (Resume 1) (first_answered 5) = Some (Inr (), s)" "\<not> lock s" "currentWait s = None"
    by (auto simp: first_answered_state)
  from s(1) obtain q where f: "send_finish (the (senders (first_answered 5) 1))
      (first_answered 5\<lparr>woken := remove1 1 (woken (first_answered 5))\<rparr>) = Some (q, s)"
    by (auto simp: client_do_def split: if_splits option.splits prod.splits sum.splits)
  have w: "1 \<in> set (woken (first_answered 5))" by (simp add: first_answered_state)
  have "s = after_finish (unreadResponseTag (first_answered 5)) (first_answered 5)"
    by (rule resume_cases [OF client_inv_reach [OF first_answered_reach] w f])
  then have "unreadResponseLength s = 5" by (simp add: after_finish_def first_answered_state)
  with s show ?thesis by blast
qed


lemma client_body_end_witness:
  "\<exists>s t. client_reach s \<and> unreadResponseLength s = 5 \<and>
    raw_read_body 5 s = Some (Inl (UB NullCoroutine), t)"
proof -
  from first_resumed obtain s where s: "client_do (Resume 1) (first_answered 5) = Some (Inr (), s)"
    "\<not> lock s" "currentWait s = None" and u: "unreadResponseLength s = 5" by blast
  have r: "client_reach s" by (rule client_reach.step [OF first_answered_reach s(1)])
  have p: "0 < (5 :: u32)" and l: "5 \<le> unreadResponseLength s"
    and g: "(5 < unreadResponseLength s) = False" by (simp_all add: u)
  from client_body_end [OF r s(3) p l s(2)] obtain t where
    "raw_read_body 5 s = Some (Inl (UB NullCoroutine), t)"
    unfolding g if_False by blast
  with r u show ?thesis by (intro exI conjI)
qed

end
