(* ===== verification/Rpc.thy ===== *)
theory Rpc
  imports Clients
begin

section \<open>A client and a server joined by a connection\<close>

text \<open>
  The two sides of the protocol composed: what \<open>ClientTransport\<close> writes is what \<open>ServerHandler\<close> reads
  and the other way round, each stream in order.  A step of the composition is one step of either
  side; a side reads a header or a body in one step, once all of its bytes have been written, which
  is what \<open>rawRead\<close> does (\<open>Sockets\<close>).  The invariant relates both sides and the bytes between them.
\<close>

subsection \<open>The connection\<close>

text \<open>
  \<open>up_read\<close> and \<open>down_read\<close> are the read positions in the two streams.  \<open>sent\<close> is a ghost: the
  messages the client wrote, each with the coroutine that sent it.
\<close>

record link =
  cl :: client
  sv :: server
  up_read :: nat
  down_read :: nat
  sent :: "(handle \<times> bytes) list"

definition link_new :: link where
  "link_new = \<lparr>cl = client_new, sv = server_new, up_read = 0, down_read = 0, sent = []\<rparr>"

definition server_part :: "(server \<Rightarrow> ((err + unit) \<times> server) option) \<Rightarrow> nat \<Rightarrow> link \<Rightarrow>
    ((err + unit) \<times> link) option" where
  "server_part f n k =
     (case f (sv k) of
        None \<Rightarrow> None
      | Some (r, s) \<Rightarrow> Some (r, k\<lparr>sv := s, up_read := up_read k + n\<rparr>))"

definition client_part :: "(client \<Rightarrow> ((err + unit) \<times> client) option) \<Rightarrow> nat \<Rightarrow> link \<Rightarrow>
    ((err + unit) \<times> link) option" where
  "client_part f n k =
     (case f (cl k) of
        None \<Rightarrow> None
      | Some (r, c) \<Rightarrow> Some (r, k\<lparr>cl := c, down_read := down_read k + n\<rparr>))"

text \<open>A message is noted as sent when bytes were written.\<close>

definition note_sent :: "handle \<Rightarrow> link \<Rightarrow> link \<Rightarrow> link" where
  "note_sent h k k' =
     (if written (cl k') = written (cl k) then k'
      else k'\<lparr>sent := sent k @ [(h, drop (length (written (cl k))) (written (cl k')))]\<rparr>)"

datatype link_event =
    Call handle u8 buffer u32     \<comment> \<open>a coroutine calls \<open>sendRequest\<close>\<close>
  | ReadHeader                    \<comment> \<open>the server has the header of the next request\<close>
  | ReadRequest                   \<comment> \<open>and its body\<close>
  | Handler nat                   \<comment> \<open>a step of a handler\<close>
  | ReadResponse                  \<comment> \<open>the client has the header of the next response\<close>
  | Wake handle                   \<comment> \<open>a scheduled sender runs on\<close>

text \<open>How many bytes of body the server is about to read.\<close>

definition body_length :: "server \<Rightarrow> nat option" where
  "body_length s =
     (case listener s of
        AwaitBody r \<Rightarrow> map_option (\<lambda>e. unat (requestLength (requestHeader e))) (nodes s r)
      | _ \<Rightarrow> None)"

definition link_do ::
    "(nat \<Rightarrow> u8) \<Rightarrow> link_event \<Rightarrow> link \<Rightarrow> ((err + unit) \<times> link) option" where
  "link_do fresh ev k =
     (case ev of
        Call h c req n \<Rightarrow>
          map_option (\<lambda>(r, k'). (r, note_sent h k k')) (client_part (client_do (Send h c req n)) 0 k)
      | ReadHeader \<Rightarrow>
          if up_read k + request_header_size \<le> length (written (cl k))
          then server_part (server_do fresh (Header
                 (request_header_of (peek (up_read k) request_header_size (written (cl k))))))
                 request_header_size k
          else None
      | ReadRequest \<Rightarrow>
          (case body_length (sv k) of
             None \<Rightarrow> None
           | Some n \<Rightarrow>
               if up_read k + n \<le> length (written (cl k))
               then server_part (server_do fresh (Body (peek (up_read k) n (written (cl k))))) n k
               else None)
      | Handler i \<Rightarrow> server_part (server_do fresh (Step i)) 0 k
      | ReadResponse \<Rightarrow>
          if down_read k + response_header_size \<le> length (wire (sv k))
          then client_part (client_do (Response
                 (response_header_of (peek (down_read k) response_header_size (wire (sv k))))))
                 response_header_size k
          else None
      | Wake h \<Rightarrow> client_part (client_do (Resume h)) 0 k)"

fun of_server :: "link_event \<Rightarrow> bool" where
  "of_server ReadHeader = True"
| "of_server ReadRequest = True"
| "of_server (Handler _) = True"
| "of_server _ = False"

text \<open>
  What is reachable as long as the server has not failed.  A failure of the client does not end the
  run: the client goes on with the state it left behind.
\<close>

inductive link_reach :: "(nat \<Rightarrow> u8) \<Rightarrow> link \<Rightarrow> bool" for fresh where
  init: "link_reach fresh link_new"
| step: "link_reach fresh k \<Longrightarrow> link_do fresh ev k = Some (r, k') \<Longrightarrow>
    (of_server ev \<Longrightarrow> r = Inr ()) \<Longrightarrow> link_reach fresh k'"

text \<open>A run: the results of its steps and the state after them.\<close>

fun link_run ::
    "(nat \<Rightarrow> u8) \<Rightarrow> link_event list \<Rightarrow> link \<Rightarrow> ((err + unit) list \<times> link) option" where
  "link_run fresh [] k = Some ([], k)"
| "link_run fresh (ev # evs) k =
     (case link_do fresh ev k of
        None \<Rightarrow> None
      | Some (r, k') \<Rightarrow> map_option (\<lambda>(rs, u). (r # rs, u)) (link_run fresh evs k'))"

subsection \<open>What the connection carries\<close>

definition msg_header :: "handle \<times> bytes \<Rightarrow> request_header" where
  "msg_header m = request_header_of (snd m)"

abbreviation msg_tag :: "handle \<times> bytes \<Rightarrow> u16" where
  "msg_tag m \<equiv> tag (msg_header m)"

definition stream_length :: "(handle \<times> bytes) list \<Rightarrow> nat" where
  "stream_length ms = length (concat (map snd ms))"

text \<open>The responses the client has read, by the handlers that wrote them; the calls without one.\<close>

definition delivered :: "link \<Rightarrow> nat list" where
  "delivered k = take (down_read k div response_header_size) (answered (sv k))"

definition undelivered :: "link \<Rightarrow> nat set" where
  "undelivered k = {j. j < length (sent k)} - set (delivered k)"

text \<open>A response has been read for the tag and its sender has not run on.\<close>

definition waking :: "client \<Rightarrow> u16 \<Rightarrow> bool" where
  "waking c t \<longleftrightarrow> currentWait c = Some Delivered \<and> unreadResponseTag c = t"

definition up_inv :: "link \<Rightarrow> bool" where
  "up_inv k \<longleftrightarrow>
     written (cl k) = concat (map snd (sent k)) \<and>
     (\<forall>m\<in>set (sent k). length (snd m) =
        request_header_size + unat (requestLength (msg_header m))) \<and>
     length (requests (sv k)) \<le> length (sent k) \<and>
     requests (sv k) = map msg_header (take (length (requests (sv k))) (sent k)) \<and>
     (case listener (sv k) of
        AwaitHeader \<Rightarrow> up_read k = stream_length (take (length (requests (sv k))) (sent k))
      | AwaitBody r \<Rightarrow>
          length (requests (sv k)) < length (sent k) \<and>
          up_read k = stream_length (take (length (requests (sv k))) (sent k)) + request_header_size \<and>
          (\<exists>e. nodes (sv k) r = Some e \<and>
             requestHeader e = msg_header (sent k ! length (requests (sv k))))
      | Stopped \<Rightarrow> False)"

definition down_inv :: "link \<Rightarrow> bool" where
  "down_inv k \<longleftrightarrow>
     response_header_size dvd down_read k \<and>
     down_read k div response_header_size \<le> length (answered (sv k))"

text \<open>Every request without a response belongs to one waiting call, and the other way round.\<close>

definition call_inv :: "link \<Rightarrow> bool" where
  "call_inv k \<longleftrightarrow>
     distinct (map fst (sent k)) \<and>
     (\<forall>m\<in>set (sent k). senders (cl k) (fst m) = Some (msg_tag m)) \<and>
     (\<forall>h. senders (cl k) h \<noteq> None \<longrightarrow> h \<in> fst ` set (sent k)) \<and>
     (\<forall>j\<in>undelivered k. \<exists>st. map_of (pendingRequests (cl k)) (msg_tag (sent k ! j)) = Some st \<and>
        rs_handle st = Some (fst (sent k ! j)) \<and> \<not> waking (cl k) (msg_tag (sent k ! j))) \<and>
     (\<forall>t. map_of (pendingRequests (cl k)) t \<noteq> None \<longrightarrow> waking (cl k) t \<or>
        (\<exists>j\<in>undelivered k. msg_tag (sent k ! j) = t))"

definition link_inv :: "link \<Rightarrow> bool" where
  "link_inv k \<longleftrightarrow>
     client_inv (cl k) \<and> \<not> lock (cl k) \<and> unreadResponseLength (cl k) = 0 \<and>
     currentWait (cl k) \<noteq> Some Failed \<and> (pendingRequests (cl k) \<noteq> [] \<longrightarrow> currentWait (cl k) \<noteq> None) \<and>
     server_inv (sv k) \<and> up_inv k \<and> down_inv k \<and> call_inv k"

subsection \<open>What the server leaves alone\<close>

lemma listen_header_frame:
  assumes "listen_header fresh rh s = Some (Inr (), t)"
  shows "requests t = requests s" "answered t = answered s" "wire t = wire s"
    "\<exists>r e. listener t = AwaitBody r \<and> nodes t r = Some e \<and> requestHeader e = rh"
proof -
  from assms obtain u where u:
    "collect_loop (finishedHandlers s) (s\<lparr>handlersKeepingLock := True\<rparr>) = Some (Inr (), u)"
    "t = accepted fresh rh u"
    by (rule listen_header_accepted)
  have "requests u = requests s \<and> answered u = answered s \<and> wire u = wire s"
    by (rule collect_loop_invariant
        [where P = "\<lambda>u. requests u = requests s \<and> answered u = answered s \<and> wire u = wire s", OF u(1)])
      (simp_all add: collected_frame)
  with u(2) show "requests t = requests s" "answered t = answered s" "wire t = wire s"
    "\<exists>r e. listener t = AwaitBody r \<and> nodes t r = Some e \<and> requestHeader e = rh"
    by (auto simp: accepted_def)
qed

lemma answered_below:
  assumes "server_inv s"
  shows "distinct (answered s)" "i \<in> set (answered s) \<Longrightarrow> i < length (requests s)"
    "wire s = concat (map (\<lambda>i. response_to (requests s ! i)) (answered s))"
  using assms node_invD(2) [of s] by (auto simp: server_inv_def answer_inv_def)

subsection \<open>Positions in the streams\<close>

lemma stream_length_simps [simp]:
  "stream_length [] = 0" "stream_length (ms @ ns) = stream_length ms + stream_length ns"
  "stream_length [m] = length (snd m)"
  by (simp_all add: stream_length_def)

lemma stream_take_Suc:
  "n < length ms \<Longrightarrow> stream_length (take (Suc n) ms) = stream_length (take n ms) + length (snd (ms ! n))"
  by (simp add: take_Suc_conv_app_nth)

text \<open>The bytes at an offset within the message that starts after the first \<open>n\<close>.\<close>

lemma peek_message:
  assumes "n < length ms" "off + m \<le> length (snd (ms ! n))"
  shows "peek (stream_length (take n ms) + off) m (concat (map snd ms)) = peek off m (snd (ms ! n))"
proof -
  have "ms = take n ms @ ms ! n # drop (Suc n) ms" using assms(1) by (rule id_take_nth_drop)
  then have "concat (map snd ms) =
      concat (map snd (take n ms)) @ snd (ms ! n) @ concat (map snd (drop (Suc n) ms))"
    by (metis concat.simps(2) concat_append list.simps(9) map_append)
  with assms(2) show ?thesis by (simp add: peek_def stream_length_def)
qed

lemma request_header_of_prefix:
  "7 \<le> length bs \<Longrightarrow> request_header_of (peek 0 7 bs) = request_header_of bs"
  by (simp add: request_header_of_def peek_def min_def drop_take)

lemma stream_more:
  assumes "stream_length (take n ms) + d \<le> length (concat (map snd ms))" "0 < d" "n \<le> length ms"
  shows "n < length ms"
proof (rule ccontr)
  assume "\<not> ?thesis"
  with assms(3) have "n = length ms" by simp
  with assms(1,2) show False by (simp add: stream_length_def)
qed

text \<open>The responses all have the size of a header.\<close>

lemma response_stream:
  fixes ixs :: "nat list"
  assumes "d * 6 + 6 \<le> length (concat (map (\<lambda>i. response_to (rq i)) ixs))"
  shows "d < length ixs \<and> response_header_of (peek (d * 6) 6 (concat (map (\<lambda>i. response_to (rq i)) ixs))) =
    \<lparr>responseLen = 0, rtag = tag (rq (ixs ! d))\<rparr>"
proof -
  have l: "length (concat (map (\<lambda>i. response_to (rq i)) js)) = length js * 6" for js :: "nat list"
    by (induction js) (simp_all add: response_to_def)
  with assms have d: "d < length ixs" by simp
  have "ixs = take d ixs @ ixs ! d # drop (Suc d) ixs" using d by (rule id_take_nth_drop)
  then have c: "concat (map (\<lambda>i. response_to (rq i)) ixs) =
      concat (map (\<lambda>i. response_to (rq i)) (take d ixs)) @ response_to (rq (ixs ! d)) @
      concat (map (\<lambda>i. response_to (rq i)) (drop (Suc d) ixs))"
    by (metis concat.simps(2) concat_append list.simps(9) map_append)
  from d have "length (concat (map (\<lambda>i. response_to (rq i)) (take d ixs))) = d * 6"
    by (simp add: l min_def)
  then have "peek (d * 6) 6 (concat (map (\<lambda>i. response_to (rq i)) ixs)) = response_to (rq (ixs ! d))"
    unfolding c by (intro peek_in_append) (simp_all add: response_to_def)
  with d response_header_of_bytes [of "\<lparr>responseLen = 0, rtag = tag (rq (ixs ! d))\<rparr>" "[]"]
  show ?thesis by (simp add: response_to_def)
qed

subsection \<open>Steps of the server\<close>

lemma link_invD:
  assumes "link_inv k"
  shows "client_inv (cl k)" "\<not> lock (cl k)" "unreadResponseLength (cl k) = 0"
    "currentWait (cl k) \<noteq> Some Failed"
    "pendingRequests (cl k) \<noteq> [] \<Longrightarrow> currentWait (cl k) \<noteq> None"
    "server_inv (sv k)" "up_inv k" "down_inv k" "call_inv k"
  using assms by (simp_all add: link_inv_def)

lemma delivered_extends:
  assumes "down_inv k" "answered s = answered (sv k) @ ys"
  shows "delivered (k\<lparr>sv := s, up_read := u\<rparr>) = delivered k"
  using assms by (simp add: delivered_def down_inv_def)

lemma link_inv_server:
  assumes "link_inv k" "server_do fresh e (sv k) = Some (Inr (), s)"
    and "answered s = answered (sv k) @ ys" "up_inv (k\<lparr>sv := s, up_read := u\<rparr>)"
  shows "link_inv (k\<lparr>sv := s, up_read := u\<rparr>)"
proof -
  note d = link_invD [OF assms(1)]
  let ?k = "k\<lparr>sv := s, up_read := u\<rparr>"
  have "undelivered ?k = undelivered k"
    using delivered_extends [OF d(8) assms(3)] by (simp add: undelivered_def)
  then have "call_inv ?k" using d(9) by (simp add: call_inv_def)
  moreover have "down_inv ?k" using d(8) assms(3) by (simp add: down_inv_def)
  moreover have "server_inv s" using server_inv_do [OF d(6) assms(2)] .
  ultimately show ?thesis using d assms(4) by (simp add: link_inv_def)
qed

lemma read_header_sound:
  assumes "link_inv k" "listener (sv k) = AwaitHeader"
    and "up_read k + request_header_size \<le> length (written (cl k))"
  shows "length (requests (sv k)) < length (sent k)"
    and "request_header_of (peek (up_read k) request_header_size (written (cl k))) =
      msg_header (sent k ! length (requests (sv k)))"
proof -
  let ?n = "length (requests (sv k))"
  from link_invD(7) [OF assms(1)] assms(2) have u: "written (cl k) = concat (map snd (sent k))"
    "up_read k = stream_length (take ?n (sent k))" "?n \<le> length (sent k)"
    "\<forall>m\<in>set (sent k). length (snd m) = request_header_size + unat (requestLength (msg_header m))"
    by (simp_all add: up_inv_def)
  from assms(3) u(1,2) stream_more [OF _ _ u(3), of 7] show n: "?n < length (sent k)"
    by (simp add: request_header_size_def)
  then have l: "7 \<le> length (snd (sent k ! ?n))"
    using u(4) by (simp add: request_header_size_def)
  with peek_message [OF n, of 0 7] request_header_of_prefix [OF l]
  show "request_header_of (peek (up_read k) request_header_size (written (cl k))) =
      msg_header (sent k ! ?n)"
    by (simp add: u(1,2) request_header_size_def msg_header_def)
qed

lemma link_inv_read_header:
  assumes "link_inv k" "link_do fresh ReadHeader k = Some (Inr (), k')"
  shows "link_inv k'" "answered (sv k') = answered (sv k)"
    "cl k' = cl k" "sent k' = sent k" "down_read k' = down_read k"
proof -
  let ?n = "length (requests (sv k))"
  let ?h = "request_header_of (peek (up_read k) request_header_size (written (cl k)))"
  from assms(2) obtain s where s: "up_read k + request_header_size \<le> length (written (cl k))"
    "listener (sv k) = AwaitHeader" "listen_header fresh ?h (sv k) = Some (Inr (), s)"
    "server_do fresh (Header ?h) (sv k) = Some (Inr (), s)"
    "k' = k\<lparr>sv := s, up_read := up_read k + request_header_size\<rparr>"
    by (auto simp: link_do_def server_part_def server_do_def split: if_splits option.splits prod.splits)
  note h = read_header_sound [OF assms(1) s(2,1)]
  note f = listen_header_frame [OF s(3)]
  from f(4) obtain r e where "listener s = AwaitBody r" "nodes s r = Some e" "requestHeader e = ?h"
    by blast
  with link_invD(7) [OF assms(1)] s(2) h f(1)
  have "up_inv (k\<lparr>sv := s, up_read := up_read k + request_header_size\<rparr>)"
    by (simp add: up_inv_def)
  with link_inv_server [OF assms(1) s(4), of "[]"] f(2) s(5) show "link_inv k'" by simp
  from s(5) f(2) show "answered (sv k') = answered (sv k)"
    "cl k' = cl k" "sent k' = sent k" "down_read k' = down_read k" by simp_all
qed

lemma link_inv_read_request:
  assumes "link_inv k" "link_do fresh ReadRequest k = Some (Inr (), k')"
  shows "link_inv k'" "answered (sv k') = answered (sv k)"
    "cl k' = cl k" "sent k' = sent k" "down_read k' = down_read k"
proof -
  let ?n = "length (requests (sv k))"
  from assms(2) obtain r e body s where s: "listener (sv k) = AwaitBody r" "nodes (sv k) r = Some e"
    "server_do fresh (Body body) (sv k) = Some (Inr (), s)"
    "k' = k\<lparr>sv := s, up_read := up_read k + unat (requestLength (requestHeader e))\<rparr>"
    by (auto simp: link_do_def server_part_def body_length_def
        split: if_splits option.splits prod.splits listener.splits)
  then have "listen_body body r (sv k) = (Inr (), s)" by (simp add: server_do_def)
  from listen_body_run [OF this] s(2) have f: "requests s = requests (sv k) @ [requestHeader e]"
    "answered s = answered (sv k)" "listener s = AwaitHeader"
    by auto
  from link_invD(7) [OF assms(1)] s(1,2) have u: "?n < length (sent k)"
    "up_read k = stream_length (take ?n (sent k)) + request_header_size"
    "requestHeader e = msg_header (sent k ! ?n)" "written (cl k) = concat (map snd (sent k))"
    "\<forall>m\<in>set (sent k). length (snd m) = request_header_size + unat (requestLength (msg_header m))"
    "requests (sv k) = map msg_header (take ?n (sent k))"
    by (simp_all add: up_inv_def)
  have "length (snd (sent k ! ?n)) = request_header_size + unat (requestLength (requestHeader e))"
    using u(1,3,5) by simp
  with stream_take_Suc [OF u(1)] u(2)
  have "up_read k' = stream_length (take (Suc ?n) (sent k))" by (simp add: s(4))
  moreover have "requests s = map msg_header (take (Suc ?n) (sent k))"
    unfolding f(1) using u(1,3,6) by (simp add: take_Suc_conv_app_nth)
  ultimately have "up_inv (k\<lparr>sv := s, up_read := up_read k + unat (requestLength (requestHeader e))\<rparr>)"
    using u(1,4,5) f(1,3) by (simp add: up_inv_def s(4))
  with link_inv_server [OF assms(1) s(3), of "[]"] f(2) s(4) show "link_inv k'" by simp
  from s(4) f(2) show "answered (sv k') = answered (sv k)"
    "cl k' = cl k" "sent k' = sent k" "down_read k' = down_read k" by simp_all
qed

lemma link_inv_handler:
  assumes "link_inv k" "link_do fresh (Handler i) k = Some (Inr (), k')"
  shows "link_inv k'" "answered (sv k') = answered (sv k) \<or> answered (sv k') = answered (sv k) @ [i]"
    "cl k' = cl k" "sent k' = sent k" "down_read k' = down_read k"
proof -
  from assms(2) obtain s where s: "handler_step fresh i (sv k) = Some (Inr (), s)"
    "server_do fresh (Step i) (sv k) = Some (Inr (), s)" "k' = k\<lparr>sv := s\<rparr>"
    by (auto simp: link_do_def server_part_def server_do_def split: if_splits option.splits)
  note f = handler_frame [OF s(1)]
  from link_invD(7) [OF assms(1)] f(1-3) have "up_inv (k\<lparr>sv := s, up_read := up_read k\<rparr>)"
    by (simp add: up_inv_def split: listener.splits)
  with link_inv_server [OF assms(1) s(2), of "[]" "up_read k"]
    link_inv_server [OF assms(1) s(2), of "[i]" "up_read k"] f(4)
  have "link_inv (k\<lparr>sv := s, up_read := up_read k\<rparr>)" by auto
  with s(3) show "link_inv k'" by simp
  from s(3) f(4) show "answered (sv k') = answered (sv k) \<or> answered (sv k') = answered (sv k) @ [i]"
    "cl k' = cl k" "sent k' = sent k" "down_read k' = down_read k" by simp_all
qed

subsection \<open>Steps of the client\<close>

lemma request_header_of_stamped:
  assumes "request_ready req"
  shows "request_header_of (stamped h req) = h"
    and "length (stamped h req) = unat (blen req)"
proof -
  from assms have "length (content req) = unat (blen req)" "7 \<le> length (content req)"
    by (auto simp: request_ready_def buf_ok_def content_def request_header_size_def)
  then show "request_header_of (stamped h req) = h" "length (stamped h req) = unat (blen req)"
    by (simp_all add: stamped_def poke_def)
qed

lemma link_do_call:
  assumes "link_inv k" "link_do fresh (Call h c req n) k = Some (r, k')"
  obtains (Incomplete) "r = Inl (raise DataSerialisationException)" "k' = k"
  | (Sent) i where "r = Inr ()" "first_free (pendingRequests (cl k)) 0 = Some i"
    "senders (cl k) h = None" "request_ready req"
    "k' = k\<lparr>cl := after_send h c req n (of_nat i) (cl k),
      sent := sent k @ [(h, stamped (sent_header c req (of_nat i)) req)]\<rparr>"
proof -
  from assms(2) obtain c' where c: "senders (cl k) h = None" "request_ready req"
    "send_request h c req n (cl k) = Some (r, c')" "k' = note_sent h k (k\<lparr>cl := c'\<rparr>)"
    by (auto simp: link_do_def client_part_def client_do_def split: if_splits option.splits)
  from send_request_cases [OF link_invD(1) [OF assms(1)] c(2,3)] show thesis
  proof (elim disjE exE conjE)
    assume a: "r = Inl (raise DataSerialisationException)" "c' = cl k"
    with c(4) have "k' = k" by (simp add: note_sent_def)
    with a(1) Incomplete show thesis by blast
  next
    fix i assume a: "r = Inr ()" "first_free (pendingRequests (cl k)) 0 = Some i"
      "c' = after_send h c req n (of_nat i) (cl k)"
    let ?b = "stamped (sent_header c req (of_nat i)) req"
    have "written c' = written (cl k) @ ?b" by (simp add: a(3) after_send_def)
    moreover have "?b \<noteq> []"
      using request_header_of_stamped(2) [OF c(2), of "sent_header c req (of_nat i)"] c(2)
      by (auto simp: request_ready_def request_header_size_def)
    ultimately have "k' = k\<lparr>cl := c', sent := sent k @ [(h, ?b)]\<rparr>"
      by (simp add: c(4) note_sent_def)
    with Sent [OF a(1,2) c(1,2)] a(3) show thesis by simp
  qed
qed

lemma delivered_below:
  "link_inv k \<Longrightarrow> j \<in> set (delivered k) \<Longrightarrow> j < length (sent k)"
  using answered_below(2) [of "sv k" j] link_invD(6,7) [of k]
  by (auto simp: delivered_def up_inv_def dest!: in_set_takeD)

lemma link_inv_sent:
  assumes "link_inv k" "first_free (pendingRequests (cl k)) 0 = Some i" "senders (cl k) h = None"
    and "request_ready req"
  shows "link_inv (k\<lparr>cl := after_send h c req n (of_nat i) (cl k),
      sent := sent k @ [(h, stamped (sent_header c req (of_nat i)) req)]\<rparr>)" (is "link_inv ?k")
proof -
  let ?t = "of_nat i :: u16" and ?b = "stamped (sent_header c req (of_nat i)) req"
  note d = link_invD [OF assms(1)]
  have free: "map_of (pendingRequests (cl k)) ?t = None"
    using first_free_least [OF assms(2)] by blast
  have hb: "request_header_of ?b = sent_header c req ?t" "length ?b = unat (blen req)"
    using request_header_of_stamped [OF assms(4)] by simp_all
  have lb: "length ?b = request_header_size + unat (requestLength (msg_header (h, ?b)))"
    using assms(4) hb unat_sub_fits [of "of_nat request_header_size" "blen req"]
    by (simp add: request_ready_def msg_header_def sent_header_def request_header_size_def
        word_le_nat_alt)
  have "up_inv ?k"
    using d(7) lb by (auto simp: up_inv_def after_send_def nth_append split: listener.splits)
  moreover have "call_inv ?k"
  proof -
    from d(9) have c: "distinct (map fst (sent k))"
      "\<forall>m\<in>set (sent k). senders (cl k) (fst m) = Some (msg_tag m)"
      "\<forall>h. senders (cl k) h \<noteq> None \<longrightarrow> h \<in> fst ` set (sent k)"
      "\<And>j. j \<in> undelivered k \<Longrightarrow> \<exists>st. map_of (pendingRequests (cl k)) (msg_tag (sent k ! j)) = Some st \<and>
        rs_handle st = Some (fst (sent k ! j)) \<and> \<not> waking (cl k) (msg_tag (sent k ! j))"
      "\<And>t. map_of (pendingRequests (cl k)) t \<noteq> None \<Longrightarrow> waking (cl k) t \<or>
        (\<exists>j\<in>undelivered k. msg_tag (sent k ! j) = t)"
      unfolding call_inv_def by blast+
    have un: "undelivered ?k = insert (length (sent k)) (undelivered k)"
      using delivered_below [OF assms(1), of "length (sent k)"]
      by (auto simp: undelivered_def delivered_def)
    have lt: "j < length (sent k)" if "j \<in> undelivered k" for j using that by (simp add: undelivered_def)
    have p: "map_of (pendingRequests (cl ?k)) = (map_of (pendingRequests (cl k)))(?t \<mapsto>
        \<lparr>rs_header = \<lparr>responseLen = 0, rtag = 0\<rparr>, rs_handle = Some h, maxResponseSize = n, rs_tag = ?t\<rparr>)"
      using client_invD(1) [OF d(1)] by (simp add: after_send_def)
    have tg: "msg_tag (h, ?b) = ?t" by (simp only: msg_header_def snd_conv hb(1)) (simp add: sent_header_def)
    have wk: "waking (cl ?k) t \<longleftrightarrow> waking (cl k) t" for t
      using client_invD(3) [OF d(1)] by (auto simp: waking_def after_send_def)
    have nw: "\<not> waking (cl k) ?t"
      using client_invD(6) [OF d(1)] free by (auto simp: waking_def)
    have h: "h \<notin> fst ` set (sent k)" using c(2) assms(3) by fastforce
    have "distinct (map fst (sent ?k))" using c(1) h by simp
    moreover have "\<forall>m\<in>set (sent ?k). senders (cl ?k) (fst m) = Some (msg_tag m)"
      using c(2) h tg by (auto simp: after_send_def)
    moreover have "\<forall>h. senders (cl ?k) h \<noteq> None \<longrightarrow> h \<in> fst ` set (sent ?k)"
      using c(3) by (simp add: after_send_def)
    moreover have "\<exists>st. map_of (pendingRequests (cl ?k)) (msg_tag (sent ?k ! j)) = Some st \<and>
        rs_handle st = Some (fst (sent ?k ! j)) \<and> \<not> waking (cl ?k) (msg_tag (sent ?k ! j))"
      if "j \<in> undelivered ?k" for j
    proof (cases "j = length (sent k)")
      case True
      then show ?thesis unfolding p wk using tg nw by simp
    next
      case False
      with that un have "j \<in> undelivered k" by simp
      with lt [OF this] c(4) [OF this] free show ?thesis
        unfolding p wk by (auto simp: nth_append)
    qed
    moreover have "waking (cl ?k) t \<or> (\<exists>j\<in>undelivered ?k. msg_tag (sent ?k ! j) = t)"
      if "map_of (pendingRequests (cl ?k)) t \<noteq> None" for t
    proof (cases "t = ?t")
      case True
      then show ?thesis unfolding un using tg by simp
    next
      case False
      with that have "map_of (pendingRequests (cl k)) t \<noteq> None" unfolding p by simp
      from c(5) [OF this] show ?thesis
      proof (elim disjE bexE)
        fix j assume j: "j \<in> undelivered k" "msg_tag (sent k ! j) = t"
        with lt [OF j(1)] show ?thesis unfolding un by (auto simp: nth_append)
      next
        assume "waking (cl k) t"
        with wk show ?thesis by blast
      qed
    qed
    ultimately show ?thesis unfolding call_inv_def by blast
  qed
  moreover have "client_inv (cl ?k)"
    using client_inv_after_send [OF d(1) assms(3) free] by simp
  moreover have "down_inv ?k" using d(8) by (simp add: down_inv_def)
  ultimately show ?thesis
    using d(3-6) by (auto simp: link_inv_def after_send_def)
qed

lemma link_do_wake:
  assumes "link_inv k" "link_do fresh (Wake h) k = Some (r, k')"
  shows "currentWait (cl k) = Some Delivered" "woken (cl k) = [h]"
    "senders (cl k) h = Some (unreadResponseTag (cl k))" "r = Inl (UB UseAfterErase)"
    "k' = k\<lparr>cl := after_finish (unreadResponseTag (cl k)) (cl k)\<rparr>"
proof -
  from assms(2) obtain c q where c: "h \<in> set (woken (cl k))" "k' = k\<lparr>cl := c\<rparr>"
    "send_finish (the (senders (cl k) h)) ((cl k)\<lparr>woken := remove1 h (woken (cl k))\<rparr>) = Some (q, c)"
    "q = Inl (UB UseAfterErase) \<Longrightarrow> r = Inl (UB UseAfterErase)"
    by (auto simp: link_do_def client_part_def client_do_def
        split: if_splits option.splits prod.splits sum.splits)
  from resume_cases [OF link_invD(1) [OF assms(1)] c(1,3)]
  have "currentWait (cl k) = Some Delivered \<and> woken (cl k) = [h] \<and>
      senders (cl k) h = Some (unreadResponseTag (cl k)) \<and> q = Inl (UB UseAfterErase) \<and>
      c = after_finish (unreadResponseTag (cl k)) (cl k)"
    using link_invD(3) [OF assms(1)] by auto
  with c(2,4) show "currentWait (cl k) = Some Delivered" "woken (cl k) = [h]"
    "senders (cl k) h = Some (unreadResponseTag (cl k))" "r = Inl (UB UseAfterErase)"
    "k' = k\<lparr>cl := after_finish (unreadResponseTag (cl k)) (cl k)\<rparr>"
    by blast+
qed

lemma link_inv_wake:
  assumes "link_inv k" "currentWait (cl k) = Some Delivered"
  shows "link_inv (k\<lparr>cl := after_finish (unreadResponseTag (cl k)) (cl k)\<rparr>)" (is "link_inv ?k")
proof -
  let ?t = "unreadResponseTag (cl k)"
  note d = link_invD [OF assms(1)]
  note wf = client_invD(1) [OF d(1)]
  have w: "waking (cl k) t \<longleftrightarrow> t = ?t" for t using assms(2) by (auto simp: waking_def)
  have f: "cl ?k = (erase_request ?t ((cl k)\<lparr>woken := [], currentWait := None\<rparr>))\<lparr>lock := False\<rparr>"
    using d(3) by (simp add: after_finish_def)
  have e: "pendingRequests (cl ?k) = om_erase ?t (pendingRequests (cl k))"
    by (simp add: f erase_request_def wait_for_any_response_def Let_def)
  have p: "map_of (pendingRequests (cl ?k)) = (map_of (pendingRequests (cl k)))(?t := None)"
    "senders (cl ?k) = senders (cl k)" "written (cl ?k) = written (cl k)"
    "currentWait (cl ?k) = (if pendingRequests (cl ?k) = [] then None else Some Reading)"
    unfolding e using wf by (simp_all add: f erase_request_def wait_for_any_response_def Let_def)
  have u: "undelivered ?k = undelivered k" by (simp add: undelivered_def delivered_def)
  have n: "\<not> waking (cl ?k) t" for t unfolding waking_def p(4) by simp
  note n = n [simplified]
  from d(9) have c:
    "\<And>j. j \<in> undelivered k \<Longrightarrow> \<exists>st. map_of (pendingRequests (cl k)) (msg_tag (sent k ! j)) = Some st \<and>
      rs_handle st = Some (fst (sent k ! j)) \<and> \<not> waking (cl k) (msg_tag (sent k ! j))"
    "\<And>t. map_of (pendingRequests (cl k)) t \<noteq> None \<Longrightarrow> waking (cl k) t \<or>
      (\<exists>j\<in>undelivered k. msg_tag (sent k ! j) = t)"
    unfolding call_inv_def by blast+
  have "call_inv ?k"
  proof -
    have "\<exists>st. map_of (pendingRequests (cl ?k)) (msg_tag (sent k ! j)) = Some st \<and>
        rs_handle st = Some (fst (sent k ! j)) \<and> \<not> waking (cl ?k) (msg_tag (sent k ! j))"
      if "j \<in> undelivered k" for j
      using c(1) [OF that] n [of "msg_tag (sent k ! j)"] unfolding p w by auto
    moreover have "\<exists>j\<in>undelivered k. msg_tag (sent k ! j) = t"
      if "map_of (pendingRequests (cl ?k)) t \<noteq> None" for t
      using that c(2) [of t] unfolding p w by (auto split: if_splits)
    moreover have "sent ?k = sent k" by simp
    ultimately show ?thesis using d(9) u unfolding call_inv_def p(2) by simp
  qed
  moreover have "client_inv (cl ?k)" using client_inv_finish [OF d(1) assms(2)] by simp
  moreover have "up_inv ?k" using d(7) p(3) by (simp add: up_inv_def split: listener.splits)
  moreover have "down_inv ?k" using d(8) by (simp add: down_inv_def)
  moreover have "\<not> lock (cl ?k)" "unreadResponseLength (cl ?k) = 0"
    using d(3) by (simp_all add: f erase_request_def wait_for_any_response_def Let_def)
  ultimately show ?thesis using d(6) p(4) by (simp add: link_inv_def)
qed

lemma request_sent:
  assumes "up_inv k" "i < length (requests (sv k))"
  shows "requests (sv k) ! i = msg_header (sent k ! i) \<and> i < length (sent k)"
proof -
  have e: "length (requests (sv k)) \<le> length (sent k)"
    "requests (sv k) = map msg_header (take (length (requests (sv k))) (sent k))"
    using assms(1) unfolding up_inv_def by blast+
  from e(2) have "requests (sv k) ! i = map msg_header (take (length (requests (sv k))) (sent k)) ! i"
    by (rule arg_cong)
  with e(1) assms(2) show ?thesis by simp
qed

text \<open>The response the client is about to read, and the call it belongs to.\<close>

lemma next_response:
  assumes "link_inv k" "down_read k + response_header_size \<le> length (wire (sv k))"
    and "currentWait (cl k) = Some Reading"
  obtains i st where "answered (sv k) ! (down_read k div response_header_size) = i"
    "down_read k div response_header_size < length (answered (sv k))"
    "i \<in> undelivered k"
    "response_header_of (peek (down_read k) response_header_size (wire (sv k))) =
      \<lparr>responseLen = 0, rtag = msg_tag (sent k ! i)\<rparr>"
    "map_of (pendingRequests (cl k)) (msg_tag (sent k ! i)) = Some st"
    "rs_handle st = Some (fst (sent k ! i))" "senders (cl k) (fst (sent k ! i)) = Some (msg_tag (sent k ! i))"
proof -
  note d = link_invD [OF assms(1)]
  note a = answered_below [OF d(6)]
  let ?d = "down_read k div 6"
  have dr: "down_read k = ?d * 6" using d(8) by (simp add: down_inv_def response_header_size_def)
  then have "?d * 6 + 6 \<le> length (wire (sv k))" using assms(2) by (simp add: response_header_size_def)
  from response_stream [OF this [unfolded a(3)]]
  have r: "?d < length (answered (sv k))"
    "response_header_of (peek (down_read k) 6 (wire (sv k))) =
      \<lparr>responseLen = 0, rtag = tag (requests (sv k) ! (answered (sv k) ! ?d))\<rparr>"
    using dr by (auto simp: a(3))
  let ?i = "answered (sv k) ! ?d"
  have i: "?i < length (requests (sv k))" using a(2) r(1) by simp
  from request_sent [OF d(7) i]
  have h: "requests (sv k) ! ?i = msg_header (sent k ! ?i)" "?i < length (sent k)" by blast+
  have "?i \<notin> set (take ?d (answered (sv k)))"
    using a(1) r(1) by (simp add: in_set_conv_nth nth_eq_iff_index_eq)
  with h(2) have u: "?i \<in> undelivered k"
    by (simp add: undelivered_def delivered_def response_header_size_def)
  with d(9) obtain st where "map_of (pendingRequests (cl k)) (msg_tag (sent k ! ?i)) = Some st"
    "rs_handle st = Some (fst (sent k ! ?i))"
    unfolding call_inv_def by blast
  moreover have "senders (cl k) (fst (sent k ! ?i)) = Some (msg_tag (sent k ! ?i))"
    using d(9) h(2) by (simp add: call_inv_def)
  moreover from r(2) have "response_header_of (peek (down_read k) 6 (wire (sv k))) =
      \<lparr>responseLen = 0, rtag = msg_tag (sent k ! ?i)\<rparr>"
    by (simp only: h(1))
  ultimately show thesis
    by - (rule that [of ?i st, unfolded response_header_size_def, OF refl r(1) u]; assumption)
qed

lemma link_do_response:
  assumes "link_inv k" "link_do fresh ReadResponse k = Some (r, k')"
  obtains i where "answered (sv k) ! (down_read k div response_header_size) = i"
    "down_read k div response_header_size < length (answered (sv k))"
    "i \<in> undelivered k" "r = Inr ()" "currentWait (cl k) = Some Reading"
    "k' = k\<lparr>cl := responded \<lparr>responseLen = 0, rtag = msg_tag (sent k ! i)\<rparr> (fst (sent k ! i)) (cl k),
      down_read := down_read k + response_header_size\<rparr>"
proof -
  let ?h = "response_header_of (peek (down_read k) response_header_size (wire (sv k)))"
  from assms(2) obtain c where c: "down_read k + response_header_size \<le> length (wire (sv k))"
    "currentWait (cl k) = Some Reading" "on_response_header ?h (cl k) = (r, c)"
    "k' = k\<lparr>cl := c, down_read := down_read k + response_header_size\<rparr>"
    by (auto simp: link_do_def client_part_def client_do_def split: if_splits option.splits prod.splits)
  from next_response [OF assms(1) c(1,2)] obtain i st where
    i: "answered (sv k) ! (down_read k div response_header_size) = i"
    "down_read k div response_header_size < length (answered (sv k))"
    "i \<in> undelivered k" "?h = \<lparr>responseLen = 0, rtag = msg_tag (sent k ! i)\<rparr>"
    "map_of (pendingRequests (cl k)) (msg_tag (sent k ! i)) = Some st"
    "rs_handle st = Some (fst (sent k ! i))" .
  from on_response_header_run(2) [OF link_invD(1) [OF assms(1)], of ?h st] i(4,5,6) c(3)
  have "r = Inr ()" "c = responded ?h (fst (sent k ! i)) (cl k)" by auto
  with that [OF i(1,2,3) _ c(2)] c(4) i(4) show thesis by simp
qed

lemma delivered_more:
  assumes "answered (sv k) ! (down_read k div response_header_size) = i"
    and "down_read k div response_header_size < length (answered (sv k))"
  shows "delivered (k\<lparr>cl := c, down_read := down_read k + response_header_size\<rparr>) = delivered k @ [i]"
proof -
  have "(down_read k + 6) div 6 = Suc (down_read k div 6)" by simp
  with assms show ?thesis
    by (simp add: delivered_def response_header_size_def take_Suc_conv_app_nth)
qed

lemma link_inv_response:
  assumes "link_inv k" "link_do fresh ReadResponse k = Some (r, k')"
  shows "link_inv k'"
proof -
  from link_do_response [OF assms] obtain i where
    i: "answered (sv k) ! (down_read k div response_header_size) = i"
    "down_read k div response_header_size < length (answered (sv k))"
    "i \<in> undelivered k" "currentWait (cl k) = Some Reading"
    "k' = k\<lparr>cl := responded \<lparr>responseLen = 0, rtag = msg_tag (sent k ! i)\<rparr> (fst (sent k ! i)) (cl k),
      down_read := down_read k + response_header_size\<rparr>" .
  note d = link_invD [OF assms(1)]
  from d(9) have c: "distinct (map fst (sent k))"
    "\<forall>m\<in>set (sent k). senders (cl k) (fst m) = Some (msg_tag m)"
    "\<And>j. j \<in> undelivered k \<Longrightarrow> \<exists>st. map_of (pendingRequests (cl k)) (msg_tag (sent k ! j)) = Some st \<and>
      rs_handle st = Some (fst (sent k ! j)) \<and> \<not> waking (cl k) (msg_tag (sent k ! j))"
    "\<And>t. map_of (pendingRequests (cl k)) t \<noteq> None \<Longrightarrow> waking (cl k) t \<or>
      (\<exists>j\<in>undelivered k. msg_tag (sent k ! j) = t)"
    unfolding call_inv_def by blast+
  let ?t = "msg_tag (sent k ! i)" and ?h = "fst (sent k ! i)"
  from c(3) [OF i(3)] obtain st where
    st: "map_of (pendingRequests (cl k)) ?t = Some st" "rs_handle st = Some ?h" by blast
  have il: "i < length (sent k)" using i(3) by (simp add: undelivered_def)
  have p: "map_of (pendingRequests (cl k')) = (map_of (pendingRequests (cl k)))
      (?t \<mapsto> st\<lparr>rs_header := \<lparr>responseLen = 0, rtag = ?t\<rparr>\<rparr>)"
    using st(1) by (simp add: i(5) responded_def)
  have w: "waking (cl k') t \<longleftrightarrow> t = ?t" "\<not> waking (cl k) t" for t
    using i(4) by (auto simp: i(5) responded_def waking_def)
  have u: "undelivered k' = undelivered k - {i}"
    using delivered_more [OF i(1,2)] by (auto simp: undelivered_def i(5))
  have other: "msg_tag (sent k ! j) \<noteq> ?t" if "j \<in> undelivered k" "j \<noteq> i" for j
  proof
    assume e: "msg_tag (sent k ! j) = ?t"
    from c(3) [OF that(1)] st e have "fst (sent k ! j) = ?h" by auto
    moreover have "j < length (sent k)" using that(1) by (simp add: undelivered_def)
    ultimately show False
      using c(1) il that(2) by (metis distinct_conv_nth length_map nth_map)
  qed
  have s: "sent k' = sent k" "senders (cl k') = senders (cl k)" by (simp_all add: i(5) responded_def)
  have "call_inv k'"
  proof -
    have "\<exists>st. map_of (pendingRequests (cl k')) (msg_tag (sent k ! j)) = Some st \<and>
        rs_handle st = Some (fst (sent k ! j)) \<and> \<not> waking (cl k') (msg_tag (sent k ! j))"
      if "j \<in> undelivered k'" for j
      using that c(3) [of j] other [of j] unfolding u p w by auto
    moreover have "waking (cl k') t \<or> (\<exists>j\<in>undelivered k'. msg_tag (sent k ! j) = t)"
      if "map_of (pendingRequests (cl k')) t \<noteq> None" for t
      using that c(4) [of t] w(2) [of t] unfolding u p w(1) by (auto split: if_splits)
    ultimately show ?thesis using d(9) unfolding call_inv_def s by blast
  qed
  moreover have "client_inv (cl k')"
    using client_inv_responded [OF d(1) i(4), of "\<lparr>responseLen = 0, rtag = ?t\<rparr>" st ?h] st c(2) il
    by (simp add: i(5))
  moreover have "up_inv k'" using d(7) by (simp add: up_inv_def i(5) responded_def split: listener.splits)
  moreover have "down_inv k'"
    using d(8) i(2) by (simp add: down_inv_def i(5) response_header_size_def)
  ultimately show ?thesis using d(2-6) by (simp add: link_inv_def i(5) responded_def)
qed

lemma link_inv_new: "link_inv link_new"
  by (simp add: link_inv_def link_new_def client_inv_new server_inv_new up_inv_def down_inv_def
      call_inv_def undelivered_def client_new_def server_new_def)
    (simp add: client_inv_new [unfolded client_new_def] server_inv_new [unfolded server_new_def])

lemma link_inv_do:
  assumes "link_inv k" "link_do fresh ev k = Some (r, k')" "of_server ev \<Longrightarrow> r = Inr ()"
  shows "link_inv k'"
proof (cases ev)
  case (Call h c req n)
  with assms(2) have "link_do fresh (Call h c req n) k = Some (r, k')" by simp
  from assms(1) this show ?thesis by (rule link_do_call) (auto intro: link_inv_sent assms(1))
next
  case (Wake h)
  with link_do_wake [OF assms(1)] assms(2) link_inv_wake [OF assms(1)] show ?thesis by blast
next
  case ReadHeader
  with assms link_inv_read_header(1) [OF assms(1)] show ?thesis by simp
next
  case ReadRequest
  with assms link_inv_read_request(1) [OF assms(1)] show ?thesis by simp
next
  case (Handler i)
  with assms link_inv_handler(1) [OF assms(1)] show ?thesis by simp
next
  case ReadResponse
  with assms(2) link_inv_response [OF assms(1)] show ?thesis by simp
qed

lemma link_reach_inv: "link_reach fresh k \<Longrightarrow> link_inv k"
  by (induction rule: link_reach.induct) (auto intro: link_inv_new link_inv_do)

end
