(* ===== verification/Calls.thy ===== *)
theory Calls
  imports Rpc Nodes
begin

section \<open>Calls over a connection\<close>

text \<open>
  What the two sides of the protocol promise together.  The abstract specification is a table of
  calls: each goes through the phases \<open>Requested\<close>, \<open>Served\<close>, \<open>Notified\<close> and \<open>Returned\<close>, one step at
  a time and never back; the composition of \<open>Rpc\<close> refines it.  Then progress, and on top of the
  client \<open>sendSmallRequest\<close> and \<open>proto/ClientHandler\<close>.
\<close>

subsection \<open>The abstract specification\<close>

text \<open>
  The calls in the order they were made.  At most one caller at a time has been woken and has not run
  on.
\<close>

datatype call_phase = Requested | Served | Notified | Returned

inductive spec_step :: "call_phase list \<Rightarrow> call_phase list \<Rightarrow> bool" where
  issue: "spec_step cs (cs @ [Requested])"
| serve: "j < length cs \<Longrightarrow> cs ! j = Requested \<Longrightarrow> spec_step cs (cs[j := Served])"
| notify: "j < length cs \<Longrightarrow> cs ! j = Served \<Longrightarrow> Notified \<notin> set cs \<Longrightarrow> spec_step cs (cs[j := Notified])"
| finish: "j < length cs \<Longrightarrow> cs ! j = Notified \<Longrightarrow> spec_step cs (cs[j := Returned])"

text \<open>Where the call of the \<open>j\<close>-th message is.\<close>

definition call_phase_of :: "link \<Rightarrow> nat \<Rightarrow> call_phase" where
  "call_phase_of k j =
     (if j \<notin> set (answered (sv k)) then Requested
      else if j \<notin> set (delivered k) then Served
      else if fst (sent k ! j) \<in> set (woken (cl k)) then Notified
      else Returned)"

definition calls :: "link \<Rightarrow> call_phase list" where
  "calls k = map (call_phase_of k) [0..<length (sent k)]"

lemma length_calls [simp]: "length (calls k) = length (sent k)"
  by (simp add: calls_def)

lemma calls_nth [simp]: "j < length (sent k) \<Longrightarrow> calls k ! j = call_phase_of k j"
  by (simp add: calls_def)

lemma calls_same:
  assumes "sent k' = sent k" "\<And>j. j < length (sent k) \<Longrightarrow> call_phase_of k' j = call_phase_of k j"
  shows "calls k' = calls k"
  using assms by (simp add: calls_def)

lemma calls_update:
  assumes "sent k' = sent k" "i < length (sent k)" "call_phase_of k' i = ph"
    and "\<And>j. j < length (sent k) \<Longrightarrow> j \<noteq> i \<Longrightarrow> call_phase_of k' j = call_phase_of k j"
  shows "calls k' = (calls k)[i := ph]"
  by (rule nth_equalityI) (use assms in \<open>auto simp: nth_list_update\<close>)

lemma sent_same_caller:
  "link_inv k \<Longrightarrow> i < length (sent k) \<Longrightarrow> j < length (sent k) \<Longrightarrow> fst (sent k ! i) = fst (sent k ! j) \<Longrightarrow> i = j"
  using link_invD(9) [of k] by (metis call_inv_def distinct_conv_nth length_map nth_map)

lemma delivered_subset: "set (delivered k) \<subseteq> set (answered (sv k))"
  by (auto simp: delivered_def dest: in_set_takeD)

lemma answered_sent:
  assumes "link_inv k" "i \<in> set (answered (sv k))"
  shows "i < length (sent k)"
  using answered_below(2) [OF link_invD(6) [OF assms(1)] assms(2)]
    request_sent [OF link_invD(7) [OF assms(1)]] by blast

lemma not_reading_woken: "link_inv k \<Longrightarrow> currentWait (cl k) \<noteq> Some Delivered \<Longrightarrow> woken (cl k) = []"
  using client_invD(5) [OF link_invD(1)] by blast

lemma calls_handler:
  assumes "link_inv k" "link_do fresh (Handler i) k = Some (Inr (), k')"
  shows "calls k' = calls k \<or> spec_step (calls k) (calls k')"
proof -
  note h = link_inv_handler [OF assms]
  have d: "delivered k' = delivered k"
    using h(2,5) link_invD(8) [OF assms(1)] by (auto simp: delivered_def down_inv_def)
  from h(2) show ?thesis
  proof
    assume "answered (sv k') = answered (sv k)"
    then have "calls k' = calls k" using h d by (intro calls_same) (simp_all add: call_phase_of_def)
    then show ?thesis by blast
  next
    assume a: "answered (sv k') = answered (sv k) @ [i]"
    have n: "i \<notin> set (answered (sv k))"
      using answered_below(1) [OF link_invD(6) [OF h(1)]] by (simp add: a)
    have l: "i < length (sent k)" using answered_sent [OF h(1), of i] h(4) by (simp add: a)
    from n have u: "i \<notin> set (delivered k)" using delivered_subset [of k] by blast
    have "calls k' = (calls k)[i := Served]"
      using h(3,4) d a u l by (intro calls_update) (auto simp: call_phase_of_def)
    moreover have "calls k ! i = Requested" using l n by (simp add: call_phase_of_def)
    ultimately show ?thesis using l spec_step.serve [of i "calls k"] by simp
  qed
qed

lemma calls_response:
  assumes "link_inv k" "link_do fresh ReadResponse k = Some (r, k')"
  shows "r = Inr () \<and> spec_step (calls k) (calls k') \<and>
    (\<exists>i<length (sent k). calls k ! i = Served \<and> woken (cl k') = [fst (sent k ! i)])"
proof -
  from link_do_response [OF assms] obtain i where
    i: "answered (sv k) ! (down_read k div response_header_size) = i"
    "down_read k div response_header_size < length (answered (sv k))"
    "i \<in> undelivered k" "r = Inr ()" "currentWait (cl k) = Some Reading"
    "k' = k\<lparr>cl := responded \<lparr>responseLen = 0, rtag = msg_tag (sent k ! i)\<rparr> (fst (sent k ! i)) (cl k),
      down_read := down_read k + response_header_size\<rparr>" .
  have w: "woken (cl k) = []" using not_reading_woken [OF assms(1)] i(5) by simp
  have d: "delivered k' = delivered k @ [i]" unfolding i(6) using i(1,2) by (rule delivered_more)
  from i(3) have l: "i < length (sent k)" "i \<notin> set (delivered k)" by (auto simp: undelivered_def)
  have a: "i \<in> set (answered (sv k))" using nth_mem [OF i(2)] i(1) by simp
  have s: "sent k' = sent k" "sv k' = sv k" "woken (cl k') = [fst (sent k ! i)]"
    by (simp_all add: i(6) responded_def w)
  have c: "calls k ! i = Served" using l a by (simp add: call_phase_of_def)
  have o: "fst (sent k ! j) \<noteq> fst (sent k ! i)" if "j < length (sent k)" "j \<noteq> i" for j
    using sent_same_caller [OF assms(1) that(1) l(1)] that(2) by blast
  have "calls k' = (calls k)[i := Notified]"
    using s d l a w o by (intro calls_update) (simp_all add: call_phase_of_def)
  moreover have "Notified \<notin> set (calls k)" by (auto simp: calls_def call_phase_of_def w)
  ultimately have "spec_step (calls k) (calls k')" using c l spec_step.notify [of i "calls k"] by simp
  with i(4) c l(1) s(3) show ?thesis by blast
qed

lemma calls_wake:
  assumes "link_inv k" "link_do fresh (Wake h) k = Some (r, k')"
  shows "spec_step (calls k) (calls k')"
proof -
  note w = link_do_wake [OF assms]
  from link_invD(9) [OF assms(1)] w(3) obtain i where i: "i < length (sent k)" "fst (sent k ! i) = h"
    unfolding call_inv_def by (metis (no_types, lifting) imageE in_set_conv_nth option.distinct(1))
  with link_invD(9) [OF assms(1)] w(3) have t: "msg_tag (sent k ! i) = unreadResponseTag (cl k)"
    unfolding call_inv_def by (metis nth_mem option.inject)
  have "waking (cl k) (unreadResponseTag (cl k))" using w(1) by (simp add: waking_def)
  with link_invD(9) [OF assms(1)] t have "i \<notin> undelivered k"
    unfolding call_inv_def by (metis (no_types, lifting))
  with i(1) have d: "i \<in> set (delivered k)" by (simp add: undelivered_def)
  then have a: "i \<in> set (answered (sv k))" using delivered_subset [of k] by blast
  have s: "sent k' = sent k" "sv k' = sv k" "woken (cl k') = []" "delivered k' = delivered k"
    using link_invD(3) [OF assms(1)]
    by (simp_all add: w(5) after_finish_def erase_request_def wait_for_any_response_def Let_def delivered_def)
  have o: "fst (sent k ! j) \<noteq> h" if "j < length (sent k)" "j \<noteq> i" for j
    using sent_same_caller [OF assms(1) that(1) i(1)] that(2) i(2) by auto
  have "calls k' = (calls k)[i := Returned]"
    using s i d a w(2) o by (intro calls_update) (simp_all add: call_phase_of_def)
  moreover have "calls k ! i = Notified" using i a d w(2) by (simp add: call_phase_of_def)
  ultimately show ?thesis using i(1) spec_step.finish [of i "calls k"] by simp
qed

lemma calls_call:
  assumes "link_inv k" "link_do fresh (Call h c req n) k = Some (r, k')"
  shows "calls k' = calls k \<or> spec_step (calls k) (calls k')"
  using assms
proof (cases rule: link_do_call)
  case (Sent i)
  then have "calls k' = calls k @ [Requested]"
    using answered_sent [OF assms(1)]
    by (intro nth_equalityI)
      (auto simp: nth_append less_Suc_eq call_phase_of_def delivered_def after_send_def)
  then show ?thesis using spec_step.issue by simp
qed simp

lemma calls_do:
  assumes "link_inv k" "link_do fresh ev k = Some (r, k')" "of_server ev \<Longrightarrow> r = Inr ()"
  shows "calls k' = calls k \<or> spec_step (calls k) (calls k')"
proof (cases ev)
  case ReadHeader
  with assms have "link_do fresh ReadHeader k = Some (Inr (), k')" by simp
  note h = link_inv_read_header [OF assms(1) this]
  have "calls k' = calls k"
    by (rule calls_same) (simp_all add: h call_phase_of_def delivered_def)
  then show ?thesis by blast
next
  case ReadRequest
  with assms have "link_do fresh ReadRequest k = Some (Inr (), k')" by simp
  note h = link_inv_read_request [OF assms(1) this]
  have "calls k' = calls k"
    by (rule calls_same) (simp_all add: h call_phase_of_def delivered_def)
  then show ?thesis by blast
qed (use assms calls_handler calls_response calls_wake calls_call in \<open>simp; metis\<close>)+

subsection \<open>Concrete runs\<close>

lemma link_run_reach:
  assumes "link_run fresh evs k = Some (rs, k')" "link_reach fresh k"
    and "\<forall>(ev, r)\<in>set (zip evs rs). of_server ev \<longrightarrow> r = Inr ()"
  shows "link_reach fresh k'"
  using assms
proof (induction evs arbitrary: k rs)
  case (Cons ev evs)
  from Cons.prems(1) obtain r u rs' where u: "link_do fresh ev k = Some (r, u)" "rs = r # rs'"
    "link_run fresh evs u = Some (rs', k')"
    by (auto split: option.splits)
  from Cons.prems(3) u(2) have "of_server ev \<Longrightarrow> r = Inr ()" by simp
  with Cons.prems(2) u(1) have "link_reach fresh u" by (rule link_reach.step)
  with Cons.IH [OF u(3)] Cons.prems(3) u(2) show ?case by simp
qed simp

text \<open>A Ping without a payload.\<close>

definition ping_buffer :: buffer where
  "ping_buffer = request_buffer (\<lambda>_. 0) 0"

definition call_ping :: "handle \<Rightarrow> link_event" where
  "call_ping h = Call h CommandId_Ping ping_buffer 0"

text \<open>The server takes request \<open>i\<close> and its handler writes the response.\<close>

definition serve_ping :: "nat \<Rightarrow> link_event list" where
  "serve_ping i = [ReadHeader, ReadRequest, Handler i, Handler i]"

definition all_zero :: "nat \<Rightarrow> u8" where "all_zero = (\<lambda>_. 0)"

lemma link_result:
  assumes "map_option fst (link_run fresh evs k) = Some rs"
  obtains k' where "link_run fresh evs k = Some (rs, k')" "k' = snd (the (link_run fresh evs k))"
  using assms by (cases "link_run fresh evs k") auto

text \<open>A call that is possible.\<close>

definition called :: "handle \<Rightarrow> u8 \<Rightarrow> buffer \<Rightarrow> u32 \<Rightarrow> u16 \<Rightarrow> link \<Rightarrow> link" where
  "called h c req n t k =
     k\<lparr>cl := after_send h c req n t (cl k), sent := sent k @ [(h, stamped (sent_header c req t) req)]\<rparr>"

lemma link_do_possible_call:
  assumes "link_inv k" "senders (cl k) h = None" "request_ready req" "boffset req = blen req"
    and "pendingRequests (cl k) = []"
  shows "link_do fresh (Call h c req n) k = Some (Inr (), called h c req n 0 k)"
proof -
  note d = link_invD [OF assms(1)]
  have f: "first_free (pendingRequests (cl k)) 0 = Some 0"
    by (simp add: assms(5) first_free.simps UINT16_MAX_def)
  from set_header_ready [OF assms(3)] obtain req' where
    "set_header \<lparr>requestLength = blen req - of_nat request_header_size, methodId = c, tag = 0\<rparr> req =
      (Inr (), req')" by blast
  with f assms(4,5) d(2) have "send_request h c req n (cl k) \<noteq> None"
    by (simp add: send_request_def assert_fully_used_def reserve_request_state_def UINT16_MAX_def Let_def)
  then obtain r c' where "send_request h c req n (cl k) = Some (r, c')" by auto
  with assms(2,3) have "link_do fresh (Call h c req n) k = Some (r, note_sent h k (k\<lparr>cl := c'\<rparr>))"
    by (simp add: link_do_def client_part_def client_do_def)
  moreover from link_do_call [OF assms(1) this] f assms(4)
    send_request_cases [OF d(1) assms(3) \<open>send_request h c req n (cl k) = Some (r, c')\<close>]
  have "r = Inr () \<and> note_sent h k (k\<lparr>cl := c'\<rparr>) = called h c req n 0 k"
    by (auto simp: called_def)
  ultimately show ?thesis by simp
qed

text \<open>One Ping, up to where the response is on its way; then the caller has run on.\<close>

lemma ping_buffer_ready: "request_ready ping_buffer" "boffset ping_buffer = blen ping_buffer"
  by (simp_all add: ping_buffer_def request_ready_def request_buffer_shape buf_ok_def content_def
      request_header_size_def)

definition pinged :: "handle \<Rightarrow> link \<Rightarrow> link" where
  "pinged h k = called h CommandId_Ping ping_buffer 0 0 k"

lemma call_ping_do:
  assumes "link_inv k" "senders (cl k) h = None" "pendingRequests (cl k) = []"
  shows "link_do fresh (call_ping h) k = Some (Inr (), pinged h k)"
  unfolding call_ping_def pinged_def
  by (rule link_do_possible_call [OF assms(1,2) ping_buffer_ready assms(3)])

lemma pinged_reach:
  assumes "link_reach fresh k" "senders (cl k) h = None" "pendingRequests (cl k) = []"
  shows "link_reach fresh (pinged h k)"
  by (rule link_reach.step [OF assms(1) call_ping_do [OF link_reach_inv [OF assms(1)] assms(2,3)]]) simp

definition served :: link where
  "served = snd (the (link_run all_zero (serve_ping 0) (pinged 5 link_new)))"

lemma served_run:
  "link_run all_zero (serve_ping 0) (pinged 5 link_new) = Some ([Inr (), Inr (), Inr (), Inr ()], served)"
proof -
  have "map_option fst (link_run all_zero (serve_ping 0) (pinged 5 link_new)) =
      Some [Inr (), Inr (), Inr (), Inr ()]"
    by code_simp
  then show ?thesis unfolding served_def by (rule link_result) simp
qed

lemma served_reach: "link_reach all_zero served"
proof (rule link_run_reach [OF served_run])
  show "link_reach all_zero (pinged 5 link_new)"
    by (rule pinged_reach [OF link_reach.init]) (simp_all add: link_new_def client_new_def)
qed (simp add: serve_ping_def)

lemma served_state:
  "calls served = [Served]" "map fst (sent served) = [5]"
  "map_option fst (link_do all_zero ReadResponse served) = Some (Inr ())"
  by code_simp+

text \<open>
  C1: the protocol implements the specification of calls.  Whatever the interleaving of callers,
  listener, handlers and reader, as long as the server has not failed, every step leaves the table of
  calls as it is or is one step of the specification; the client never meets a response it did not
  ask for, and each response it reads wakes the caller of exactly the request it answers.
\<close>

theorem rpc_refines_calls:
  assumes "link_reach fresh k" "link_do fresh ev k = Some (r, k')" "of_server ev \<longrightarrow> r = Inr ()"
  shows "spec_step\<^sup>*\<^sup>* [] (calls k) \<and> (calls k' = calls k \<or> spec_step (calls k) (calls k')) \<and>
    (ev = ReadResponse \<longrightarrow> r = Inr () \<and>
      (\<exists>i<length (sent k). calls k ! i = Served \<and> woken (cl k') = [fst (sent k ! i)]))"
proof -
  have "spec_step\<^sup>*\<^sup>* [] (calls k)"
    using assms(1)
  proof induction
    case init
    then show ?case by (simp add: calls_def link_new_def)
  next
    case (step k ev r k')
    from calls_do [OF link_reach_inv [OF step(1)] step(2,3)] step.IH show ?case
      by (auto intro: rtranclp.rtrancl_into_rtrancl)
  qed
  then show ?thesis
    using calls_do [OF link_reach_inv [OF assms(1)] assms(2)] assms(2,3)
      calls_response [OF link_reach_inv [OF assms(1)]] by blast
qed

theorem rpc_refines_calls_witness:
  "\<exists>k'. link_do all_zero ReadResponse served = Some (Inr (), k') \<and> calls served = [Served] \<and>
     woken (cl k') = [5]"
proof -
  from served_state(3) obtain k' where k': "link_do all_zero ReadResponse served = Some (Inr (), k')"
    by auto
  from rpc_refines_calls [OF served_reach k'] obtain i where "i < length (sent served)"
    "woken (cl k') = [fst (sent served ! i)]" by auto
  with served_state(2) have "woken (cl k') = [5]" by (cases "sent served") auto
  with k' served_state(1) show ?thesis by blast
qed

text \<open>
  C10: tags are conserved.  In every state reachable without a failure of the server, the requests
  that have no response yet (unread, being handled, or with their response unread) have different
  tags, and these are exactly the tags of the entries of \<open>pendingRequests\<close> other than the one
  whose sender is being woken; the entry of such a tag belongs to the coroutine that sent it.
\<close>

theorem rpc_tags_conserved:
  assumes "link_reach fresh k"
  shows "inj_on (\<lambda>j. msg_tag (sent k ! j)) (undelivered k) \<and>
    (\<lambda>j. msg_tag (sent k ! j)) ` undelivered k =
      {t. map_of (pendingRequests (cl k)) t \<noteq> None \<and> \<not> waking (cl k) t} \<and>
    (\<forall>j\<in>undelivered k. map_option rs_handle (map_of (pendingRequests (cl k)) (msg_tag (sent k ! j))) =
      Some (Some (fst (sent k ! j))))"
proof -
  have i: "link_inv k" using link_reach_inv [OF assms] .
  from link_invD(9) [OF i] have c:
    "\<And>j. j \<in> undelivered k \<Longrightarrow> \<exists>st. map_of (pendingRequests (cl k)) (msg_tag (sent k ! j)) = Some st \<and>
      rs_handle st = Some (fst (sent k ! j)) \<and> \<not> waking (cl k) (msg_tag (sent k ! j))"
    "\<And>t. map_of (pendingRequests (cl k)) t \<noteq> None \<Longrightarrow> waking (cl k) t \<or>
      (\<exists>j\<in>undelivered k. msg_tag (sent k ! j) = t)"
    unfolding call_inv_def by blast+
  have "inj_on (\<lambda>j. msg_tag (sent k ! j)) (undelivered k)"
  proof (rule inj_onI)
    fix a b assume a: "a \<in> undelivered k" "b \<in> undelivered k" "msg_tag (sent k ! a) = msg_tag (sent k ! b)"
    from c(1) [OF a(1)] c(1) [OF a(2)] have "fst (sent k ! a) = fst (sent k ! b)"
      unfolding a(3) by (metis option.inject)
    with a(1,2) sent_same_caller [OF i, of a b] show "a = b" by (simp add: undelivered_def)
  qed
  moreover have "(\<lambda>j. msg_tag (sent k ! j)) ` undelivered k =
      {t. map_of (pendingRequests (cl k)) t \<noteq> None \<and> \<not> waking (cl k) t}" (is "?L = ?R")
  proof (intro equalityI subsetI)
    fix t assume "t \<in> (\<lambda>j. msg_tag (sent k ! j)) ` undelivered k"
    then obtain j where "j \<in> undelivered k" "t = msg_tag (sent k ! j)" by blast
    with c(1) [of j] show "t \<in> {t. map_of (pendingRequests (cl k)) t \<noteq> None \<and> \<not> waking (cl k) t}"
      by auto
  next
    fix t assume "t \<in> {t. map_of (pendingRequests (cl k)) t \<noteq> None \<and> \<not> waking (cl k) t}"
    with c(2) [of t] show "t \<in> (\<lambda>j. msg_tag (sent k ! j)) ` undelivered k" by blast
  qed
  moreover have "map_option rs_handle (map_of (pendingRequests (cl k)) (msg_tag (sent k ! j))) =
      Some (Some (fst (sent k ! j)))" if "j \<in> undelivered k" for j
    using c(1) [OF that] by (auto simp del: map_option_eq_Some)
  ultimately show ?thesis by blast
qed

theorem rpc_tags_conserved_witness:
  "inj_on (\<lambda>j. msg_tag (sent served ! j)) (undelivered served) \<and> undelivered served = {0}"
proof -
  have "length (sent served) = 1" "delivered served = []" by code_simp+
  then have "undelivered served = {0}" by (auto simp: undelivered_def)
  with rpc_tags_conserved [OF served_reach] show ?thesis by blast
qed

subsection \<open>No call is left hanging\<close>

text \<open>
  The handlers referred to by \<open>finishedHandlers\<close> are at their last suspension, so that collecting
  them is never a question of which thread comes first.
\<close>

definition finished_inv :: "server \<Rightarrow> bool" where
  "finished_inv s \<longleftrightarrow>
     (\<forall>r\<in>set (finishedHandlers s). \<forall>e i. nodes s r = Some e \<longrightarrow> handlerCoro e = Some i \<longrightarrow>
        hd_phase (handlers s ! i) = Finished \<or> hd_phase (handlers s ! i) = Collected) \<and>
     (\<forall>r\<in>set (finishedHandlers s). r < next_node s) \<and>
     (\<forall>r. listener s = AwaitBody r \<longrightarrow> r \<notin> set (finishedHandlers s))"

lemma finished_inv_collected:
  assumes "finished_inv s" "nodes s r = Some e" "handlerCoro e = Some i"
    and "hd_phase (handlers s ! i) = Finished \<or> hd_phase (handlers s ! i) = Collected"
  shows "finished_inv (collected r e i s)"
  unfolding finished_inv_def
proof (intro conjI ballI allI impI)
  fix q e' j assume a: "q \<in> set (finishedHandlers (collected r e i s))"
    "nodes (collected r e i s) q = Some e'" "handlerCoro e' = Some j"
  then have "nodes s q = Some e'"
    by (auto simp: collected_def erase_pending_def modify_run split: option.splits if_splits)
  with assms(1) a have "hd_phase (handlers s ! j) = Finished \<or> hd_phase (handlers s ! j) = Collected"
    by (auto simp: finished_inv_def collected_frame)
  then show "hd_phase (handlers (collected r e i s) ! j) = Finished \<or>
      hd_phase (handlers (collected r e i s) ! j) = Collected"
    by (cases "i < length (handlers s)"; cases "i = j")
      (auto simp: collected_frame list_update_beyond not_less)
qed (use assms(1) in \<open>auto simp: finished_inv_def collected_frame\<close>)

text \<open>So the loop over them returns or fails at a node that is gone.\<close>

lemma collect_loop_decides:
  assumes "finished_inv s" "node_inv s" "listener s = AwaitHeader" "set rs \<subseteq> set (finishedHandlers s)"
  shows "collect_loop rs s \<noteq> None"
  using assms
proof (induction rs arbitrary: s)
  case (Cons r rs)
  show ?case
  proof (cases "nodes s r")
    case None
    then show ?thesis by (simp add: deref_def)
  next
    case (Some e)
    show ?thesis
    proof (cases "handlerCoro e")
      case None
      with Some show ?thesis by (simp add: deref_def resume_handler_def)
    next
      case i: (Some i)
      with Some Cons.prems have ph:
        "hd_phase (handlers s ! i) = Finished \<or> hd_phase (handlers s ! i) = Collected"
        by (auto simp: finished_inv_def)
      let ?u = "set_phase i Collected (s\<lparr>nodes := (nodes s)(r \<mapsto> e\<lparr>handlerCoro := None\<rparr>)\<rparr>)"
      from ph have "resume_handler (Some i) (snd (set_node r (e\<lparr>handlerCoro := None\<rparr>) s)) =
          Some (Inr (), ?u)"
        using set_phase_same [of "s\<lparr>nodes := (nodes s)(r \<mapsto> e\<lparr>handlerCoro := None\<rparr>)\<rparr>" i Collected]
        by (auto simp: resume_handler_def set_node_def modify_run)
      with Some i have "collect_loop (r # rs) s = collect_loop rs (collected r e i s)"
        by (simp add: deref_def collected_def)
      moreover have "collect_loop rs (collected r e i s) \<noteq> None"
        using Cons.prems node_inv_collected [of s r e i] Some i ph
        by (intro Cons.IH finished_inv_collected) (auto simp: collected_frame)
      ultimately show ?thesis by simp
    qed
  qed
qed simp

lemma finished_inv_keeping: "finished_inv (s\<lparr>handlersKeepingLock := b\<rparr>) = finished_inv s"
  by (simp add: finished_inv_def)

lemma finished_inv_header:
  assumes "finished_inv s" "listen_header fresh rh s = Some (Inr (), t)"
  shows "finished_inv t"
proof -
  from assms(2) obtain u where u:
    "collect_loop (finishedHandlers s) (s\<lparr>handlersKeepingLock := True\<rparr>) = Some (Inr (), u)"
    "t = accepted fresh rh u"
    by (rule listen_header_accepted)
  have "finished_inv u"
    by (rule collect_loop_invariant [where P = finished_inv, OF u(1)])
      (simp_all add: finished_inv_keeping assms(1) finished_inv_collected)
  then show ?thesis by (fastforce simp: finished_inv_def u(2) accepted_def)
qed

lemma finished_inv_body:
  assumes "finished_inv s" "node_inv s" "listener s = AwaitBody r" "listen_body body r s = (Inr (), t)"
  shows "finished_inv t"
proof -
  have "r \<notin> set (finishedHandlers s)" using assms(1,3) by (simp add: finished_inv_def)
  moreover from listen_body_run [OF assms(4)] obtain e where
    "t = s\<lparr>nodes := (nodes s)(r \<mapsto>
               e\<lparr>requestBuffer := (requestBuffer e)\<lparr>bdata := Some body\<rparr>,
                 handlerCoro := Some (length (handlers s))\<rparr>),
             handlers := handlers s @ [\<lparr>hd_ref = r, hd_phase = Queued\<rparr>],
             requests := requests s @ [requestHeader e], listener := AwaitHeader\<rparr>" by blast
  ultimately show ?thesis
    using assms(1) node_invD(6) [OF assms(2)] by (auto simp: finished_inv_def nth_append)
qed

lemma finished_inv_set_phase:
  assumes "finished_inv s" "hd_phase (handlers s ! i) \<noteq> Finished" "hd_phase (handlers s ! i) \<noteq> Collected"
  shows "finished_inv (set_phase i ph s)"
  unfolding finished_inv_def
proof (intro conjI ballI allI impI)
  fix r e j assume "r \<in> set (finishedHandlers (set_phase i ph s))" "nodes (set_phase i ph s) r = Some e"
    "handlerCoro e = Some j"
  with assms(1) have "hd_phase (handlers s ! j) = Finished \<or> hd_phase (handlers s ! j) = Collected"
    by (simp add: finished_inv_def)
  moreover from this assms(2,3) have "i \<noteq> j" by auto
  ultimately show "hd_phase (handlers (set_phase i ph s) ! j) = Finished \<or>
      hd_phase (handlers (set_phase i ph s) ! j) = Collected"
    by simp
qed (use assms(1) in \<open>auto simp: finished_inv_def\<close>)

lemma finished_inv_cong:
  assumes "finished_inv s" "finishedHandlers t = finishedHandlers s" "nodes t = nodes s"
    "handlers t = handlers s" "next_node t = next_node s" "listener t = listener s"
  shows "finished_inv t"
  using assms by (simp add: finished_inv_def)

lemma finished_inv_release:
  assumes "finished_inv s" "wait_inv s"
  shows "finished_inv (release_write_lock s)"
proof (cases "writeLockWaiters s = []")
  case True
  then show ?thesis by (auto simp: release_write_lock_def intro: finished_inv_cong [OF assms(1)])
next
  case False
  with waiter_phase [OF assms(2) last_in_set [OF False]] show ?thesis
    by (auto simp: release_write_lock_def intro!: finished_inv_set_phase finished_inv_cong [OF assms(1)])
qed

lemma finished_inv_finish:
  assumes "finished_inv s" "node_inv s" "i < length (handlers s)" "hd_phase (handlers s ! i) = Leaving"
  shows "finished_inv (set_phase i Finished
    (s\<lparr>finishedHandlers := finishedHandlers s @ [hd_ref (handlers s ! i)]\<rparr>))"
proof -
  from node_invD(5) [OF assms(2,3)] assms(4) obtain e where
    e: "nodes s (hd_ref (handlers s ! i)) = Some e" "handlerCoro e = Some i" by auto
  have "listener s \<noteq> AwaitBody (hd_ref (handlers s ! i))"
    using node_invD(8) [OF assms(2), of "hd_ref (handlers s ! i)"] e by auto
  moreover have "hd_ref (handlers s ! i) < next_node s" using node_invD(3) [OF assms(2) e(1)] .
  ultimately show ?thesis
    using finished_inv_set_phase [OF assms(1), of i Finished] assms(3,4) e
    by (auto simp: finished_inv_def hd_phase_set_phase)
qed

lemma finished_inv_handler:
  assumes "finished_inv s" "node_inv s" "wait_inv s" "i < length (handlers s)"
    and "handler_step fresh i s = Some (Inr (), t)"
  shows "finished_inv t"
proof (cases "hd_phase (handlers s ! i)")
  case Queued
  with assms(5) have "start_handler i s = (Inr (), t)" by (simp add: handler_step_def)
  from start_handler_run [OF this] Queued show ?thesis
    by (auto simp: acquire_write_lock_def split: if_splits
        intro!: finished_inv_set_phase finished_inv_cong [OF assms(1)])
next
  case Woken
  with assms show ?thesis by (auto simp: handler_step_def intro: finished_inv_set_phase)
next
  case Writing
  with assms(5) have "write_response fresh i s = (Inr (), t)" by (simp add: handler_step_def)
  from write_response_run [OF this] Writing show ?thesis
    by (auto intro!: finished_inv_set_phase finished_inv_cong [OF assms(1)])
next
  case Handled
  with assms(5) have "t = set_phase i Leaving (release_write_lock s)" by (simp add: handler_step_def)
  with finished_inv_release [OF assms(1,3)] release_phase [OF assms(3), of i] Handled show ?thesis
    by (simp add: finished_inv_set_phase)
next
  case Leaving
  with assms(5) have "finish_handler i s = (Inr (), t)" by (simp add: handler_step_def)
  from finish_handler_run [OF this] finished_inv_finish [OF assms(1,2,4) Leaving] show ?thesis
    by simp
qed (use assms(5) in \<open>simp_all add: handler_step_def\<close>)

text \<open>Along a run, with only Pings sent.\<close>

definition only_pings :: "link \<Rightarrow> bool" where
  "only_pings k \<longleftrightarrow> (\<forall>m\<in>set (sent k). methodId (msg_header m) = CommandId_Ping)"

lemma server_step_of_link:
  assumes "link_inv k" "link_do fresh ev k = Some (r, k')" "of_server ev \<longrightarrow> r = Inr ()"
  shows "sv k' = sv k \<or>
    (\<exists>e. server_do fresh e (sv k) = Some (Inr (), sv k') \<and> e \<noteq> Closed \<and>
      (only_pings k \<longrightarrow> only_ping e))"
proof (cases ev)
  case (Call h c req n)
  with assms(2) show ?thesis
    by (auto simp: link_do_def client_part_def note_sent_def split: option.splits if_splits)
next
  case ReadHeader
  with assms(2,3) obtain s where s: "up_read k + request_header_size \<le> length (written (cl k))"
    "server_do fresh (Header (request_header_of (peek (up_read k) request_header_size (written (cl k)))))
       (sv k) = Some (Inr (), s)" "sv k' = s"
    by (auto simp: link_do_def server_part_def split: option.splits if_splits)
  then have "listener (sv k) = AwaitHeader" by (simp add: server_do_def split: if_splits)
  note h = read_header_sound [OF assms(1) this s(1)]
  from h have "only_pings k \<Longrightarrow> only_ping (Header (request_header_of
      (peek (up_read k) request_header_size (written (cl k)))))"
    by (simp add: only_pings_def)
  with s show ?thesis by blast
next
  case ReadResponse
  with assms(2) show ?thesis
    by (auto simp: link_do_def client_part_def split: option.splits if_splits)
next
  case (Wake h)
  with assms(2) show ?thesis by (auto simp: link_do_def client_part_def split: option.splits if_splits)
next
  case ReadRequest
  with assms(2,3) obtain b where "server_do fresh (Body b) (sv k) = Some (Inr (), sv k')"
    by (auto simp: link_do_def server_part_def split: option.splits if_splits)
  then show ?thesis by (intro disjI2 exI [of _ "Body b"]) simp
next
  case (Handler i)
  with assms(2,3) have "server_do fresh (Step i) (sv k) = Some (Inr (), sv k')"
    by (auto simp: link_do_def server_part_def split: option.splits if_splits)
  then show ?thesis by (intro disjI2 exI [of _ "Step i"]) simp
qed

lemma finished_inv_do:
  assumes "finished_inv s" "server_inv s" "server_do fresh e s = Some (Inr (), t)" "e \<noteq> Closed"
  shows "finished_inv t"
proof (cases e)
  case (Header rh)
  with assms show ?thesis by (auto simp: server_do_def split: if_splits intro: finished_inv_header)
next
  case (Body b)
  with assms show ?thesis
    by (auto simp: server_do_def server_inv_def split: listener.splits intro: finished_inv_body)
next
  case (Step i)
  with assms show ?thesis
    by (auto simp: server_do_def server_inv_def split: if_splits intro: finished_inv_handler)
qed (use assms(4) in simp)

lemma sent_grows:
  assumes "link_do fresh ev k = Some (r, k')"
  shows "set (sent k) \<subseteq> set (sent k')"
  using assms
  by (auto simp: link_do_def client_part_def server_part_def note_sent_def
      split: link_event.splits option.splits if_splits)

lemma link_reach_server:
  assumes "link_reach fresh k"
  shows "finished_inv (sv k) \<and> (only_pings k \<longrightarrow> lock_inv (sv k))"
  using assms
proof induction
  case init
  show ?case by (simp add: link_new_def lock_inv_new) (simp add: finished_inv_def server_new_def)
next
  case (step k ev r k')
  have i: "link_inv k" using link_reach_inv [OF step(1)] .
  have o: "only_pings k' \<Longrightarrow> only_pings k"
    using sent_grows [OF step(2)] unfolding only_pings_def by blast
  from server_step_of_link [OF i step(2)] step(3)
  have "sv k' = sv k \<or> (\<exists>e. server_do fresh e (sv k) = Some (Inr (), sv k') \<and> e \<noteq> Closed \<and>
      (only_pings k \<longrightarrow> only_ping e))" by blast
  then show ?case
  proof
    assume "sv k' = sv k"
    with step.IH o show ?thesis by simp
  next
    assume "\<exists>e. server_do fresh e (sv k) = Some (Inr (), sv k') \<and> e \<noteq> Closed \<and>
      (only_pings k \<longrightarrow> only_ping e)"
    then obtain e where e: "server_do fresh e (sv k) = Some (Inr (), sv k')" "e \<noteq> Closed"
      "only_pings k \<longrightarrow> only_ping e" by blast
    with step.IH o finished_inv_do [OF _ link_invD(6) [OF i] e(1,2)] lock_inv_do [OF _ e(1)]
    show ?thesis by blast
  qed
qed

text \<open>Nothing can move but a new call.\<close>

definition quiet_link :: "(nat \<Rightarrow> u8) \<Rightarrow> link \<Rightarrow> bool" where
  "quiet_link fresh k \<longleftrightarrow>
     link_do fresh ReadHeader k = None \<and> link_do fresh ReadRequest k = None \<and>
     (\<forall>i. link_do fresh (Handler i) k = None) \<and>
     link_do fresh ReadResponse k = None \<and> (\<forall>h. link_do fresh (Wake h) k = None)"

lemma quiet_no_sender:
  assumes "link_inv k" "\<forall>h. link_do fresh (Wake h) k = None"
  shows "currentWait (cl k) \<noteq> Some Delivered"
proof
  assume w: "currentWait (cl k) = Some Delivered"
  from client_invD(6) [OF link_invD(1) [OF assms(1)] w] obtain h st where
    h: "woken (cl k) = [h]" "senders (cl k) h = Some (unreadResponseTag (cl k))"
    "map_of (pendingRequests (cl k)) (unreadResponseTag (cl k)) = Some st" by blast
  with w link_invD(2) [OF assms(1)]
  have "send_finish (the (senders (cl k) h)) ((cl k)\<lparr>woken := remove1 h (woken (cl k))\<rparr>) \<noteq> None"
    by (simp add: send_finish_def resume_wait_def Let_def split: option.splits)
  with h(1) have "link_do fresh (Wake h) k \<noteq> None"
    by (auto simp: link_do_def client_part_def client_do_def split: option.splits prod.splits sum.splits)
  with assms(2) show False by simp
qed

lemma length_stream_rest:
  assumes "n < length ms"
  shows "stream_length (take n ms) + length (snd (ms ! n)) \<le> length (concat (map snd ms))"
proof -
  have "stream_length (take (Suc n) ms) \<le> stream_length ms"
    using stream_length_simps(2) [of "take (Suc n) ms" "drop (Suc n) ms"] by simp
  with stream_take_Suc [OF assms] show ?thesis by (simp add: stream_length_def)
qed

lemma quiet_all_read:
  assumes "link_inv k" "finished_inv (sv k)"
    and "link_do fresh ReadHeader k = None" "link_do fresh ReadRequest k = None"
  shows "length (requests (sv k)) = length (sent k)"
proof (rule ccontr)
  let ?n = "length (requests (sv k))"
  assume "?n \<noteq> length (sent k)"
  with link_invD(7) [OF assms(1)] have u: "?n < length (sent k)"
    "written (cl k) = concat (map snd (sent k))"
    "\<forall>m\<in>set (sent k). length (snd m) = request_header_size + unat (requestLength (msg_header m))"
    by (auto simp: up_inv_def)
  from u(1,3) have l: "length (snd (sent k ! ?n)) =
      request_header_size + unat (requestLength (msg_header (sent k ! ?n)))" by simp
  note rest = length_stream_rest [OF u(1), folded u(2), unfolded l]
  show False
  proof (cases "listener (sv k)")
    case AwaitHeader
    with link_invD(7) [OF assms(1)] rest have b: "up_read k + request_header_size \<le> length (written (cl k))"
      by (simp add: up_inv_def)
    have "listen_header fresh rh (sv k) \<noteq> None" for rh
    proof -
      have "node_inv (sv k)" using link_invD(6) [OF assms(1)] by (simp add: server_inv_def)
      then have "node_inv ((sv k)\<lparr>handlersKeepingLock := True\<rparr>)" by (rule node_inv_cong) simp_all
      with assms(2) AwaitHeader
      have "collect_loop (finishedHandlers (sv k)) ((sv k)\<lparr>handlersKeepingLock := True\<rparr>) \<noteq> None"
        by (intro collect_loop_decides) (simp_all add: finished_inv_keeping)
      then show ?thesis
        by (auto simp: listen_header_def lock_keeping_def split: option.splits prod.splits sum.splits)
    qed
    from this [of "request_header_of (peek (up_read k) request_header_size (written (cl k)))"]
      b AwaitHeader assms(3) show False
      by (auto simp: link_do_def server_part_def server_do_def split: option.splits)
  next
    case (AwaitBody r)
    with link_invD(7) [OF assms(1)] obtain e where e: "nodes (sv k) r = Some e"
      "requestHeader e = msg_header (sent k ! ?n)"
      "up_read k = stream_length (take ?n (sent k)) + request_header_size"
      by (auto simp: up_inv_def)
    with rest have "up_read k + unat (requestLength (requestHeader e)) \<le> length (written (cl k))" by simp
    with AwaitBody e(1) assms(4) show False
      by (auto simp: link_do_def server_part_def server_do_def body_length_def
          split: option.splits prod.splits)
  next
    case Stopped
    with link_invD(7) [OF assms(1)] show False by (simp add: up_inv_def)
  qed
qed

lemma quiet_all_past:
  assumes "lock_inv (sv k)" "\<forall>i. link_do fresh (Handler i) k = None" "i < length (handlers (sv k))"
  shows "past (hd_phase (handlers (sv k) ! i))"
proof -
  have n: "handler_step fresh j (sv k) = None" if "j < length (handlers (sv k))" for j
    using assms(2) [rule_format, of j] that
    by (auto simp: link_do_def server_part_def server_do_def split: option.splits)
  have h: "\<not> holding (hd_phase (handlers (sv k) ! j))" if "j < length (handlers (sv k))" for j
    using n [OF that] by (auto simp: holding_def handler_step_def)
  then have "holders (handlers (sv k)) = 0"
    using num_0_iff [of "\<lambda>h. holding (hd_phase h)" "handlers (sv k)"] by (simp add: holders_def)
  with assms(1) have "writeLockWaiters (sv k) = []" by (auto simp: lock_inv_def split: if_splits)
  with assms(1) have "in_phase Waiting (handlers (sv k)) = {}" by (simp add: lock_inv_def)
  with assms(3) have "hd_phase (handlers (sv k) ! i) \<noteq> Waiting" by (auto simp: in_phase_def)
  with n [OF assms(3)] show ?thesis
    by (auto simp: handler_step_def past_def split: phase.splits)
qed

lemma quiet_all_delivered:
  assumes "link_inv k" "currentWait (cl k) = Some Reading" "link_do fresh ReadResponse k = None"
  shows "delivered k = answered (sv k)"
proof -
  have "\<not> down_read k + response_header_size \<le> length (wire (sv k))"
    using assms(2,3)
    by (auto simp: link_do_def client_part_def client_do_def split: option.splits prod.splits)
  moreover have "length (wire (sv k)) = length (answered (sv k)) * 6"
    unfolding answered_below(3) [OF link_invD(6) [OF assms(1)]]
    by (induction "answered (sv k)" rule: list.induct)
      (simp_all add: response_to_def length_concat comp_def sum_list_triv)
  ultimately show ?thesis
    using link_invD(8) [OF assms(1)] by (auto simp: delivered_def down_inv_def response_header_size_def)
qed

text \<open>The caller has been woken and has run on: its tag is free again.\<close>

definition returned :: link where
  "returned = snd (the (link_run all_zero [ReadResponse, Wake 5] served))"

lemma returned_run:
  "link_run all_zero [ReadResponse, Wake 5] served =
     Some ([Inr (), Inl (UB UseAfterErase)], returned)"
proof -
  have "map_option fst (link_run all_zero [ReadResponse, Wake 5] served) =
      Some [Inr (), Inl (UB UseAfterErase)]"
    by code_simp
  then show ?thesis unfolding returned_def by (rule link_result) simp
qed

lemma returned_reach: "link_reach all_zero returned"
  by (rule link_run_reach [OF returned_run served_reach]) simp

lemma returned_state:
  "calls returned = [Returned]" "pendingRequests (cl returned) = []" "senders (cl returned) 6 = None"
  by code_simp+

text \<open>And the handler has finished: nothing is left to do.\<close>

definition settled :: link where
  "settled = snd (the (link_run all_zero [Handler 0, Handler 0] returned))"

lemma settled_run: "link_run all_zero [Handler 0, Handler 0] returned = Some ([Inr (), Inr ()], settled)"
proof -
  have "map_option fst (link_run all_zero [Handler 0, Handler 0] returned) = Some [Inr (), Inr ()]"
    by code_simp
  then show ?thesis unfolding settled_def by (rule link_result) simp
qed

lemma settled_reach: "link_reach all_zero settled"
  by (rule link_run_reach [OF settled_run returned_reach]) simp

lemma settled_quiet: "quiet_link all_zero settled"
  unfolding quiet_link_def
proof (intro conjI allI)
  have n: "length (handlers (sv settled)) = 1" "woken (cl settled) = []" by code_simp+
  have z: "link_do all_zero (Handler 0) settled = None" by code_simp
  show "link_do all_zero (Handler i) settled = None" for i
    using n(1) z by (cases "i = 0") (simp_all add: link_do_def server_part_def server_do_def)
  show "link_do all_zero (Wake h) settled = None" for h
    using n(2) by (simp add: link_do_def client_part_def client_do_def)
qed code_simp+



text \<open>
  A client that keeps to the protocol makes the server fail.  A client may use a tag again as
  soon as it has the response; the server keeps the tag until \<open>listen\<close> collects the handler, which
  it can do only after the handler has passed on the write lock and put itself in
  \<open>finishedHandlers\<close>.  When the second Ping of a client is read in between, its header is taken for
  invalid and the server unlocks a mutex it does not hold.
\<close>

lemma rpc_tag_reuse:
  "link_reach all_zero (pinged 6 returned) \<and> calls (pinged 6 returned) = [Returned, Requested] \<and>
   map msg_tag (sent (pinged 6 returned)) = [0, 0] \<and>
   map_option fst (link_do all_zero ReadHeader (pinged 6 returned)) = Some (Inl (UB UnlockUnowned))"
proof (intro conjI)
  show "link_reach all_zero (pinged 6 returned)"
    by (rule pinged_reach [OF returned_reach returned_state(3,2)])
qed code_simp+

subsection \<open>Every run without new calls ends\<close>

text \<open>A bound on the steps that are left.\<close>

definition link_rank :: "link \<Rightarrow> nat" where
  "link_rank k =
     10 * (length (sent k) - length (requests (sv k))) + (if listener (sv k) = AwaitHeader then 1 else 0) +
     server_load (sv k) + 2 * (length (answered (sv k)) - length (delivered k)) + length (woken (cl k))"

lemma delivered_length:
  "link_inv k \<Longrightarrow> length (delivered k) \<le> length (answered (sv k))"
  by (simp add: delivered_def)

lemma rank_server:
  assumes "link_inv k" "link_do fresh ev k = Some (Inr (), k')" "of_server ev"
  shows "link_rank k' < link_rank k"
proof (cases ev)
  case ReadHeader
  with assms(2) have d: "link_do fresh ReadHeader k = Some (Inr (), k')" by simp
  then obtain rh where h: "listen_header fresh rh (sv k) = Some (Inr (), sv k')"
    "listener (sv k) = AwaitHeader"
    by (auto simp: link_do_def server_part_def server_do_def split: if_splits option.splits prod.splits)
  from h(1) obtain u where
    "collect_loop (finishedHandlers (sv k)) ((sv k)\<lparr>handlersKeepingLock := True\<rparr>) = Some (Inr (), u)"
    "sv k' = accepted fresh rh u" by (rule listen_header_accepted)
  with server_load_collect have "server_load (sv k') \<le> server_load (sv k)"
    by (fastforce simp: server_load_def accepted_def)
  moreover have "delivered k' = delivered k"
    using link_inv_read_header [OF assms(1) d] by (simp add: delivered_def)
  moreover note listen_header_frame [OF h(1)]
  ultimately show ?thesis
    using h(2) link_inv_read_header [OF assms(1) d] by (auto simp: link_rank_def)
next
  case ReadRequest
  with assms(2) have d: "link_do fresh ReadRequest k = Some (Inr (), k')" by simp
  then obtain b r where "listen_body b r (sv k) = (Inr (), sv k')" "listener (sv k) = AwaitBody r"
    by (auto simp: link_do_def server_part_def server_do_def body_length_def
        split: if_splits option.splits prod.splits listener.splits)
  moreover from listen_body_run [OF this(1)] have "server_load (sv k') = server_load (sv k) + 8"
    "length (requests (sv k')) = Suc (length (requests (sv k)))" "listener (sv k') = AwaitHeader"
    by (auto simp: server_load_def)
  moreover have "delivered k' = delivered k"
    using link_inv_read_request [OF assms(1) d] by (simp add: delivered_def)
  moreover have "length (requests (sv k)) < length (sent k)"
    using link_invD(7) [OF assms(1)] \<open>listener (sv k) = AwaitBody r\<close> by (simp add: up_inv_def)
  ultimately show ?thesis
    using link_inv_read_request [OF assms(1) d] by (simp add: link_rank_def)
next
  case (Handler i)
  with assms(2) have d: "link_do fresh (Handler i) k = Some (Inr (), k')" by simp
  then have h: "i < length (handlers (sv k))" "handler_step fresh i (sv k) = Some (Inr (), sv k')"
    by (auto simp: link_do_def server_part_def server_do_def split: if_splits option.splits)
  have "wait_inv (sv k)" using link_invD(6) [OF assms(1)] by (simp add: server_inv_def)
  note l = handler_load [OF this h]
  note f = link_inv_handler [OF assms(1) d]
  have "delivered k' = delivered k"
    using f(2,5) link_invD(8) [OF assms(1)] by (auto simp: delivered_def down_inv_def)
  moreover have "length (delivered k) \<le> length (answered (sv k))" by (simp add: delivered_def)
  ultimately show ?thesis
    using l f(2-5) handler_frame [OF h(2)] by (auto simp: link_rank_def)
qed (use assms(3) in simp_all)

text \<open>
  C12: with \<open>rpc_no_call_hangs\<close>, the calls are totally correct as long as the server does not fail:
  every step other than a new call decreases a rank, so that a run without new calls ends, with all
  callers returned; no interleaving of listener, handlers, reader and senders can go on for ever.
\<close>

theorem rpc_progress:
  assumes "link_reach fresh k" "link_do fresh ev k = Some (r, k')" "of_server ev \<longrightarrow> r = Inr ()"
    and "\<forall>h c req n. ev \<noteq> Call h c req n"
  shows "link_rank k' < link_rank k"
proof -
  have i: "link_inv k" using link_reach_inv [OF assms(1)] .
  show ?thesis
  proof (cases ev)
    case (Wake h)
    with assms(2) have d: "link_do fresh (Wake h) k = Some (r, k')" by simp
    note w = link_do_wake [OF i d]
    have "woken (cl k') = []" "sv k' = sv k" "sent k' = sent k" "down_read k' = down_read k"
      using link_invD(3) [OF i]
      by (simp_all add: w(5) after_finish_def erase_request_def wait_for_any_response_def Let_def)
    with w(2) show ?thesis by (simp add: link_rank_def delivered_def)
  next
    case ReadResponse
    with assms(2) have d: "link_do fresh ReadResponse k = Some (r, k')" by simp
    from link_do_response [OF i d] obtain j where j:
      "answered (sv k) ! (down_read k div response_header_size) = j"
      "down_read k div response_header_size < length (answered (sv k))"
      "currentWait (cl k) = Some Reading"
      "k' = k\<lparr>cl := responded \<lparr>responseLen = 0, rtag = msg_tag (sent k ! j)\<rparr> (fst (sent k ! j)) (cl k),
        down_read := down_read k + response_header_size\<rparr>" .
    have "delivered k' = delivered k @ [j]" unfolding j(4) using j(1,2) by (rule delivered_more)
    moreover have "length (delivered k) < length (answered (sv k))" using j(2) by (simp add: delivered_def)
    moreover have "woken (cl k) = []" using not_reading_woken [OF i] j(3) by simp
    moreover have "sv k' = sv k" "sent k' = sent k" "length (woken (cl k')) = Suc (length (woken (cl k)))"
      by (simp_all add: j(4) responded_def)
    ultimately show ?thesis by (simp add: link_rank_def)
  qed (use rank_server [OF i] assms(2-4) in auto)
qed

theorem rpc_progress_witness:
  "\<exists>k'. link_do all_zero ReadResponse served = Some (Inr (), k') \<and> link_rank k' < link_rank served"
proof -
  from served_state(3) obtain k' where k': "link_do all_zero ReadResponse served = Some (Inr (), k')"
    by auto
  with rpc_progress [OF served_reach k'] show ?thesis by auto
qed

subsection \<open>Small requests and the client handler\<close>

text \<open>
  \<open>sendSmallRequest\<close> after its request was sent: the header of the response, a buffer of its length,
  and the body, whose bytes are \<open>body\<close>, when it has one.
\<close>

definition send_small_finish ::
    "(nat \<Rightarrow> u8) \<Rightarrow> bytes \<Rightarrow> u16 \<Rightarrow> client \<Rightarrow> ((err + buffer) \<times> client) option" where
  "send_small_finish fresh body t s =
     (case send_finish t s of
        None \<Rightarrow> None
      | Some (Inl e, s1) \<Rightarrow> Some (Inl e, s1)
      | Some (Inr rh, s1) \<Rightarrow>
          (let resp = buffer_alloc fresh (responseLen rh) 0 in
           if responseLen rh = 0 then Some (Inr resp, s1)
           else
             (case raw_read_body (responseLen rh) s1 of
                None \<Rightarrow> None
              | Some (Inl e, s2) \<Rightarrow> Some (Inl e, s2)
              | Some (Inr _, s2) \<Rightarrow> Some (Inr (resp\<lparr>bdata := Some body\<rparr>), s2))))"

text \<open>\<open>ClientHandler\<close>: a client and the node at the other end.\<close>

record client_handler =
  clientSideWrapper :: client
  ch_remote :: node

definition client_handler_new :: "node \<Rightarrow> client_handler" where
  "client_handler_new remote = \<lparr>clientSideWrapper = client_new, ch_remote = remote\<rparr>"

definition get_remote :: "client_handler \<Rightarrow> node" where
  "get_remote c = ch_remote c"

text \<open>
  \<open>sendSmallRequest\<close> never returns a response.  Whatever the client has been through, a sender
  that has been woken fails: with an empty response it copies the header out of the entry it has just
  erased, and with a body the read that completes the body resumes a coroutine it has already moved
  out of \<open>currentWaitForResponseCoroutine\<close>.  The step is possible, so the failure is not avoided by
  waiting either.
\<close>

lemma small_request_fails:
  assumes "client_reach s" "h \<in> set (woken s)" "\<not> lock s"
  shows "map_option fst (send_small_finish fresh body (the (senders s h))
      (s\<lparr>woken := remove1 h (woken s)\<rparr>)) =
    Some (Inl (UB (if unreadResponseLength s = 0 then UseAfterErase else NullCoroutine)))"
proof -
  let ?s = "s\<lparr>woken := remove1 h (woken s)\<rparr>"
  have i: "client_inv s" using client_inv_reach [OF assms(1)] .
  have "send_finish (the (senders s h)) ?s \<noteq> None"
  proof -
    have w: "currentWait s = Some Delivered"
      using client_invD(5) [OF i] assms(2) by (metis empty_iff empty_set)
    from client_invD(6) [OF i this] assms(2,3) w show ?thesis
      by (auto simp: send_finish_def resume_wait_def Let_def split: option.splits)
  qed
  then obtain r s' where f: "send_finish (the (senders s h)) ?s = Some (r, s')" by auto
  obtain st :: request_state where c:
    "r = (if unreadResponseLength s = 0 then Inl (UB UseAfterErase) else Inr (rs_header st))"
    "responseLen (rs_header st) = unreadResponseLength s"
    "s' = after_finish (unreadResponseTag s) s"
    by (rule resume_cases [OF i assms(2) f])
  show ?thesis
  proof (cases "unreadResponseLength s = 0")
    case True
    with f c(1) show ?thesis by (simp add: send_small_finish_def)
  next
    case False
    then have s': "s' = s\<lparr>woken := [], currentWait := None, lock := False\<rparr>"
      using c(3) by (simp add: after_finish_def)
    with False have "raw_read_body (unreadResponseLength s) s' =
        Some (Inl (UB NullCoroutine), s'\<lparr>unreadResponseLength := 0, lock := True, currentWait := None\<rparr>)"
      by (simp add: raw_read_body_def Let_def resume_wait_def word_gt_0)
    with False f c(1,2) show ?thesis by (simp add: send_small_finish_def Let_def)
  qed
qed

lemma small_request_fails_witness:
  "map_option fst (send_small_finish all_zero [1, 2] 0 ((first_answered 2)\<lparr>woken := []\<rparr>)) =
     Some (Inl (UB NullCoroutine))"
  using small_request_fails [OF first_answered_reach [of 2], of 1 all_zero "[1, 2]"]
  by (simp add: first_answered_state)
    (simp add: first_answered_def responded_def first_sent_def after_send_def)

end
