(* ===== verification/Node_Contexts.thy ===== *)
theory Node_Contexts
  imports Promises "HOL-Library.Multiset"
begin

section \<open>The connections of a node\<close>

text \<open>
  \<open>core/NodeContext.h\<close>, \<open>NodeContext.cpp\<close> and \<open>ServerHandlerContext.h\<close>: a node keeps a context (the
  coroutine and the transport) for every connection it serves.  The handler of new connections puts
  a context at the front of \<open>serverHandlers\<close> and starts the coroutine \<open>handleServerConnection\<close>, which
  at its end moves its context to \<open>finishedHandlers\<close>; the contexts there are checked and destroyed when
  the next connection starts, and by the destructor, which closes all transports and waits for the
  remaining coroutines.  A step is a section under \<open>serverHandlersMutex\<close> or \<open>finishedHandlersMutex\<close>;
  a connection is a number that stands for its list node, its transport and its coroutine frame.
  What \<open>SyncCoroutineWaiter\<close> does is the subject of \<open>Waiters\<close>, where it can also hang or abort; here it
  waits until the frame is done, so that only runs in which \<open>wait\<close> returns are followed beyond it.  Closing
  the transports is one step: \<open>close\<close> takes the lock of the event loop while \<open>serverHandlersMutex\<close> is held,
  and if the loop thread is in the handler of a new connection, which waits for that mutex, neither goes
  on; the lock protocol is in \<open>Event_Loop\<close>, and such a run ends before the step.  The end of the body
  (\<open>mayBeChecked\<close>) and the final suspension are one step as well; \<open>Coroutine_Frames\<close> separates them.
\<close>

record conn =
  coroutine :: "handle option"
  serverSideTransport :: nat

text \<open>Where \<open>handleServerConnection\<close> is; the exception is the one it caught.\<close>

datatype phase =
    Serving                    \<comment> \<open>suspended in \<open>createServerSide\<close> or \<open>listen\<close>\<close>
  | Finishing "exn option"     \<comment> \<open>before the section that moves its context\<close>
  | Ending "exn option"        \<comment> \<open>after it, before the final suspension\<close>
  | Ended                      \<comment> \<open>suspended for the last time\<close>

datatype dtor_pc =
    DAlive                     \<comment> \<open>the destructor has not been called\<close>
  | DCleanup                   \<comment> \<open>the transports are closed\<close>
  | DLoop                      \<comment> \<open>\<open>while (!serverHandlers.empty())\<close>\<close>
  | DWait handle               \<comment> \<open>\<open>waiter.wait(std::move(coroutine))\<close>\<close>
  | DLast                      \<comment> \<open>the last \<open>cleanupFinishedHandlers()\<close>\<close>
  | DDone

record node_context =
  serverHandlers :: "(nat \<times> conn) list"
  finishedHandlers :: "conn list"
  phases :: "handle \<Rightarrow> phase option"
  proms :: "handle \<Rightarrow> unit promise"
  closedTransports :: "nat set"
  dtor :: dtor_pc

definition context_new :: node_context where
  "context_new =
     \<lparr>serverHandlers = [], finishedHandlers = [], phases = (\<lambda>_. None), proms = (\<lambda>_. promise_new ()),
      closedTransports = {}, dtor = DAlive\<rparr>"

subsection \<open>Cleaning up\<close>

definition on_prom :: "handle \<Rightarrow> (unit promise, 'a) act \<Rightarrow> (node_context, 'a) act" where
  "on_prom h m s = (case m (proms s h) of (r, p) \<Rightarrow> (r, s\<lparr>proms := (proms s)(h := p)\<rparr>))"

text \<open>\<open>for (const auto &item: finishedHandlers) if (item.coroutine) ...check()\<close>\<close>

primrec check_items :: "conn list \<Rightarrow> (node_context, unit) act" where
  "check_items [] = ret ()"
| "check_items (c # cs) =
     andthen (case coroutine c of None \<Rightarrow> ret () | Some h \<Rightarrow> on_prom h check_promise)
       (\<lambda>_. check_items cs)"

text \<open>The destructor of a \<open>Coroutine\<close>.\<close>

definition destroy_coroutine :: "handle option \<Rightarrow> (node_context, unit) act" where
  "destroy_coroutine c =
     (case c of
        None \<Rightarrow> ret ()
      | Some h \<Rightarrow>
          andthen (\<lambda>s. assert_that (phases s h = Some Ended) ''coroutine must be done'' s) (\<lambda>_.
          andthen (on_prom h (destroy_promise False)) (\<lambda>_.
            modify (\<lambda>s. s\<lparr>phases := (phases s)(h := None)\<rparr>))))"

primrec destroy_items :: "conn list \<Rightarrow> (node_context, unit) act" where
  "destroy_items [] = ret ()"
| "destroy_items (c # cs) = andthen (destroy_coroutine (coroutine c)) (\<lambda>_. destroy_items cs)"

definition cleanup_finished :: "(node_context, unit) act" where
  "cleanup_finished s =
     (if finishedHandlers s \<noteq> [] then
        andthen (check_items (finishedHandlers s)) (\<lambda>_.
        andthen (destroy_items (finishedHandlers s)) (\<lambda>_.
          modify (\<lambda>s. s\<lparr>finishedHandlers := []\<rparr>))) s
      else (Inr (), s))"

subsection \<open>Connections\<close>

text \<open>
  The handler of a new connection, under \<open>serverHandlersMutex\<close>.  \<open>at_once\<close>: the coroutine comes to its
  end without being suspended; it then locks the mutex its own thread holds.
\<close>

definition accept_connection :: "nat \<Rightarrow> bool \<Rightarrow> (node_context, unit) act" where
  "accept_connection n at_once =
     andthen (modify (\<lambda>s. s\<lparr>serverHandlers :=
         (n, \<lparr>coroutine = None, serverSideTransport = n\<rparr>) # serverHandlers s,
         phases := (phases s)(n \<mapsto> Serving), proms := (proms s)(n := promise_new ())\<rparr>)) (\<lambda>_ s.
     (case cleanup_finished s of
        (Inl (Throw e), t) \<Rightarrow> (Inl (UB RelockMutex), t)
      | (Inl e, t) \<Rightarrow> (Inl e, t)
      | (Inr _, t) \<Rightarrow>
          if at_once then (Inl (UB RelockMutex), t)
          else (Inr (), t\<lparr>serverHandlers :=
                 map (\<lambda>(m, c). (m, if m = n then c\<lparr>coroutine := Some n\<rparr> else c)) (serverHandlers t)\<rparr>)))"

text \<open>\<open>listen\<close> has ended, normally or with an exception.\<close>

definition serving_ends :: "nat \<Rightarrow> exn option \<Rightarrow> node_context \<Rightarrow> node_context" where
  "serving_ends n e s = s\<lparr>phases := (phases s)(n \<mapsto> Finishing e)\<rparr>"

text \<open>\<open>finishedHandlers.push_back(std::move(*ref)); serverHandlers.erase(ref);\<close>\<close>

definition move_to_finished :: "nat \<Rightarrow> exn option \<Rightarrow> node_context \<Rightarrow> (err + unit) \<times> node_context" where
  "move_to_finished n e s =
     (case map_of (serverHandlers s) n of
        None \<Rightarrow> (Inl (UB UseAfterErase), s)
      | Some c \<Rightarrow>
          (Inr (), s\<lparr>finishedHandlers := finishedHandlers s @ [c],
                     serverHandlers := filter (\<lambda>(m, _). m \<noteq> n) (serverHandlers s),
                     phases := (phases s)(n \<mapsto> Ending e)\<rparr>))"

text \<open>The end of the body: a caught exception is thrown on.\<close>

definition coroutine_ends :: "nat \<Rightarrow> exn option \<Rightarrow> (node_context, unit) act" where
  "coroutine_ends n e =
     andthen (on_prom n (finish (case e of None \<Rightarrow> Returned () | Some x \<Rightarrow> Threw x))) (\<lambda>_.
       modify (\<lambda>s. s\<lparr>phases := (phases s)(n \<mapsto> Ended)\<rparr>))"

subsection \<open>The destructor\<close>

definition close_all :: "node_context \<Rightarrow> node_context" where
  "close_all s =
     s\<lparr>closedTransports := closedTransports s \<union>
         set (map (serverSideTransport \<circ> snd) (serverHandlers s)),
       dtor := DCleanup\<rparr>"

definition dtor_step :: "node_context \<Rightarrow> ((err + unit) \<times> node_context) option" where
  "dtor_step s =
     (case dtor s of
        DAlive \<Rightarrow> Some (Inr (), close_all s)
      | DCleanup \<Rightarrow> Some (andthen cleanup_finished (\<lambda>_. modify (\<lambda>s. s\<lparr>dtor := DLoop\<rparr>)) s)
      | DLoop \<Rightarrow>
          Some (case serverHandlers s of
             [] \<Rightarrow> (Inr (), s\<lparr>dtor := DLast\<rparr>)
           | (n, c) # rest \<Rightarrow>
               (case coroutine c of
                  None \<Rightarrow> (Inl (UB NullCoroutine), s)
                | Some h \<Rightarrow> (Inr (), s\<lparr>serverHandlers := (n, c\<lparr>coroutine := None\<rparr>) # rest,
                                       dtor := DWait h\<rparr>)))
      | DWait h \<Rightarrow>
          (if phases s h = Some Ended then
             Some (andthen (on_prom h co_await_value) (\<lambda>_.
                   andthen (destroy_coroutine (Some h)) (\<lambda>_.
                     modify (\<lambda>s. s\<lparr>dtor := DLoop\<rparr>))) s)
           else None)
      | DLast \<Rightarrow> Some (andthen cleanup_finished (\<lambda>_. modify (\<lambda>s. s\<lparr>dtor := DDone\<rparr>)) s)
      | DDone \<Rightarrow> None)"

subsection \<open>Executions\<close>

datatype ctx_event =
    Accept nat bool
  | ServingEnds nat "exn option"
  | MoveToFinished nat
  | CoroutineEnds nat
  | Destructor

fun ctx_do :: "ctx_event \<Rightarrow> node_context \<Rightarrow> ((err + unit) \<times> node_context) option" where
  "ctx_do (Accept n at_once) s =
     (if phases s n = None \<and> n \<notin> closedTransports s then Some (accept_connection n at_once s) else None)"
| "ctx_do (ServingEnds n e) s =
     (if phases s n = Some Serving then Some (Inr (), serving_ends n e s) else None)"
| "ctx_do (MoveToFinished n) s =
     (case phases s n of Some (Finishing e) \<Rightarrow> Some (move_to_finished n e s) | _ \<Rightarrow> None)"
| "ctx_do (CoroutineEnds n) s =
     (case phases s n of Some (Ending e) \<Rightarrow> Some (coroutine_ends n e s) | _ \<Rightarrow> None)"
| "ctx_do Destructor s = dtor_step s"

inductive ctx_step :: "node_context \<Rightarrow> node_context \<Rightarrow> bool" where
  "ctx_do ev s = Some (Inr (), t) \<Longrightarrow> ctx_step s t"

inductive ctx_reach :: "node_context \<Rightarrow> bool" where
  init: "ctx_reach context_new"
| step: "ctx_reach s \<Longrightarrow> ctx_do ev s = Some (Inr (), t) \<Longrightarrow> ctx_reach t"

fun ctx_exec :: "ctx_event list \<Rightarrow> node_context \<Rightarrow> ((err + unit) \<times> node_context) option" where
  "ctx_exec [] s = Some (Inr (), s)"
| "ctx_exec (e # es) s =
     (case ctx_do e s of
        None \<Rightarrow> None
      | Some (Inl x, t) \<Rightarrow> Some (Inl x, t)
      | Some (Inr _, t) \<Rightarrow> ctx_exec es t)"

subsection \<open>Who owns the coroutine of a connection\<close>

definition held :: "conn list \<Rightarrow> handle list" where
  "held cs = List.map_filter coroutine cs"

lemma held_simps [simp]:
  "held [] = []"
  "held (c # cs) = (case coroutine c of None \<Rightarrow> held cs | Some h \<Rightarrow> h # held cs)"
  "held (as @ bs) = held as @ held bs"
  by (simp_all add: held_def map_filter_simps List.map_filter_def split: option.splits)

definition waited :: "dtor_pc \<Rightarrow> handle list" where
  "waited d = (case d of DWait h \<Rightarrow> [h] | _ \<Rightarrow> [])"

lemma waited_simps [simp]:
  "waited DAlive = []" "waited DCleanup = []" "waited DLoop = []" "waited (DWait h) = [h]"
  "waited DLast = []" "waited DDone = []"
  by (simp_all add: waited_def)

definition owner_list :: "node_context \<Rightarrow> handle list" where
  "owner_list s =
     held (map snd (serverHandlers s)) @ held (finishedHandlers s) @ waited (dtor s)"

definition in_service :: "phase \<Rightarrow> bool" where
  "in_service ph \<longleftrightarrow> ph = Serving \<or> (\<exists>e. ph = Finishing e)"

lemma in_service_simps [simp]:
  "in_service Serving" "in_service (Finishing e)" "\<not> in_service (Ending e)" "\<not> in_service Ended"
  by (simp_all add: in_service_def)

definition entry_ok :: "node_context \<Rightarrow> nat \<times> conn \<Rightarrow> bool" where
  "entry_ok s x \<longleftrightarrow>
     serverSideTransport (snd x) = fst x \<and>
     (case phases s (fst x) of None \<Rightarrow> False | Some ph \<Rightarrow> in_service ph) \<and>
     (coroutine (snd x) = Some (fst x) \<or> coroutine (snd x) = None \<and> dtor s = DWait (fst x))"

definition prom_ok :: "phase \<Rightarrow> unit promise \<Rightarrow> bool" where
  "prom_ok ph p \<longleftrightarrow>
     callerCoroutine p = None \<and> exceptionPtr p = None \<and> mayBeChecked p = (ph = Ended)"

definition ctx_ok :: "node_context \<Rightarrow> bool" where
  "ctx_ok s \<longleftrightarrow>
     distinct (map fst (serverHandlers s)) \<and>
     distinct (owner_list s) \<and> set (owner_list s) = dom (phases s) \<and>
     (\<forall>x\<in>set (serverHandlers s). entry_ok s x) \<and>
     (\<forall>n ph. phases s n = Some ph \<longrightarrow> in_service ph \<longrightarrow> n \<in> fst ` set (serverHandlers s)) \<and>
     (\<forall>n ph. phases s n = Some ph \<longrightarrow> prom_ok ph (proms s n))"

lemma ctx_okI:
  assumes "distinct (map fst (serverHandlers s))" "distinct (owner_list s)"
    "set (owner_list s) = dom (phases s)" "\<And>x. x \<in> set (serverHandlers s) \<Longrightarrow> entry_ok s x"
    "\<And>n ph. phases s n = Some ph \<Longrightarrow> in_service ph \<Longrightarrow> n \<in> fst ` set (serverHandlers s)"
    "\<And>n ph. phases s n = Some ph \<Longrightarrow> prom_ok ph (proms s n)"
  shows "ctx_ok s"
  using assms by (simp add: ctx_ok_def)

lemma ctx_okD:
  assumes "ctx_ok s"
  shows "distinct (map fst (serverHandlers s))" "distinct (owner_list s)"
    "set (owner_list s) = dom (phases s)" "\<And>x. x \<in> set (serverHandlers s) \<Longrightarrow> entry_ok s x"
    "\<And>n ph. phases s n = Some ph \<Longrightarrow> in_service ph \<Longrightarrow> n \<in> fst ` set (serverHandlers s)"
    "\<And>n ph. phases s n = Some ph \<Longrightarrow> prom_ok ph (proms s n)"
  using assms by (auto simp: ctx_ok_def)

subsection \<open>What cleaning up does\<close>

lemma on_prom_run: "on_prom h m s = (fst (m (proms s h)), s\<lparr>proms := (proms s)(h := snd (m (proms s h)))\<rparr>)"
  by (simp add: on_prom_def split: prod.splits)

lemma check_ended:
  "prom_ok ph p \<Longrightarrow> check_promise p =
     (if ph = Ended then (Inr (), p\<lparr>checked := True\<rparr>)
      else (Inl (AssertFailed ''check coroutine only after it exits''), p))"
  by (cases p) (auto simp: prom_ok_def promise_ops act_simps andthen_def)

definition all_ended :: "node_context \<Rightarrow> handle list \<Rightarrow> bool" where
  "all_ended s hs \<longleftrightarrow> (\<forall>h\<in>set hs. phases s h = Some Ended)"

definition mark_checked :: "handle set \<Rightarrow> node_context \<Rightarrow> node_context" where
  "mark_checked H s = s\<lparr>proms := (\<lambda>h. if h \<in> H then (proms s h)\<lparr>checked := True\<rparr> else proms s h)\<rparr>"

lemma mark_checked_simps [simp]:
  "serverHandlers (mark_checked H s) = serverHandlers s"
  "finishedHandlers (mark_checked H s) = finishedHandlers s"
  "phases (mark_checked H s) = phases s" "dtor (mark_checked H s) = dtor s"
  "closedTransports (mark_checked H s) = closedTransports s"
  "proms (mark_checked H s) h = (if h \<in> H then (proms s h)\<lparr>checked := True\<rparr> else proms s h)"
  "mark_checked {} s = s"
  by (simp_all add: mark_checked_def)

lemma mark_checked_one:
  "s\<lparr>proms := (proms s)(h := (proms s h)\<lparr>checked := True\<rparr>)\<rparr> = mark_checked {h} s"
  by (rule node_context.equality) (auto simp: mark_checked_def fun_eq_iff)

lemma mark_checked_insert [simp]:
  "mark_checked H (mark_checked {h} s) = mark_checked (insert h H) s"
  by (rule node_context.equality) (auto simp: mark_checked_def fun_eq_iff)

lemma check_items_run:
  assumes "\<And>h. h \<in> set (held cs) \<Longrightarrow> \<exists>ph. phases s h = Some ph \<and> prom_ok ph (proms s h)"
    and "distinct (held cs)"
  shows "if all_ended s (held cs) then check_items cs s = (Inr (), mark_checked (set (held cs)) s)
    else \<exists>t. check_items cs s = (Inl (AssertFailed ''check coroutine only after it exits''), t)"
  using assms
proof (induction cs arbitrary: s)
  case Nil
  then show ?case by (simp add: all_ended_def ret_def)
next
  case (Cons c cs)
  show ?case
  proof (cases "coroutine c")
    case None
    with Cons show ?thesis by (simp add: andthen_def ret_def)
  next
    case (Some h)
    with Cons.prems(1) [of h] obtain ph where ph: "phases s h = Some ph" "prom_ok ph (proms s h)"
      by auto
    show ?thesis
    proof (cases "ph = Ended")
      case True
      let ?u = "mark_checked {h} s"
      have u: "s\<lparr>proms := (proms s)(h := (proms s h)\<lparr>checked := True\<rparr>)\<rparr> = ?u"
        by (rule mark_checked_one)
      have "if all_ended ?u (held cs) then check_items cs ?u = (Inr (), mark_checked (set (held cs)) ?u)
        else \<exists>t. check_items cs ?u = (Inl (AssertFailed ''check coroutine only after it exits''), t)"
        using Cons.prems Some by (intro Cons.IH) (auto simp: prom_ok_def)
      then show ?thesis
        using Some ph True u by (auto simp: on_prom_run check_ended andthen_def all_ended_def)
    next
      case False
      with Some ph show ?thesis
        by (simp add: on_prom_run check_ended andthen_def all_ended_def)
    qed
  qed
qed

definition drop_frames :: "handle set \<Rightarrow> node_context \<Rightarrow> node_context" where
  "drop_frames H s = s\<lparr>phases := (\<lambda>h. if h \<in> H then None else phases s h)\<rparr>"

lemma drop_frames_simps [simp]:
  "serverHandlers (drop_frames H s) = serverHandlers s"
  "finishedHandlers (drop_frames H s) = finishedHandlers s"
  "proms (drop_frames H s) = proms s" "dtor (drop_frames H s) = dtor s"
  "closedTransports (drop_frames H s) = closedTransports s"
  "phases (drop_frames H s) h = (if h \<in> H then None else phases s h)"
  "drop_frames {} s = s"
  by (simp_all add: drop_frames_def)

lemma drop_frames_one: "s\<lparr>phases := (phases s)(h := None)\<rparr> = drop_frames {h} s"
  by (rule node_context.equality) (auto simp: drop_frames_def fun_eq_iff)

lemma drop_frames_insert [simp]: "drop_frames H (drop_frames {h} s) = drop_frames (insert h H) s"
  by (rule node_context.equality) (auto simp: drop_frames_def fun_eq_iff)

lemma destroy_coroutine_run:
  assumes "phases s h = Some Ended" "checked (proms s h)" "exceptionPtr (proms s h) = None"
  shows "destroy_coroutine (Some h) s = (Inr (), drop_frames {h} s)"
proof -
  have "destroy_promise False (proms s h) = (Inr (), proms s h)"
    using assms(2,3) by (simp add: destroy_promise_def andthen_def act_simps)
  with assms(1) show ?thesis
    by (simp add: destroy_coroutine_def andthen_def assert_that_def on_prom_run modify_def drop_frames_one)
qed

lemma destroy_items_run:
  assumes "all_ended s (held cs)" "distinct (held cs)"
    and "\<And>h. h \<in> set (held cs) \<Longrightarrow> checked (proms s h) \<and> exceptionPtr (proms s h) = None"
  shows "destroy_items cs s = (Inr (), drop_frames (set (held cs)) s)"
  using assms
proof (induction cs arbitrary: s)
  case Nil
  then show ?case by (simp add: ret_def)
next
  case (Cons c cs)
  show ?case
  proof (cases "coroutine c")
    case None
    with Cons show ?thesis by (simp add: andthen_def ret_def destroy_coroutine_def)
  next
    case (Some h)
    with Cons.prems have h: "destroy_coroutine (Some h) s = (Inr (), drop_frames {h} s)"
      by (intro destroy_coroutine_run) (auto simp: all_ended_def)
    have "destroy_items cs (drop_frames {h} s)
        = (Inr (), drop_frames (set (held cs)) (drop_frames {h} s))"
      using Cons.prems Some by (intro Cons.IH) (auto simp: all_ended_def)
    with Some h show ?thesis by (simp add: andthen_def)
  qed
qed

definition collected :: "node_context \<Rightarrow> node_context" where
  "collected s =
     (drop_frames (set (held (finishedHandlers s))) (mark_checked (set (held (finishedHandlers s))) s))
       \<lparr>finishedHandlers := []\<rparr>"

lemma collected_simps [simp]:
  "serverHandlers (collected s) = serverHandlers s" "finishedHandlers (collected s) = []"
  "dtor (collected s) = dtor s" "closedTransports (collected s) = closedTransports s"
  "phases (collected s) h = (if h \<in> set (held (finishedHandlers s)) then None else phases s h)"
  "h \<notin> set (held (finishedHandlers s)) \<Longrightarrow> proms (collected s) h = proms s h"
  by (simp_all add: collected_def)

text \<open>
  With the promises of its coroutines in order, cleaning up collects every finished connection, or
  fails in the first assertion when one of them is not suspended for the last time yet.
\<close>

lemma cleanup_run:
  assumes "distinct (held (finishedHandlers s))"
    and "\<And>h. h \<in> set (held (finishedHandlers s)) \<Longrightarrow> \<exists>ph. phases s h = Some ph \<and> prom_ok ph (proms s h)"
  shows "if all_ended s (held (finishedHandlers s)) then cleanup_finished s = (Inr (), collected s)
    else \<exists>t. cleanup_finished s = (Inl (AssertFailed ''check coroutine only after it exits''), t)"
proof (cases "finishedHandlers s = []")
  case True
  then have "collected s = s" by (simp add: collected_def)
  with True show ?thesis by (simp add: cleanup_finished_def all_ended_def)
next
  case False
  let ?hs = "held (finishedHandlers s)" and ?u = "mark_checked (set (held (finishedHandlers s))) s"
  note c = check_items_run [OF assms(2) assms(1)]
  show ?thesis
  proof (cases "all_ended s ?hs")
    case True
    have ok: "exceptionPtr (proms s h) = None" if "h \<in> set ?hs" for h
      using assms(2) [OF that] by (auto simp: prom_ok_def)
    have "destroy_items (finishedHandlers s) ?u = (Inr (), drop_frames (set ?hs) ?u)"
      using True assms(1) ok by (intro destroy_items_run) (auto simp: all_ended_def)
    with True c False show ?thesis
      by (simp add: cleanup_finished_def andthen_def modify_def collected_def)
  next
    case nope: False
    with c False show ?thesis by (auto simp: cleanup_finished_def andthen_def)
  qed
qed

subsection \<open>Every step keeps the invariant\<close>

lemma ctx_finished_proms:
  assumes "ctx_ok s"
  shows "distinct (held (finishedHandlers s))"
    and "h \<in> set (held (finishedHandlers s)) \<Longrightarrow> \<exists>ph. phases s h = Some ph \<and> prom_ok ph (proms s h)"
proof -
  show "distinct (held (finishedHandlers s))"
    using ctx_okD(2) [OF assms] by (simp add: owner_list_def)
  assume "h \<in> set (held (finishedHandlers s))"
  then have "h \<in> dom (phases s)" using ctx_okD(3) [OF assms] by (auto simp: owner_list_def)
  with ctx_okD(6) [OF assms] show "\<exists>ph. phases s h = Some ph \<and> prom_ok ph (proms s h)" by blast
qed

lemma cleanup_ok_run:
  assumes "ctx_ok s"
  shows "if all_ended s (held (finishedHandlers s)) then cleanup_finished s = (Inr (), collected s)
    else \<exists>t. cleanup_finished s = (Inl (AssertFailed ''check coroutine only after it exits''), t)"
  by (rule cleanup_run) (use ctx_finished_proms [OF assms] in blast)+

lemma collected_ok:
  assumes ok: "ctx_ok s" and ended: "all_ended s (held (finishedHandlers s))"
  shows "ctx_ok (collected s)"
proof -
  let ?H = "set (held (finishedHandlers s))"
  have own: "distinct (owner_list s)" "set (owner_list s) = dom (phases s)" using ctx_okD [OF ok] by auto
  show ?thesis
  proof (rule ctx_okI)
    show "distinct (owner_list (collected s))" using own(1) by (auto simp: owner_list_def)
    show "set (owner_list (collected s)) = dom (phases (collected s))"
    proof -
      have "set (owner_list (collected s)) = set (owner_list s) - ?H"
        using own(1) by (auto simp: owner_list_def)
      also have "\<dots> = dom (phases (collected s))" using own(2) by (auto split: if_splits)
      finally show ?thesis .
    qed
    fix x assume "x \<in> set (serverHandlers (collected s))"
    then have x: "entry_ok s x" using ctx_okD(4) [OF ok] by simp
    then have "fst x \<notin> ?H" using ended by (auto simp: entry_ok_def all_ended_def)
    with x show "entry_ok (collected s) x" by (simp add: entry_ok_def)
  next
    fix n ph assume "phases (collected s) n = Some ph" "in_service ph"
    then show "n \<in> fst ` set (serverHandlers (collected s))"
      using ctx_okD(5) [OF ok] by (auto split: if_splits)
  next
    fix n ph assume "phases (collected s) n = Some ph"
    then show "prom_ok ph (proms (collected s) n)"
      using ctx_okD(6) [OF ok] by (auto split: if_splits)
  qed (use ctx_okD(1) [OF ok] in simp)
qed

lemma fresh_ref: "ctx_ok s \<Longrightarrow> phases s n = None \<Longrightarrow> n \<notin> fst ` set (serverHandlers s)"
  using ctx_okD(4) [of s] by (fastforce simp: entry_ok_def)

definition with_connection :: "nat \<Rightarrow> node_context \<Rightarrow> node_context" where
  "with_connection n s =
     s\<lparr>serverHandlers := (n, \<lparr>coroutine = Some n, serverSideTransport = n\<rparr>) # serverHandlers s,
       phases := (phases s)(n \<mapsto> Serving), proms := (proms s)(n := promise_new ())\<rparr>"

lemma prom_ok_new: "prom_ok Serving (promise_new ())"
  by (simp add: prom_ok_def promise_new_def)

lemma accept_run:
  assumes ok: "ctx_ok s" and new: "phases s n = None"
  shows "if all_ended s (held (finishedHandlers s))
    then (if at_once then \<exists>t. accept_connection n at_once s = (Inl (UB RelockMutex), t)
          else accept_connection n at_once s = (Inr (), with_connection n (collected s)))
    else \<exists>t. accept_connection n at_once s
           = (Inl (AssertFailed ''check coroutine only after it exits''), t)"
proof -
  let ?s1 = "s\<lparr>serverHandlers := (n, \<lparr>coroutine = None, serverSideTransport = n\<rparr>) # serverHandlers s,
     phases := (phases s)(n \<mapsto> Serving), proms := (proms s)(n := promise_new ())\<rparr>"
  let ?hs = "held (finishedHandlers s)"
  have n: "n \<notin> set ?hs" using ctx_okD(3) [OF ok] new by (auto simp: owner_list_def)
  have "if all_ended ?s1 (held (finishedHandlers ?s1)) then cleanup_finished ?s1 = (Inr (), collected ?s1)
    else \<exists>t. cleanup_finished ?s1 = (Inl (AssertFailed ''check coroutine only after it exits''), t)"
    using ctx_finished_proms [OF ok] prom_ok_new by (intro cleanup_run) auto
  moreover have "all_ended ?s1 ?hs = all_ended s ?hs" using n by (auto simp: all_ended_def)
  moreover have "map (\<lambda>(m, c). (m, if m = n then c\<lparr>coroutine := Some n\<rparr> else c)) (serverHandlers s)
      = serverHandlers s"
    using fresh_ref [OF ok new] by (intro map_idI) force
  moreover have "(collected ?s1)\<lparr>serverHandlers :=
      (n, \<lparr>coroutine = Some n, serverSideTransport = n\<rparr>) # serverHandlers s\<rparr> = with_connection n (collected s)"
    by (rule node_context.equality) (use n in \<open>auto simp: with_connection_def collected_def fun_eq_iff\<close>)
  ultimately show ?thesis
    by (auto simp: accept_connection_def andthen_def modify_def)
qed

lemma with_connection_ok:
  assumes ok: "ctx_ok s" and new: "phases s n = None"
  shows "ctx_ok (with_connection n s)"
proof -
  have own: "owner_list (with_connection n s) = n # owner_list s"
    by (simp add: owner_list_def with_connection_def)
  have n: "n \<notin> set (owner_list s)" using ctx_okD(3) [OF ok] new by auto
  show ?thesis
  proof (rule ctx_okI)
    fix x assume "x \<in> set (serverHandlers (with_connection n s))"
    then consider "x = (n, \<lparr>coroutine = Some n, serverSideTransport = n\<rparr>)" | "x \<in> set (serverHandlers s)"
      by (auto simp: with_connection_def)
    then show "entry_ok (with_connection n s) x"
    proof cases
      case 2
      with ctx_okD(4) [OF ok] show ?thesis by (simp add: with_connection_def entry_ok_def)
    qed (simp add: with_connection_def entry_ok_def)
  next
    fix m ph assume "phases (with_connection n s) m = Some ph" "in_service ph"
    then show "m \<in> fst ` set (serverHandlers (with_connection n s))"
      using ctx_okD(5) [OF ok] by (auto simp: with_connection_def split: if_splits)
  next
    fix m ph assume "phases (with_connection n s) m = Some ph"
    then show "prom_ok ph (proms (with_connection n s) m)"
      using ctx_okD(6) [OF ok] prom_ok_new by (auto simp: with_connection_def split: if_splits)
  qed (use own n ctx_okD(1-3) [OF ok] fresh_ref [OF ok new] in \<open>auto simp: with_connection_def\<close>)
qed

lemma serving_ends_ok:
  assumes ok: "ctx_ok s" and ph: "phases s n = Some Serving"
  shows "ctx_ok (serving_ends n e s)"
proof (rule ctx_okI)
  show "set (owner_list (serving_ends n e s)) = dom (phases (serving_ends n e s))"
    using ctx_okD(3) [OF ok] ph by (auto simp: owner_list_def serving_ends_def)
  fix x assume "x \<in> set (serverHandlers (serving_ends n e s))"
  then have "entry_ok s x" using ctx_okD(4) [OF ok] by (simp add: serving_ends_def)
  then show "entry_ok (serving_ends n e s) x" by (auto simp: entry_ok_def serving_ends_def)
next
  fix m ph' assume "phases (serving_ends n e s) m = Some ph'" "in_service ph'"
  then show "m \<in> fst ` set (serverHandlers (serving_ends n e s))"
    using ctx_okD(5) [OF ok] ph by (auto simp: serving_ends_def split: if_splits)
next
  fix m ph' assume "phases (serving_ends n e s) m = Some ph'"
  then show "prom_ok ph' (proms (serving_ends n e s) m)"
    using ctx_okD(6) [OF ok, of m] ph by (auto simp: serving_ends_def prom_ok_def split: if_splits)
qed (use ctx_okD(1,2) [OF ok] in \<open>simp_all add: owner_list_def serving_ends_def\<close>)

lemma coroutine_ends_run:
  assumes ok: "ctx_ok s" and ph: "phases s n = Some (Ending e)"
    and run: "coroutine_ends n e s = (Inr (), t)"
  shows "e = None \<and> t = s\<lparr>proms := (proms s)(n := (proms s n)\<lparr>val := (), mayBeChecked := True\<rparr>),
      phases := (phases s)(n \<mapsto> Ended)\<rparr>"
proof (cases e)
  case None
  with run show ?thesis
    by (auto simp: coroutine_ends_def andthen_def on_prom_run finish_returned modify_def)
next
  case (Some x)
  have "callerCoroutine (proms s n) = None" using ctx_okD(6) [OF ok ph] by (simp add: prom_ok_def)
  with run Some show ?thesis
    by (simp add: coroutine_ends_def andthen_def on_prom_run finish_threw_detached)
qed

lemma coroutine_ends_ok:
  assumes ok: "ctx_ok s" and ph: "phases s n = Some (Ending e)"
    and run: "coroutine_ends n e s = (Inr (), t)"
  shows "ctx_ok t"
proof -
  note t = coroutine_ends_run [OF ok ph run]
  show ?thesis
  proof (rule ctx_okI)
    show "set (owner_list t) = dom (phases t)"
      using ctx_okD(3) [OF ok] ph t by (auto simp: owner_list_def)
    fix x assume "x \<in> set (serverHandlers t)"
    then have x: "entry_ok s x" using ctx_okD(4) [OF ok] t by simp
    then have "fst x \<noteq> n" using ph by (auto simp: entry_ok_def)
    with x show "entry_ok t x" using t by (simp add: entry_ok_def)
  next
    fix m ph' assume "phases t m = Some ph'" "in_service ph'"
    then show "m \<in> fst ` set (serverHandlers t)"
      using ctx_okD(5) [OF ok] t by (auto split: if_splits)
  next
    fix m ph' assume "phases t m = Some ph'"
    then show "prom_ok ph' (proms t m)"
      using ctx_okD(6) [OF ok, of m] ph t by (auto simp: prom_ok_def split: if_splits)
  qed (use ctx_okD(1,2) [OF ok] t in \<open>simp_all add: owner_list_def\<close>)
qed

lemma held_remove:
  "distinct (map fst xs) \<Longrightarrow> map_of xs n = Some c \<Longrightarrow>
     mset (held (map snd xs)) = mset (held (map snd (filter (\<lambda>(m, _). m \<noteq> n) xs))) + mset (held [c])"
proof (induction xs)
  case (Cons x xs)
  show ?case
  proof (cases "fst x = n")
    case True
    with Cons.prems have "filter (\<lambda>(m, _). m \<noteq> n) xs = xs"
      by (intro filter_True) (auto simp: image_iff)
    with True Cons.prems show ?thesis by (cases x) (auto split: option.splits)
  next
    case False
    with Cons show ?thesis by (cases x) (auto split: option.splits)
  qed
qed simp

lemma owners_rearranged:
  assumes "mset (owner_list t) = mset (owner_list s)" "ctx_ok s"
  shows "distinct (owner_list t)" "set (owner_list t) = dom (phases s)"
  using assms ctx_okD(2,3) [OF assms(2)] mset_eq_setD [OF assms(1)]
    mset_eq_imp_distinct_iff [OF assms(1)] by auto

lemma move_to_finished_ok:
  assumes ok: "ctx_ok s" and ph: "phases s n = Some (Finishing e)"
  shows "\<exists>t. move_to_finished n e s = (Inr (), t) \<and> ctx_ok t \<and> dtor t = dtor s \<and>
    serverHandlers t = filter (\<lambda>(m, _). m \<noteq> n) (serverHandlers s)"
proof -
  note refs = ctx_okD(1) [OF ok]
  have "n \<in> fst ` set (serverHandlers s)" using ctx_okD(5) [OF ok ph] by simp
  then obtain c where c: "map_of (serverHandlers s) n = Some c"
    by (metis map_of_eq_None_iff not_None_eq)
  let ?t = "s\<lparr>finishedHandlers := finishedHandlers s @ [c],
      serverHandlers := filter (\<lambda>(m, _). m \<noteq> n) (serverHandlers s), phases := (phases s)(n \<mapsto> Ending e)\<rparr>"
  have "mset (owner_list ?t) = mset (owner_list s)"
    using held_remove [OF refs c] by (simp add: owner_list_def)
  note own = owners_rearranged [OF this ok]
  have "ctx_ok ?t"
  proof (rule ctx_okI)
    show "distinct (map fst (serverHandlers ?t))" using refs by (simp add: distinct_map_filter)
    show "set (owner_list ?t) = dom (phases ?t)" using own(2) ph by auto
    fix x assume "x \<in> set (serverHandlers ?t)"
    then have "entry_ok s x" "fst x \<noteq> n" using ctx_okD(4) [OF ok] by auto
    then show "entry_ok ?t x" by (simp add: entry_ok_def)
  next
    fix m ph' assume "phases ?t m = Some ph'" "in_service ph'"
    then have "m \<in> fst ` set (serverHandlers s)" "m \<noteq> n"
      using ctx_okD(5) [OF ok] by (auto split: if_splits)
    then show "m \<in> fst ` set (serverHandlers ?t)" by force
  next
    fix m ph' assume "phases ?t m = Some ph'"
    then show "prom_ok ph' (proms ?t m)"
      using ctx_okD(6) [OF ok, of m] ph by (auto simp: prom_ok_def split: if_splits)
  qed (rule own(1))
  with c show ?thesis by (simp add: move_to_finished_def)
qed

lemma ctx_ok_dtor:
  assumes "ctx_ok s" "waited (dtor s) = []" "waited d = []"
  shows "ctx_ok (s\<lparr>dtor := d\<rparr>)" "ctx_ok (s\<lparr>closedTransports := C, dtor := d\<rparr>)"
proof -
  have e: "entry_ok (s\<lparr>closedTransports := C, dtor := d\<rparr>) x" if "entry_ok s x" for x C
    using that assms(2) by (auto simp: entry_ok_def waited_def)
  from e have "entry_ok (s\<lparr>closedTransports := closedTransports s, dtor := d\<rparr>) x" if "entry_ok s x" for x
    using that by blast
  then have e': "entry_ok (s\<lparr>dtor := d\<rparr>) x" if "entry_ok s x" for x using that by simp
  show "ctx_ok (s\<lparr>dtor := d\<rparr>)" "ctx_ok (s\<lparr>closedTransports := C, dtor := d\<rparr>)"
    using assms e e' by (auto simp: ctx_ok_def owner_list_def)
qed

lemma take_front_ok:
  assumes ok: "ctx_ok s" and d: "dtor s = DLoop" and h: "serverHandlers s = (n, c) # rest" "coroutine c = Some h"
  shows "h = n \<and> ctx_ok (s\<lparr>serverHandlers := (n, c\<lparr>coroutine := None\<rparr>) # rest, dtor := DWait h\<rparr>)"
proof -
  let ?t = "s\<lparr>serverHandlers := (n, c\<lparr>coroutine := None\<rparr>) # rest, dtor := DWait h\<rparr>"
  have front: "entry_ok s (n, c)" using ctx_okD(4) [OF ok] h by simp
  then have hn: "h = n" using h(2) by (simp add: entry_ok_def)
  have "mset (owner_list ?t) = mset (owner_list s)" using d h by (simp add: owner_list_def)
  note own = owners_rearranged [OF this ok]
  have "ctx_ok ?t"
  proof (rule ctx_okI)
    show "set (owner_list ?t) = dom (phases ?t)" using own(2) by simp
    fix x assume "x \<in> set (serverHandlers ?t)"
    then consider "x = (n, c\<lparr>coroutine := None\<rparr>)" | "x \<in> set rest" by auto
    then show "entry_ok ?t x"
    proof cases
      case 1
      with front hn show ?thesis by (simp add: entry_ok_def)
    next
      case 2
      then have "entry_ok s x" using ctx_okD(4) [OF ok] h by simp
      with d show ?thesis by (simp add: entry_ok_def)
    qed
  next
    fix m ph assume "phases ?t m = Some ph" "in_service ph"
    then show "m \<in> fst ` set (serverHandlers ?t)" using ctx_okD(5) [OF ok, of m ph] h by simp
  next
    fix m ph assume "phases ?t m = Some ph"
    then show "prom_ok ph (proms ?t m)" using ctx_okD(6) [OF ok, of m ph] by simp
  qed (use own(1) ctx_okD(1) [OF ok] h in simp_all)
  with hn show ?thesis by simp
qed

lemma waited_done_ok:
  assumes ok: "ctx_ok s" and d: "dtor s = DWait h" and ph: "phases s h = Some Ended"
  shows "\<exists>t. dtor_step s = Some (Inr (), t) \<and> ctx_ok t \<and> dtor t = DLoop \<and>
    serverHandlers t = serverHandlers s \<and> finishedHandlers t = finishedHandlers s \<and>
    closedTransports t = closedTransports s"
proof -
  let ?p = "(proms s h)\<lparr>exceptionPtr := None, checked := True\<rparr>"
  let ?t = "s\<lparr>proms := (proms s)(h := ?p), phases := (phases s)(h := None), dtor := DLoop\<rparr>"
  have p: "exceptionPtr (proms s h) = None" "mayBeChecked (proms s h)"
    using ctx_okD(6) [OF ok ph] by (simp_all add: prom_ok_def)
  have "destroy_promise False ?p = (Inr (), ?p)"
    by (simp add: destroy_promise_def andthen_def act_simps)
  with d ph p have run: "dtor_step s = Some (Inr (), ?t)"
    by (simp add: dtor_step_def andthen_def on_prom_run co_await_finished destroy_coroutine_def
        assert_that_def modify_def)
  have own: "owner_list s = owner_list ?t @ [h]" using d by (simp add: owner_list_def)
  then have h: "h \<notin> set (owner_list ?t)" using ctx_okD(2) [OF ok] by simp
  have "ctx_ok ?t"
  proof (rule ctx_okI)
    show "distinct (owner_list ?t)" using own ctx_okD(2) [OF ok] by simp
    have "set (owner_list ?t) = dom (phases s) - {h}" using own h ctx_okD(3) [OF ok] by auto
    then show "set (owner_list ?t) = dom (phases ?t)" by simp
    fix x assume "x \<in> set (serverHandlers ?t)"
    then have x: "entry_ok s x" using ctx_okD(4) [OF ok] by simp
    then have "fst x \<noteq> h" using ph by (auto simp: entry_ok_def)
    with x d show "entry_ok ?t x" by (auto simp: entry_ok_def)
  next
    fix m ph' assume "phases ?t m = Some ph'" "in_service ph'"
    then show "m \<in> fst ` set (serverHandlers ?t)"
      using ctx_okD(5) [OF ok, of m ph'] by (auto split: if_splits)
  next
    fix m ph' assume "phases ?t m = Some ph'"
    then show "prom_ok ph' (proms ?t m)" using ctx_okD(6) [OF ok, of m] by (auto split: if_splits)
  qed (use ctx_okD(1) [OF ok] in simp)
  with run show ?thesis by auto
qed

lemma cleanup_then_ok:
  assumes ok: "ctx_ok s" and d: "waited (dtor s) = []" "waited d' = []"
    and run: "andthen cleanup_finished (\<lambda>_. modify (\<lambda>s. s\<lparr>dtor := d'\<rparr>)) s = (Inr (), t)"
  shows "ctx_ok t \<and> t = (collected s)\<lparr>dtor := d'\<rparr>"
proof -
  have ended: "all_ended s (held (finishedHandlers s))" and t: "t = (collected s)\<lparr>dtor := d'\<rparr>"
    using run cleanup_ok_run [OF ok] by (auto simp: andthen_def modify_def split: if_splits)
  with ctx_ok_dtor(1) [OF collected_ok [OF ok ended], of d'] d show ?thesis by simp
qed

lemma dtor_step_ok:
  assumes ok: "ctx_ok s" and st: "dtor_step s = Some (Inr (), t)"
  shows "ctx_ok t"
proof (cases "dtor s")
  case DAlive
  with st have "t = close_all s" by (simp add: dtor_step_def)
  with DAlive ctx_ok_dtor(2) [OF ok, of DCleanup] show ?thesis by (simp add: close_all_def)
next
  case DCleanup
  with st have "andthen cleanup_finished (\<lambda>_. modify (\<lambda>s. s\<lparr>dtor := DLoop\<rparr>)) s = (Inr (), t)"
    by (simp add: dtor_step_def)
  moreover have "waited (dtor s) = []" "waited DLoop = []" using DCleanup by simp_all
  ultimately show ?thesis using cleanup_then_ok [OF ok] by blast
next
  case DLoop
  show ?thesis
  proof (cases "serverHandlers s")
    case Nil
    with DLoop st ctx_ok_dtor(1) [OF ok, of DLast] show ?thesis by (simp add: dtor_step_def)
  next
    case (Cons x rest)
    with DLoop st take_front_ok [OF ok DLoop, of "fst x" "snd x" rest] show ?thesis
      by (cases x) (auto simp: dtor_step_def split: option.splits)
  qed
next
  case (DWait h)
  with st have "phases s h = Some Ended" by (simp add: dtor_step_def split: if_splits)
  from waited_done_ok [OF ok DWait this] st show ?thesis by auto
next
  case DLast
  with st have "andthen cleanup_finished (\<lambda>_. modify (\<lambda>s. s\<lparr>dtor := DDone\<rparr>)) s = (Inr (), t)"
    by (simp add: dtor_step_def)
  moreover have "waited (dtor s) = []" "waited DDone = []" using DLast by simp_all
  ultimately show ?thesis using cleanup_then_ok [OF ok] by blast
next
  case DDone
  with st show ?thesis by (simp add: dtor_step_def)
qed

lemma collected_none: "phases s n = None \<Longrightarrow> phases (collected s) n = None"
  by simp

lemma ctx_do_ok:
  assumes ok: "ctx_ok s" and st: "ctx_do ev s = Some (Inr (), t)"
  shows "ctx_ok t"
proof (cases ev)
  case (Accept n b)
  with st have n: "phases s n = None" and run: "accept_connection n b s = (Inr (), t)"
    by (auto split: if_splits)
  from accept_run [OF ok n, of b] run have "all_ended s (held (finishedHandlers s))"
    "t = with_connection n (collected s)" by (auto split: if_splits)
  with with_connection_ok [OF collected_ok [OF ok] collected_none [OF n]] show ?thesis by simp
next
  case (ServingEnds n e)
  with st serving_ends_ok [OF ok] show ?thesis by (auto split: if_splits)
next
  case (MoveToFinished n)
  with st move_to_finished_ok [OF ok] show ?thesis by (fastforce split: option.splits phase.splits)
next
  case (CoroutineEnds n)
  with st coroutine_ends_ok [OF ok] show ?thesis by (auto split: option.splits phase.splits)
next
  case Destructor
  with st dtor_step_ok [OF ok] show ?thesis by simp
qed

lemma ctx_reach_ok: "ctx_reach s \<Longrightarrow> ctx_ok s"
proof (induction rule: ctx_reach.induct)
  case init
  show ?case by (simp add: ctx_ok_def context_new_def owner_list_def)
qed (rule ctx_do_ok)

subsection \<open>Replaying events\<close>

lemma ctx_exec_reach: "ctx_exec es s = Some (Inr (), t) \<Longrightarrow> ctx_reach s \<Longrightarrow> ctx_reach t"
proof (induction es arbitrary: s)
  case (Cons e es)
  then obtain u where "ctx_do e s = Some (Inr (), u)" "ctx_exec es u = Some (Inr (), t)"
    by (auto split: option.splits sum.splits)
  with Cons.IH Cons.prems(2) show ?case by (blast intro: ctx_reach.step)
qed simp

lemma ctx_exec_append: "ctx_exec es s = Some (Inr (), u) \<Longrightarrow> ctx_exec (es @ fs) s = ctx_exec fs u"
  by (induction es arbitrary: s) (auto split: option.splits sum.splits)

lemmas ctx_defs = context_new_def accept_connection_def cleanup_finished_def serving_ends_def
  move_to_finished_def coroutine_ends_def dtor_step_def close_all_def destroy_coroutine_def
  on_prom_def finish_def promise_ops act_simps andthen_def promise_new_def owner_list_def

subsection \<open>Properties\<close>

text \<open>
  C23: the coroutine of every connection has exactly one owner.  In every reachable state no frame is
  held twice by the contexts in service, the finished contexts and the waiting destructor, and the
  frames held are exactly those that exist; a context in service has the transport it was made for.
\<close>

theorem connection_ownership:
  assumes "ctx_reach s"
  shows "distinct (owner_list s) \<and> set (owner_list s) = dom (phases s) \<and>
    distinct (map fst (serverHandlers s)) \<and>
    (\<forall>(n, c)\<in>set (serverHandlers s). serverSideTransport c = n \<and>
       (coroutine c = Some n \<or> coroutine c = None \<and> dtor s = DWait n))"
proof -
  note ok = ctx_reach_ok [OF assms]
  have "serverSideTransport c = n \<and>
      (coroutine c = Some n \<or> coroutine c = None \<and> dtor s = DWait n)"
    if "(n, c) \<in> set (serverHandlers s)" for n c
    using ctx_okD(4) [OF ok that] unfolding entry_ok_def by simp
  with ctx_okD(1-3) [OF ok] show ?thesis by blast
qed

theorem connection_ownership_witness:
  "\<exists>s. ctx_exec [Accept 4 False, ServingEnds 4 None, MoveToFinished 4, CoroutineEnds 4, Accept 7 False]
     context_new = Some (Inr (), s) \<and> set (owner_list s) = {7} \<and> dom (phases s) = {7}"
proof -
  let ?es = "[Accept 4 False, ServingEnds 4 None, MoveToFinished 4, CoroutineEnds 4, Accept 7 False]"
  obtain s where s: "ctx_exec ?es context_new = Some (Inr (), s)" "owner_list s = [7]"
    by (simp add: ctx_defs)
  from connection_ownership [OF ctx_exec_reach [OF s(1) ctx_reach.init]] s show ?thesis by auto
qed

text \<open>
  Cleaning up the finished connections works exactly when all of them are suspended for the last
  time.  Then each is checked and destroyed and no other frame is touched; otherwise (a coroutine puts
  itself into the list before it ends) the assertion in \<open>check\<close> aborts the process.
\<close>

lemma cleanup_needs_ended:
  assumes "ctx_reach s"
  shows "if \<forall>c\<in>set (finishedHandlers s). \<forall>h. coroutine c = Some h \<longrightarrow> phases s h = Some Ended
    then \<exists>t. cleanup_finished s = (Inr (), t) \<and> finishedHandlers t = [] \<and>
      serverHandlers t = serverHandlers s \<and>
      dom (phases t) = dom (phases s) - {h. \<exists>c\<in>set (finishedHandlers s). coroutine c = Some h}
    else fst (cleanup_finished s) = Inl (AssertFailed ''check coroutine only after it exits'')"
proof -
  have held: "h \<in> set (held cs) \<longleftrightarrow> (\<exists>c\<in>set cs. coroutine c = Some h)" for h cs
    by (induction cs) (auto split: option.splits)
  have "dom (phases (collected s)) = dom (phases s) - {h. \<exists>c\<in>set (finishedHandlers s). coroutine c = Some h}"
    by (auto simp: held split: if_splits)
  with cleanup_ok_run [OF ctx_reach_ok [OF assms]] show ?thesis
    by (auto simp: all_ended_def held split: if_splits)
qed

lemma cleanup_needs_ended_witness:
  "\<exists>s. ctx_exec [Accept 4 False, ServingEnds 4 None, MoveToFinished 4] context_new = Some (Inr (), s) \<and>
     fst (cleanup_finished s) = Inl (AssertFailed ''check coroutine only after it exits'')"
proof -
  let ?es = "[Accept 4 False, ServingEnds 4 None, MoveToFinished 4]"
  obtain s where s: "ctx_exec ?es context_new = Some (Inr (), s)"
    "finishedHandlers s = [\<lparr>coroutine = Some 4, serverSideTransport = 4\<rparr>]" "phases s 4 = Some (Ending None)"
    by (simp add: ctx_defs)
  from cleanup_needs_ended [OF ctx_exec_reach [OF s(1) ctx_reach.init]] s show ?thesis by simp
qed

subsection \<open>The destructor\<close>

fun is_accept :: "ctx_event \<Rightarrow> bool" where
  "is_accept (Accept _ _) = True"
| "is_accept _ = False"

definition drained :: "node_context \<Rightarrow> bool" where
  "drained s \<longleftrightarrow>
     (dtor s \<in> {DLast, DDone} \<longrightarrow> serverHandlers s = []) \<and>
     (dtor s = DDone \<longrightarrow> finishedHandlers s = [])"

lemma no_frames: "ctx_ok s \<Longrightarrow> serverHandlers s = [] \<Longrightarrow> finishedHandlers s = [] \<Longrightarrow>
    waited (dtor s) = [] \<Longrightarrow> phases s = Map.empty"
  using ctx_okD(3) [of s] by (auto simp: owner_list_def dom_def fun_eq_iff)

lemma dtor_step_effect:
  assumes ok: "ctx_ok s" and st: "dtor_step s = Some (Inr (), t)" and dr: "drained s"
  shows "drained t \<and> closedTransports s \<subseteq> closedTransports t"
proof (cases "dtor s")
  case DAlive
  with st show ?thesis by (auto simp: dtor_step_def close_all_def drained_def)
next
  case DCleanup
  then have "t = (collected s)\<lparr>dtor := DLoop\<rparr>"
    using st cleanup_then_ok [OF ok, of DLoop t] by (simp add: dtor_step_def)
  then show ?thesis by (simp add: drained_def)
next
  case DLoop
  with st show ?thesis by (auto simp: dtor_step_def drained_def split: list.splits option.splits)
next
  case (DWait h)
  with st have "phases s h = Some Ended" by (simp add: dtor_step_def split: if_splits)
  from waited_done_ok [OF ok DWait this] st show ?thesis by (auto simp: drained_def)
next
  case DLast
  then have "t = (collected s)\<lparr>dtor := DDone\<rparr>"
    using st cleanup_then_ok [OF ok, of DDone t] by (simp add: dtor_step_def)
  with dr DLast show ?thesis by (simp add: drained_def)
next
  case DDone
  with st show ?thesis by (simp add: dtor_step_def)
qed

lemma coroutine_ends_lists:
  "coroutine_ends n e s = (Inr (), t) \<Longrightarrow> serverHandlers t = serverHandlers s \<and>
     finishedHandlers t = finishedHandlers s \<and> dtor t = dtor s \<and> closedTransports t = closedTransports s"
  by (auto simp: coroutine_ends_def andthen_def on_prom_run modify_def split: prod.splits sum.splits)

lemma ctx_do_effect:
  assumes ok: "ctx_ok s" and st: "ctx_do ev s = Some (Inr (), t)" and dr: "drained s"
    and na: "\<not> is_accept ev"
  shows "drained t \<and> closedTransports s \<subseteq> closedTransports t"
proof (cases ev)
  case (MoveToFinished n)
  with st obtain e where e: "phases s n = Some (Finishing e)" "move_to_finished n e s = (Inr (), t)"
    by (auto split: option.splits phase.splits)
  then have "serverHandlers s \<noteq> []" using ctx_okD(5) [OF ok e(1)] by auto
  with e dr show ?thesis by (auto simp: move_to_finished_def drained_def split: option.splits)
next
  case (CoroutineEnds n)
  with st obtain e where "coroutine_ends n e s = (Inr (), t)" by (auto split: option.splits phase.splits)
  from coroutine_ends_lists [OF this] dr show ?thesis by (simp add: drained_def)
next
  case Destructor
  with st dtor_step_effect [OF ok _ dr] show ?thesis by simp
qed (use st dr na in \<open>auto simp: drained_def serving_ends_def split: if_splits\<close>)

lemma ctx_exec_effect:
  "ctx_exec es s = Some (Inr (), t) \<Longrightarrow> ctx_ok s \<Longrightarrow> drained s \<Longrightarrow> \<forall>e\<in>set es. \<not> is_accept e \<Longrightarrow>
     ctx_ok t \<and> drained t \<and> closedTransports s \<subseteq> closedTransports t"
proof (induction es arbitrary: s)
  case (Cons e es)
  then obtain u where u: "ctx_do e s = Some (Inr (), u)" "ctx_exec es u = Some (Inr (), t)"
    by (auto split: option.splits sum.splits)
  with ctx_do_ok [OF Cons.prems(2)] ctx_do_effect [OF Cons.prems(2) _ Cons.prems(3)] Cons.prems(4)
  have "ctx_ok u" "drained u" "closedTransports s \<subseteq> closedTransports u" by auto
  with Cons.IH [OF u(2)] Cons.prems(4) show ?case by auto
qed simp

text \<open>
  C24: if no connection is accepted after the destructor of \<open>NodeContext\<close> was called, then when it has
  run, in any interleaving with the connections, every transport that was in service has been closed,
  both lists are empty, and no coroutine frame is left.
\<close>

theorem destructor_complete:
  assumes "ctx_reach s" "dtor s = DAlive" "ctx_exec (Destructor # es) s = Some (Inr (), t)"
    and "\<forall>e\<in>set es. \<not> is_accept e" "dtor t = DDone"
  shows "serverHandlers t = [] \<and> finishedHandlers t = [] \<and> phases t = Map.empty \<and>
    fst ` set (serverHandlers s) \<subseteq> closedTransports t"
proof -
  note ok = ctx_reach_ok [OF assms(1)]
  have run: "ctx_exec es (close_all s) = Some (Inr (), t)"
    using assms(2,3) by (simp add: dtor_step_def)
  have ok': "ctx_ok (close_all s)"
    using ctx_ok_dtor(2) [OF ok] assms(2) by (simp add: close_all_def)
  have "drained (close_all s)" by (simp add: drained_def close_all_def)
  from ctx_exec_effect [OF run ok' this assms(4)] assms(5)
  have t: "ctx_ok t" "serverHandlers t = []" "finishedHandlers t = []"
    "closedTransports (close_all s) \<subseteq> closedTransports t" by (auto simp: drained_def)
  have "fst ` set (serverHandlers s) \<subseteq> closedTransports (close_all s)"
  proof
    fix n assume "n \<in> fst ` set (serverHandlers s)"
    then obtain x where x: "x \<in> set (serverHandlers s)" "n = fst x" by blast
    then have "serverSideTransport (snd x) = n" using ctx_okD(4) [OF ok] by (simp add: entry_ok_def)
    with x show "n \<in> closedTransports (close_all s)" by (force simp: close_all_def)
  qed
  with t no_frames [OF t(1-3)] assms(5) show ?thesis by auto
qed

theorem destructor_complete_witness:
  "\<exists>t. ctx_exec [Accept 4 False, Destructor, Destructor, Destructor, ServingEnds 4 None, MoveToFinished 4,
      CoroutineEnds 4, Destructor, Destructor, Destructor] context_new = Some (Inr (), t) \<and>
     phases t = Map.empty \<and> 4 \<in> closedTransports t"
proof -
  let ?es = "[Destructor, Destructor, ServingEnds 4 None, MoveToFinished 4, CoroutineEnds 4,
      Destructor, Destructor, Destructor]"
  obtain s where s: "ctx_exec [Accept 4 False] context_new = Some (Inr (), s)" "dtor s = DAlive"
    "4 \<in> fst ` set (serverHandlers s)" by (simp add: ctx_defs)
  obtain t where t: "ctx_exec ([Accept 4 False] @ Destructor # ?es) context_new = Some (Inr (), t)"
    "dtor t = DDone" by (simp add: ctx_defs)
  with ctx_exec_append [OF s(1)] have "ctx_exec (Destructor # ?es) s = Some (Inr (), t)" by simp
  from destructor_complete [OF ctx_exec_reach [OF s(1) ctx_reach.init] s(2) this _ t(2)] s(3) t(1)
  show ?thesis by auto
qed

subsection \<open>Progress of the destructor\<close>

primrec phase_weight :: "phase \<Rightarrow> nat" where
  "phase_weight Serving = 3"
| "phase_weight (Finishing _) = 2"
| "phase_weight (Ending _) = 1"
| "phase_weight Ended = 0"

definition phase_rank :: "node_context \<Rightarrow> nat" where
  "phase_rank s = (\<Sum>n\<in>dom (phases s). phase_weight (the (phases s n)))"

definition untaken :: "node_context \<Rightarrow> nat" where
  "untaken s = length (held (map snd (serverHandlers s)))"

definition dtor_rank :: "node_context \<Rightarrow> nat" where
  "dtor_rank s =
     (case dtor s of
        DAlive \<Rightarrow> 2 * untaken s + 5 | DCleanup \<Rightarrow> 2 * untaken s + 4 | DLoop \<Rightarrow> 2 * untaken s + 2
      | DWait _ \<Rightarrow> 2 * untaken s + 3 | DLast \<Rightarrow> 1 | DDone \<Rightarrow> 0)"

definition ctx_rank :: "node_context \<Rightarrow> nat" where
  "ctx_rank s = phase_rank s + dtor_rank s"

lemma finite_phases: "ctx_ok s \<Longrightarrow> finite (dom (phases s))"
  using ctx_okD(3) [of s] by (metis List.finite_set)

lemma phase_rank_move:
  assumes "ctx_ok s" "phases s n = Some ph" "phases t = (phases s)(n \<mapsto> ph')"
  shows "phase_rank t + phase_weight ph = phase_rank s + phase_weight ph'"
proof -
  have n: "n \<in> dom (phases s)" and d: "dom (phases t) = dom (phases s)" using assms(2,3) by auto
  have "phase_rank s = phase_weight ph + (\<Sum>m\<in>dom (phases s) - {n}. phase_weight (the (phases s m)))"
    using sum.remove [OF finite_phases [OF assms(1)] n, of "\<lambda>m. phase_weight (the (phases s m))"]
      assms(2) by (simp add: phase_rank_def)
  moreover have "phase_rank t = phase_weight ph' + (\<Sum>m\<in>dom (phases s) - {n}. phase_weight (the (phases t m)))"
    using sum.remove [OF finite_phases [OF assms(1)] n, of "\<lambda>m. phase_weight (the (phases t m))"]
      assms(3) d by (simp add: phase_rank_def)
  moreover have "(\<Sum>m\<in>dom (phases s) - {n}. phase_weight (the (phases t m)))
      = (\<Sum>m\<in>dom (phases s) - {n}. phase_weight (the (phases s m)))"
    using assms(3) by (intro sum.cong) auto
  ultimately show ?thesis by simp
qed

lemma phase_rank_drop:
  assumes "ctx_ok s" "\<And>n. phases t n = None \<or> phases t n = phases s n"
  shows "phase_rank t \<le> phase_rank s"
proof -
  have sub: "dom (phases t) \<subseteq> dom (phases s)" using assms(2) by (auto simp: dom_def) (metis option.distinct(1))
  have "phase_rank t = (\<Sum>n\<in>dom (phases t). phase_weight (the (phases s n)))"
    unfolding phase_rank_def using assms(2) by (intro sum.cong) (auto, metis option.distinct(1) option.sel)
  also have "\<dots> \<le> phase_rank s"
    unfolding phase_rank_def using sub finite_phases [OF assms(1)] by (intro sum_mono2) auto
  finally show ?thesis .
qed

lemma untaken_filter: "length (held (map snd (filter P xs))) \<le> length (held (map snd xs))"
  by (induction xs) (auto split: option.splits)

lemma dtor_step_rank:
  assumes ok: "ctx_ok s" and st: "dtor_step s = Some (Inr (), t)"
  shows "ctx_rank t < ctx_rank s"
proof (cases "dtor s")
  case DAlive
  with st have "t = close_all s" by (simp add: dtor_step_def)
  with DAlive show ?thesis
    by (simp add: ctx_rank_def dtor_rank_def untaken_def phase_rank_def close_all_def)
next
  case DCleanup
  then have t: "t = (collected s)\<lparr>dtor := DLoop\<rparr>"
    using st cleanup_then_ok [OF ok, of DLoop t] by (simp add: dtor_step_def)
  have "phase_rank t \<le> phase_rank s" by (rule phase_rank_drop [OF ok]) (simp add: t)
  with DCleanup t show ?thesis by (simp add: ctx_rank_def dtor_rank_def untaken_def)
next
  case DLoop
  with st show ?thesis
    by (auto simp: dtor_step_def ctx_rank_def dtor_rank_def untaken_def phase_rank_def
        split: list.splits option.splits)
next
  case (DWait h)
  with st have ph: "phases s h = Some Ended" by (simp add: dtor_step_def split: if_splits)
  from waited_done_ok [OF ok DWait ph] st have t: "dtor t = DLoop" "serverHandlers t = serverHandlers s"
    by auto
  have "phases t n = None \<or> phases t n = phases s n" for n
    using st DWait ph
    by (auto simp: dtor_step_def andthen_def on_prom_run destroy_coroutine_def assert_that_def
        modify_def split: sum.splits prod.splits if_splits)
  from phase_rank_drop [OF ok this] DWait t show ?thesis
    by (simp add: ctx_rank_def dtor_rank_def untaken_def)
next
  case DLast
  then have t: "t = (collected s)\<lparr>dtor := DDone\<rparr>"
    using st cleanup_then_ok [OF ok, of DDone t] by (simp add: dtor_step_def)
  have "phase_rank t \<le> phase_rank s" by (rule phase_rank_drop [OF ok]) (simp add: t)
  with DLast t show ?thesis by (simp add: ctx_rank_def dtor_rank_def)
next
  case DDone
  with st show ?thesis by (simp add: dtor_step_def)
qed

lemma dtor_rank_cong:
  "dtor t = dtor s \<Longrightarrow> untaken t \<le> untaken s \<Longrightarrow> dtor_rank t \<le> dtor_rank s"
  by (simp add: dtor_rank_def split: dtor_pc.splits)

lemma ctx_do_rank:
  assumes ok: "ctx_ok s" and st: "ctx_do ev s = Some (Inr (), t)" and na: "\<not> is_accept ev"
  shows "ctx_rank t < ctx_rank s"
proof (cases ev)
  case (ServingEnds n e)
  with st have "phases s n = Some Serving" "t = serving_ends n e s" by (auto split: if_splits)
  with phase_rank_move [OF ok, of n Serving t "Finishing e"] dtor_rank_cong [of t s] show ?thesis
    by (simp add: ctx_rank_def serving_ends_def untaken_def)
next
  case (MoveToFinished n)
  with st obtain e where e: "phases s n = Some (Finishing e)" "move_to_finished n e s = (Inr (), t)"
    by (auto split: option.splits phase.splits)
  then have t: "phases t = (phases s)(n \<mapsto> Ending e)" "dtor t = dtor s"
    "serverHandlers t = filter (\<lambda>(m, _). m \<noteq> n) (serverHandlers s)"
    by (auto simp: move_to_finished_def split: option.splits)
  have "untaken t \<le> untaken s" using t(3) by (simp add: untaken_def untaken_filter)
  with phase_rank_move [OF ok e(1) t(1)] dtor_rank_cong [of t s] t(2) show ?thesis
    by (simp add: ctx_rank_def)
next
  case (CoroutineEnds n)
  with st obtain e where e: "phases s n = Some (Ending e)" "coroutine_ends n e s = (Inr (), t)"
    by (auto split: option.splits phase.splits)
  from coroutine_ends_run [OF ok this] have t: "phases t = (phases s)(n \<mapsto> Ended)" by simp
  with phase_rank_move [OF ok e(1) t] dtor_rank_cong [of t s] coroutine_ends_lists [OF e(2)]
  show ?thesis by (simp add: ctx_rank_def untaken_def)
next
  case Destructor
  with st dtor_step_rank [OF ok] show ?thesis by simp
qed (use na in simp)

lemma take_front_some:
  assumes "ctx_ok s" "dtor s = DLoop" "serverHandlers s = (n, c) # rest"
  shows "coroutine c = Some n"
  using ctx_okD(4) [OF assms(1), of "(n, c)"] assms(2,3) by (simp add: entry_ok_def)

lemma dtor_failures:
  assumes ok: "ctx_ok s" and st: "dtor_step s = Some (Inl x, t)"
  shows "x = AssertFailed ''check coroutine only after it exits''"
proof (cases "dtor s")
  case DLoop
  then show ?thesis
    using st take_front_some [OF ok DLoop] by (auto simp: dtor_step_def split: list.splits)
next
  case (DWait h)
  with st have "phases s h = Some Ended" by (simp add: dtor_step_def split: if_splits)
  from waited_done_ok [OF ok DWait this] st show ?thesis by auto
qed (use st cleanup_ok_run [OF ok] in \<open>auto simp: dtor_step_def andthen_def modify_def
      split: if_splits prod.splits sum.splits\<close>)



text \<open>
  A connection accepted while the destructor waits is never closed by it: the destructor then waits
  for a coroutine that only its peer can end.
\<close>

lemma late_connection_not_closed:
  "\<exists>s. ctx_reach s \<and> dtor s = DWait 2 \<and> phases s 2 = Some Serving \<and> 2 \<notin> closedTransports s"
proof -
  have "\<exists>s. ctx_exec [Destructor, Accept 2 False, Destructor, Destructor] context_new = Some (Inr (), s) \<and>
      dtor s = DWait 2 \<and> phases s 2 = Some Serving \<and> 2 \<notin> closedTransports s"
    by (simp add: ctx_defs)
  then show ?thesis using ctx_exec_reach ctx_reach.init by blast
qed

end
