(* ===== verification/Socket_Servers.thy ===== *)
theory Socket_Servers
  imports Node_Contexts
begin

section \<open>Listening sockets and the node that owns them\<close>

text \<open>
  \<open>transport/PlainSocketServer.h\<close> and \<open>.cpp\<close>, and \<open>NodeContext::addServer\<close> with the part of the
  destructor of \<open>NodeContext\<close> that the compiler writes: the members are destroyed in the reverse of
  their order, the listening sockets first, then the lists of contexts.  Each operation of a server
  runs under the lock of the event loop, so that no connection is accepted during it.  The results of
  \<open>bind\<close> and \<open>listen\<close> of libuv are parameters.
\<close>

subsection \<open>PlainSocketServer\<close>

record socket_server =
  bindResult :: int
  listenHandler :: bool     \<comment> \<open>the handler of new connections is set\<close>
  listenEvent :: bool       \<comment> \<open>the callback of the listen event is installed\<close>
  accepting :: bool         \<comment> \<open>libuv listens on the socket\<close>
  srvClosed :: bool

text \<open>An error of \<open>bind\<close> is only logged.\<close>

definition socket_server_new :: "int \<Rightarrow> socket_server" where
  "socket_server_new bind_err =
     \<lparr>bindResult = bind_err, listenHandler = False, listenEvent = False, accepting = False,
      srvClosed = False\<rparr>"

definition server_listen :: "int \<Rightarrow> (socket_server, int) act" where
  "server_listen listen_err =
     andthen (\<lambda>s. assert_that (\<not> listenHandler s)
        ''server listen handler must be null before listening'' s) (\<lambda>_.
     andthen (modify (\<lambda>s. s\<lparr>listenHandler := True\<rparr>)) (\<lambda>_.
     andthen (modify (\<lambda>s. s\<lparr>listenEvent := True\<rparr>)) (\<lambda>_.
     andthen (modify (\<lambda>s. s\<lparr>accepting := (listen_err = 0)\<rparr>)) (\<lambda>_.
       ret listen_err))))"

definition socket_server_destroy :: "socket_server \<Rightarrow> socket_server" where
  "socket_server_destroy s = s\<lparr>accepting := False, srvClosed := True\<rparr>"

text \<open>When libuv can report a connection.\<close>

definition can_accept :: "socket_server \<Rightarrow> bool" where
  "can_accept s \<longleftrightarrow> accepting s \<and> listenEvent s \<and> \<not> srvClosed s"

subsection \<open>The servers of a node\<close>

record node_net =
  net_ctx :: node_context
  servers :: "socket_server list"

definition node_net_new :: node_net where
  "node_net_new = \<lparr>net_ctx = context_new, servers = []\<rparr>"

text \<open>\<open>addServer\<close>: the new server is kept whatever \<open>listen\<close> answers.\<close>

definition add_server :: "int \<Rightarrow> int \<Rightarrow> (node_net, int) act" where
  "add_server bind_err listen_err s =
     (case server_listen listen_err (socket_server_new bind_err) of
        (r, v) \<Rightarrow> (r, s\<lparr>servers := servers s @ [v]\<rparr>))"

text \<open>The callback of the listen event of server \<open>i\<close>, with the socket \<open>n\<close>.\<close>

definition listen_event :: "nat \<Rightarrow> nat \<Rightarrow> bool \<Rightarrow> node_net \<Rightarrow> ((err + unit) \<times> node_net) option" where
  "listen_event i n at_once s =
     (if i < length (servers s) \<and> can_accept (servers s ! i)
      then map_option (\<lambda>(r, c). (r, s\<lparr>net_ctx := c\<rparr>)) (ctx_do (Accept n at_once) (net_ctx s))
      else None)"

text \<open>After the body of \<open>~NodeContext\<close>: \<open>servers\<close>, \<open>finishedHandlers\<close>, \<open>serverHandlers\<close>.\<close>

definition destroy_members :: "(node_net, unit) act" where
  "destroy_members s =
     (let s1 = s\<lparr>servers := map socket_server_destroy (servers s)\<rparr> in
      case andthen (destroy_items (finishedHandlers (net_ctx s1))) (\<lambda>_.
           destroy_items (map snd (serverHandlers (net_ctx s1)))) (net_ctx s1) of
        (r, c) \<Rightarrow> (r, s1\<lparr>net_ctx := c\<rparr>))"

datatype net_event =
    AddServer int int | Connection nat nat bool | Context ctx_event | DestroyMembers

definition net_do :: "net_event \<Rightarrow> node_net \<Rightarrow> ((err + unit) \<times> node_net) option" where
  "net_do e s =
     (case e of
        AddServer b l \<Rightarrow>
          if dtor (net_ctx s) = DAlive
          then Some (case add_server b l s of (r, t) \<Rightarrow> (map_sum id (\<lambda>_. ()) r, t)) else None
      | Connection i n at_once \<Rightarrow> listen_event i n at_once s
      | Context ev \<Rightarrow>
          if is_accept ev then None
          else map_option (\<lambda>(r, c). (r, s\<lparr>net_ctx := c\<rparr>)) (ctx_do ev (net_ctx s))
      | DestroyMembers \<Rightarrow> if dtor (net_ctx s) = DDone then Some (destroy_members s) else None)"

inductive net_reach :: "node_net \<Rightarrow> bool" where
  init: "net_reach node_net_new"
| step: "net_reach s \<Longrightarrow> e \<noteq> DestroyMembers \<Longrightarrow> net_do e s = Some (Inr (), t) \<Longrightarrow> net_reach t"

fun net_exec :: "net_event list \<Rightarrow> node_net \<Rightarrow> ((err + unit) \<times> node_net) option" where
  "net_exec [] s = Some (Inr (), s)"
| "net_exec (e # es) s =
     (case net_do e s of
        None \<Rightarrow> None
      | Some (Inl x, t) \<Rightarrow> Some (Inl x, t)
      | Some (Inr _, t) \<Rightarrow> net_exec es t)"

lemma net_exec_reach:
  "net_exec es s = Some (Inr (), t) \<Longrightarrow> net_reach s \<Longrightarrow> DestroyMembers \<notin> set es \<Longrightarrow> net_reach t"
proof (induction es arbitrary: s)
  case (Cons e es)
  then obtain u where "net_do e s = Some (Inr (), u)" "net_exec es u = Some (Inr (), t)"
    by (auto split: option.splits sum.splits)
  moreover from this(1) Cons.prems(2,3) have "net_reach u" by (intro net_reach.step [of s e u]) auto
  ultimately show ?case using Cons.IH Cons.prems(3) by simp
qed simp

subsection \<open>What holds of the servers and the connections\<close>

text \<open>Every server has been told to listen, and the contexts evolve as in \<open>Node_Contexts\<close>.\<close>

definition server_ok :: "socket_server \<Rightarrow> bool" where
  "server_ok v \<longleftrightarrow> listenHandler v \<and> listenEvent v \<and> \<not> srvClosed v"

lemma add_server_run:
  "add_server b l s =
     (Inr l, s\<lparr>servers := servers s @
        [\<lparr>bindResult = b, listenHandler = True, listenEvent = True, accepting = (l = 0), srvClosed = False\<rparr>]\<rparr>)"
  by (simp add: add_server_def server_listen_def socket_server_new_def andthen_def act_simps)

lemma net_reach_ok: "net_reach s \<Longrightarrow> ctx_reach (net_ctx s) \<and> (\<forall>v\<in>set (servers s). server_ok v)"
proof (induction rule: net_reach.induct)
  case init
  show ?case by (simp add: node_net_new_def ctx_reach.init)
next
  case (step s e t)
  show ?case
  proof (cases e)
    case (AddServer b l)
    with step show ?thesis
      by (auto simp: net_do_def add_server_run server_ok_def split: if_splits)
  next
    case (Connection i n at_once)
    with step.hyps(3) obtain c where "ctx_do (Accept n at_once) (net_ctx s) = Some (Inr (), c)"
      "t = s\<lparr>net_ctx := c\<rparr>"
      by (auto simp: net_do_def listen_event_def simp del: ctx_do.simps split: if_splits)
    with step.IH show ?thesis by (simp del: ctx_do.simps add: ctx_reach.step [of "net_ctx s"])
  next
    case (Context ev)
    with step.hyps(3) obtain c where "ctx_do ev (net_ctx s) = Some (Inr (), c)" "t = s\<lparr>net_ctx := c\<rparr>"
      by (auto simp: net_do_def simp del: ctx_do.simps split: if_splits)
    with step.IH show ?thesis by (auto intro: ctx_reach.step)
  next
    case DestroyMembers
    with step.hyps(2) show ?thesis by simp
  qed
qed

subsection \<open>Properties\<close>

text \<open>
  \<open>addServer\<close> returns what \<open>listen\<close> of libuv answers, also when \<open>bind\<close> had failed, and keeps the
  server in either case.  The server accepts connections exactly if the answer is 0; otherwise it
  stays in the list without listening, and cannot be told to listen again, an assertion failing.
  The servers added before are as they were.
\<close>

lemma add_server_outcome:
  assumes "net_reach s" "add_server b l s = (r, t)"
  shows "r = Inr l \<and> butlast (servers t) = servers s \<and> net_ctx t = net_ctx s \<and>
    can_accept (last (servers t)) = (l = 0) \<and>
    (\<forall>v\<in>set (servers t). fst (server_listen l' v) =
       Inl (AssertFailed ''server listen handler must be null before listening''))"
proof -
  from assms(2) have t: "r = Inr l" "t = s\<lparr>servers := servers s @
      [\<lparr>bindResult = b, listenHandler = True, listenEvent = True, accepting = (l = 0), srvClosed = False\<rparr>]\<rparr>"
    by (simp_all add: add_server_run)
  have "fst (server_listen l' v) = Inl (AssertFailed ''server listen handler must be null before listening'')"
    if "listenHandler v" for v
    using that by (simp add: server_listen_def andthen_def act_simps)
  with net_reach_ok [OF assms(1)] show ?thesis
    by (auto simp: t can_accept_def server_ok_def)
qed

lemma add_server_outcome_witness:
  "\<exists>t. add_server (- 98) (- 98) node_net_new = (Inr (- 98), t) \<and> \<not> can_accept (last (servers t)) \<and>
     fst (server_listen 0 (last (servers t))) =
       Inl (AssertFailed ''server listen handler must be null before listening'')"
proof -
  obtain r t where a: "add_server (- 98) (- 98) node_net_new = (r, t)" by fastforce
  have "servers t \<noteq> []" using a by (auto simp: add_server_run)
  with add_server_outcome [OF net_reach.init a, of 0] a show ?thesis by auto
qed

text \<open>
  The window at the end of a node.  The listening sockets are closed only after the body of the
  destructor has run.  If no connection arrives meanwhile, destroying the members succeeds and closes
  every server; but a connection accepted after the body has ended leaves a context whose coroutine
  is still serving, and its destructor fails the assertion that it is done.
\<close>

lemma destroy_members_window:
  assumes "net_reach s" "dtor (net_ctx s) = DDone" "destroy_members s = (r, t)"
  shows "(serverHandlers (net_ctx s) = [] \<and> finishedHandlers (net_ctx s) = [] \<longrightarrow>
      r = Inr () \<and> (\<forall>v\<in>set (servers t). srvClosed v \<and> \<not> can_accept v)) \<and>
    (\<forall>n c. serverHandlers (net_ctx s) = [(n, c)] \<and> finishedHandlers (net_ctx s) = [] \<and>
       coroutine c = Some n \<and> phases (net_ctx s) n = Some Serving \<longrightarrow>
       r = Inl (AssertFailed ''coroutine must be done''))"
proof -
  have cl: "\<forall>v\<in>set (servers t). srvClosed v \<and> \<not> can_accept v"
    using assms(3) by (auto simp: destroy_members_def Let_def socket_server_destroy_def can_accept_def
        split: prod.splits)
  have "r = Inr ()" if "serverHandlers (net_ctx s) = []" "finishedHandlers (net_ctx s) = []"
    using that assms(3) by (simp add: destroy_members_def andthen_def act_simps)
  moreover have "r = Inl (AssertFailed ''coroutine must be done'')"
    if "serverHandlers (net_ctx s) = [(n, c)]" "finishedHandlers (net_ctx s) = []"
      "coroutine c = Some n" "phases (net_ctx s) n = Some Serving" for n c
    using that assms(3) by (simp add: destroy_members_def destroy_coroutine_def andthen_def act_simps)
  ultimately show ?thesis using cl by blast
qed

lemma destroy_members_window_witness:
  "\<exists>s t. net_exec [AddServer 0 0, Context Destructor, Context Destructor, Context Destructor,
       Context Destructor, Connection 0 7 False] node_net_new = Some (Inr (), s) \<and>
     destroy_members s = (Inl (AssertFailed ''coroutine must be done''), t)"
proof -
  let ?es = "[AddServer 0 0, Context Destructor, Context Destructor, Context Destructor,
       Context Destructor, Connection 0 7 False]"
  obtain s where s: "net_exec ?es node_net_new = Some (Inr (), s)" "dtor (net_ctx s) = DDone"
    "serverHandlers (net_ctx s) = [(7, \<lparr>coroutine = Some 7, serverSideTransport = 7\<rparr>)]"
    "finishedHandlers (net_ctx s) = []" "phases (net_ctx s) 7 = Some Serving"
    by (simp add: node_net_new_def net_do_def add_server_run listen_event_def can_accept_def ctx_defs)
  obtain r t where d: "destroy_members s = (r, t)" by fastforce
  have "net_reach s" by (rule net_exec_reach [OF s(1) net_reach.init]) simp
  from destroy_members_window [OF this s(2) d] s(3-5)
  have "r = Inl (AssertFailed ''coroutine must be done'')" by simp
  with s(1) d show ?thesis by blast
qed

end
