(* ===== verification/Connections.thy ===== *)
theory Connections
  imports Sockets
begin

section \<open>The life of a TCP connection\<close>

text \<open>
  \<open>PlainSocketTransport::Create\<close>, \<open>setupHandler\<close> and \<open>connect\<close> (\<open>transport/PlainSocketTransport.cpp\<close>),
  one step for every stretch of \<open>connect\<close> the threads of the pool and the event loop can get between,
  together with the reads, the callbacks and the destruction of the transport of \<open>Sockets\<close>.  The
  callbacks \<open>connect\<close> subscribes refer to variables of its own frame, which is destroyed when the
  awaiting coroutine has taken the result.  The resolver, the code of \<open>tcpHandler->connect\<close> and the
  moment of the answer are parameters; so is \<open>on\<close>, what subscribing a listener does to the ones
  already subscribed to the same event.
\<close>

subsection \<open>State\<close>

text \<open>The listeners of one kind of event: the lambda of \<open>setupHandler\<close> or the one of \<open>connect\<close>.\<close>

datatype listener = OfTransport | OfConnect

type_synonym subscribe = "listener list \<Rightarrow> listener \<Rightarrow> listener list"

text \<open>Subscribing adds a listener, with or without removing the others.\<close>

definition emitter :: "subscribe \<Rightarrow> bool" where
  "emitter on \<longleftrightarrow> (\<forall>ls l. on ls l = [l] \<or> on ls l = ls @ [l])"

lemma emitterD: "emitter on \<Longrightarrow> on ls l = [l] \<or> on ls l = ls @ [l]"
  by (simp add: emitter_def)

text \<open>
  Where the coroutine of \<open>connect\<close> is: not called; before the name is resolved; before the critical
  section; past it, with the lock of the event loop released and \<open>suspendThis\<close> still to come;
  suspended; finished, its frame still there; its result taken and its frame destroyed.
\<close>

datatype connect_pc =
  NotCalled | Resolving | Connecting | Unsuspended | Asleep | Returned int | Taken int

text \<open>
  \<open>pendingConnect\<close> and \<open>established\<close> are what libuv knows of the handle; \<open>resumes\<close> counts the handles of
  \<open>connect\<close> in the queue of the pool; \<open>answer\<close> is a ghost, the event that ended the connection attempt.
\<close>

record tcp =
  sock :: socket
  onConnect :: "listener list"
  onError :: "listener list"
  onEnd :: "listener list"
  onClose :: "listener list"
  onData :: "listener list"
  hasData :: bool
  cpc :: connect_pc
  err :: int
  resumes :: nat
  pendingConnect :: bool
  established :: bool
  answer :: "connect_event option"

subsection \<open>Creation\<close>

definition setup_handler :: "subscribe \<Rightarrow> tcp \<Rightarrow> tcp" where
  "setup_handler on t =
     t\<lparr>hasData := True, onEnd := on (onEnd t) OfTransport, onClose := on (onClose t) OfTransport,
       onError := on (onError t) OfTransport, onData := on (onData t) OfTransport\<rparr>"

definition fresh_handle :: "bool \<Rightarrow> socket \<Rightarrow> tcp" where
  "fresh_handle est s =
     \<lparr>sock = s, onConnect = [], onError = [], onEnd = [], onClose = [], onData = [], hasData = False,
      cpc = NotCalled, err = 0, resumes = 0, pendingConnect = False, established = est, answer = None\<rparr>"

text \<open>\<open>Create()\<close> makes a new handle, \<open>Create(handle)\<close> takes one that has been accepted.\<close>

definition create_client ::
    "subscribe \<Rightarrow> string \<times> int \<Rightarrow> string \<times> int \<Rightarrow> (nat \<Rightarrow> u8) \<Rightarrow> (handle \<Rightarrow> unit promise) \<Rightarrow> tcp" where
  "create_client on sock_name peer_name m ps =
     setup_handler on (fresh_handle False (socket_new sock_name peer_name m ps))"

definition create_accepted ::
    "subscribe \<Rightarrow> string \<times> int \<Rightarrow> string \<times> int \<Rightarrow> (nat \<Rightarrow> u8) \<Rightarrow> (handle \<Rightarrow> unit promise) \<Rightarrow> tcp" where
  "create_accepted on sock_name peer_name m ps =
     setup_handler on (fresh_handle True (socket_new sock_name peer_name m ps))"

subsection \<open>Callbacks\<close>

definition on_sock :: "(socket, unit) act \<Rightarrow> (tcp, unit) act" where
  "on_sock m t = (case m (sock t) of (r, s) \<Rightarrow> (r, t\<lparr>sock := s\<rparr>))"

text \<open>The two lambdas of \<open>connect\<close>: \<open>handle\<close> and \<open>err\<close> are in the frame of the coroutine.\<close>

definition frame_gone :: "tcp \<Rightarrow> bool" where
  "frame_gone t = (case cpc t of Taken v \<Rightarrow> True | _ \<Rightarrow> False)"

definition connected_listener :: "string \<times> int \<Rightarrow> string \<times> int \<Rightarrow> (tcp, unit) act" where
  "connected_listener peer_name sock_name t =
     (if \<not> alive (sock t) then (Inl (UB UseAfterErase), t)
      else
        let t' = t\<lparr>sock := (sock t)\<lparr>peerAddress := peer_name, bindAddress := sock_name\<rparr>\<rparr> in
        if frame_gone t then (Inl (UB UseAfterErase), t') else (Inr (), t'\<lparr>resumes := Suc (resumes t)\<rparr>))"

definition error_listener :: "int \<Rightarrow> (tcp, unit) act" where
  "error_listener c t =
     (if frame_gone t then (Inl (UB UseAfterErase), t)
      else (Inr (), t\<lparr>err := c, resumes := Suc (resumes t)\<rparr>))"

fun each :: "(listener \<Rightarrow> (tcp, unit) act) \<Rightarrow> listener list \<Rightarrow> (tcp, unit) act" where
  "each f [] = ret ()"
| "each f (l # ls) = andthen (f l) (\<lambda>_. each f ls)"

definition publish_connect :: "string \<times> int \<Rightarrow> string \<times> int \<Rightarrow> (tcp, unit) act" where
  "publish_connect peer_name sock_name t =
     each (\<lambda>l. case l of OfTransport \<Rightarrow> ret () | OfConnect \<Rightarrow> connected_listener peer_name sock_name)
       (onConnect t) t"

definition publish_error :: "int \<Rightarrow> (tcp, unit) act" where
  "publish_error c t =
     each (\<lambda>l. case l of OfTransport \<Rightarrow> on_sock error_event | OfConnect \<Rightarrow> error_listener c) (onError t) t"

text \<open>The events only the transport listens to; before data arrive, the handle is asked for its user data.\<close>

definition publish_sock :: "u64 \<Rightarrow> sock_event \<Rightarrow> (tcp, unit) act" where
  "publish_sock nobufs e t =
     (let one = (\<lambda>l. case l of OfTransport \<Rightarrow> on_sock (sock_do nobufs e) | OfConnect \<Rightarrow> ret ()) in
      case e of
        EvData bs \<Rightarrow> if hasData t then each one (onData t) t else (Inl (UB NullDereference), t)
      | EvEnd \<Rightarrow> each one (onEnd t) t
      | EvClosed \<Rightarrow> each one (onClose t) t
      | _ \<Rightarrow> on_sock (sock_do nobufs e) t)"

subsection \<open>The coroutine\<close>

definition request_connect :: "subscribe \<Rightarrow> int \<Rightarrow> tcp \<Rightarrow> tcp" where
  "request_connect on rc t =
     t\<lparr>onConnect := on (onConnect t) OfConnect, onError := on (onError t) OfConnect, err := rc,
       pendingConnect := (rc = 0)\<rparr>"

definition connect_step :: "subscribe \<Rightarrow> bool \<Rightarrow> int \<Rightarrow> tcp \<Rightarrow> tcp option" where
  "connect_step on resolved rc t =
     (case cpc t of
        Resolving \<Rightarrow> Some (t\<lparr>cpc := (if resolved then Connecting else Returned (- 1))\<rparr>)
      | Connecting \<Rightarrow> Some (request_connect on rc (t\<lparr>cpc := Unsuspended\<rparr>))
      | Unsuspended \<Rightarrow> Some (t\<lparr>cpc := Asleep\<rparr>)
      | Returned v \<Rightarrow> Some (t\<lparr>cpc := Taken v\<rparr>)
      | _ \<Rightarrow> None)"

text \<open>A thread of the pool resumes the coroutine.\<close>

definition resume_connect :: "tcp \<Rightarrow> ((err + unit) \<times> tcp) option" where
  "resume_connect t =
     (if resumes t = 0 then None
      else
        let u = t\<lparr>resumes := resumes t - 1\<rparr> in
        Some (case cpc t of
                Asleep \<Rightarrow> (Inr (), u\<lparr>cpc := Returned (err t)\<rparr>)
              | Returned v \<Rightarrow> (Inl (UB ResumeDone), u)
              | Taken v \<Rightarrow> (Inl (UB UseAfterErase), u)
              | _ \<Rightarrow> (Inl (UB ResumeRunning), u)))"

subsection \<open>What may happen\<close>

text \<open>
  The attempt to connect ends with one event; errors of reading come while the handle reads.  A
  client calls \<open>connect\<close> once and reads after it has the result, also while another read waits or the
  handle is closing; the caller of a read registers at any later moment, or never; the transport is
  destroyed when no call of \<open>connect\<close> is under way.
\<close>

datatype tcp_event =
    CallConnect | Connector | PoolThread
  | Answer connect_event
  | ReadError int
  | OnSocket sock_event
  | Destroy

definition quiet :: "tcp \<Rightarrow> bool" where
  "quiet t \<longleftrightarrow> cpc t = NotCalled \<or> frame_gone t"

definition sock_event_allowed :: "sock_event \<Rightarrow> tcp \<Rightarrow> bool" where
  "sock_event_allowed e t \<longleftrightarrow> sock_allowed e (sock t) \<and>
     (case e of
        EvRead h p n \<Rightarrow> alive (sock t) \<and> established t \<and> quiet t
      | EvCallClose \<Rightarrow> alive (sock t)
      | EvError \<Rightarrow> False
      | _ \<Rightarrow> True)"

definition tcp_do ::
    "subscribe \<Rightarrow> u64 \<Rightarrow> bool \<Rightarrow> int \<Rightarrow> tcp_event \<Rightarrow> tcp \<Rightarrow> ((err + unit) \<times> tcp) option" where
  "tcp_do on nobufs resolved rc e t =
     (case e of
        CallConnect \<Rightarrow>
          if cpc t = NotCalled \<and> \<not> established t \<and> alive (sock t)
          then Some (Inr (), t\<lparr>cpc := Resolving\<rparr>) else None
      | Connector \<Rightarrow> map_option (Pair (Inr ())) (connect_step on resolved rc t)
      | PoolThread \<Rightarrow> resume_connect t
      | Answer a \<Rightarrow>
          if pendingConnect t
          then
            let u = t\<lparr>pendingConnect := False, answer := Some a\<rparr> in
            (case a of
               Connected peer_name sock_name \<Rightarrow>
                 if closing (sock t) then None
                 else Some (publish_connect peer_name sock_name (u\<lparr>established := True\<rparr>))
             | ConnectError c \<Rightarrow> Some (publish_error c u))
          else None
      | ReadError c \<Rightarrow> if reading (sock t) then Some (publish_error c t) else None
      | OnSocket se \<Rightarrow> if sock_event_allowed se t then Some (publish_sock nobufs se t) else None
      | Destroy \<Rightarrow>
          if alive (sock t) \<and> quiet t then Some (on_sock destroy_socket t) else None)"

inductive tcp_reach :: "subscribe \<Rightarrow> u64 \<Rightarrow> bool \<Rightarrow> int \<Rightarrow> tcp \<Rightarrow> tcp \<Rightarrow> bool"
  for on nobufs resolved rc t0 where
  init: "tcp_reach on nobufs resolved rc t0 t0"
| step: "tcp_reach on nobufs resolved rc t0 t \<Longrightarrow> tcp_do on nobufs resolved rc e t = Some (Inr (), u) \<Longrightarrow>
    tcp_reach on nobufs resolved rc t0 u"

fun tcp_run ::
    "subscribe \<Rightarrow> u64 \<Rightarrow> bool \<Rightarrow> int \<Rightarrow> tcp_event list \<Rightarrow> tcp \<Rightarrow> ((err + unit) \<times> tcp) option" where
  "tcp_run on nobufs resolved rc [] t = Some (Inr (), t)"
| "tcp_run on nobufs resolved rc (e # es) t =
     (case tcp_do on nobufs resolved rc e t of
        None \<Rightarrow> None
      | Some (Inl x, u) \<Rightarrow> Some (Inl x, u)
      | Some (Inr _, u) \<Rightarrow> tcp_run on nobufs resolved rc es u)"

lemma tcp_run_reach:
  "tcp_run on nobufs resolved rc es t = Some (Inr (), u) \<Longrightarrow> tcp_reach on nobufs resolved rc t0 t \<Longrightarrow>
     tcp_reach on nobufs resolved rc t0 u"
  by (induction es arbitrary: t) (auto split: option.splits prod.splits sum.splits intro: tcp_reach.step)

subsection \<open>Frames\<close>

definition same_names :: "socket \<Rightarrow> socket \<Rightarrow> bool" where
  "same_names s t \<longleftrightarrow> peerAddress t = peerAddress s \<and> bindAddress t = bindAddress s \<and> alive t = alive s \<and>
     (reading t \<longrightarrow> reading s) \<and> (readPromiseHandle t \<noteq> None \<longrightarrow> readPromiseHandle s \<noteq> None)"

lemma raise_closed_names: "raise_closed h s = (r, t) \<Longrightarrow> same_names s t"
  by (auto simp: raise_closed_def andthen_def modify_run assert_that_run on_promise_def same_names_def
      split: prod.splits sum.splits if_splits)

lemma on_close_names: "on_close s = (r, t) \<Longrightarrow> same_names s t"
  using raise_closed_names
  by (fastforce simp: on_close_def andthen_def tcp_close_def schedule_resume_def modify_run ret_run same_names_def
      split: prod.splits sum.splits option.splits)

lemma sock_do_names:
  assumes "sock_do nobufs e s = (r, t)" "\<forall>h p n. e \<noteq> EvRead h p n"
  shows "same_names s t"
proof (cases e)
  case (EvAwait h c)
  with assms(1) show ?thesis by (auto simp: on_promise_def same_names_def split: prod.splits)
next
  case (EvData bs)
  with assms(1) show ?thesis
    by (auto simp: deliver_def data_event_def andthen_def modify_run assert_that_run schedule_resume_def
        same_names_def split: prod.splits sum.splits if_splits option.splits)
next
  case EvEnd
  with assms(1) raise_closed_names show ?thesis
    by (fastforce simp: end_event_def andthen_def schedule_resume_def modify_run same_names_def
        split: prod.splits sum.splits if_splits option.splits)
qed (use assms on_close_names in
    \<open>fastforce simp: close_event_def error_event_def socket_close_def tcp_close_def modify_run same_names_def
       split: if_splits\<close>)+

lemma start_read_names:
  assumes "sock_do nobufs (EvRead h p n) s = (r, t)"
  shows "peerAddress t = peerAddress s \<and> bindAddress t = bindAddress s \<and> alive t = alive s"
  using assms raise_closed_names
  by (fastforce simp: start_read_def raw_read_def andthen_def modify_run assert_that_run ret_run same_names_def
      split: prod.splits sum.splits if_splits)

subsection \<open>The invariant\<close>

fun code_of :: "connect_event \<Rightarrow> int" where
  "code_of (Connected peer_name sock_name) = 0"
| "code_of (ConnectError c) = c"

fun is_connected :: "connect_event \<Rightarrow> bool" where
  "is_connected (Connected peer_name sock_name) = True"
| "is_connected (ConnectError c) = False"

definition socket_part :: "tcp \<Rightarrow> bool" where
  "socket_part t \<longleftrightarrow>
     (if alive (sock t) then sock_inv (sock t)
      else readPromiseHandle (sock t) = None \<and> \<not> reading (sock t) \<and> quiet t) \<and>
     (reading (sock t) \<or> readPromiseHandle (sock t) \<noteq> None \<longrightarrow> established t \<and> quiet t)"

definition requested :: "bool \<Rightarrow> tcp \<Rightarrow> bool" where
  "requested resolved t \<longleftrightarrow> resolved \<and> (case cpc t of NotCalled \<Rightarrow> False | Resolving \<Rightarrow> False | Connecting \<Rightarrow> False | _ \<Rightarrow> True)"

definition listeners_part :: "bool \<Rightarrow> tcp \<Rightarrow> bool" where
  "listeners_part resolved t \<longleftrightarrow>
     hasData t \<and> onEnd t = [OfTransport] \<and> onClose t = [OfTransport] \<and> onData t = [OfTransport] \<and>
     (if requested resolved t
      then (onError t = [OfConnect] \<or> onError t = [OfTransport, OfConnect]) \<and> onConnect t = [OfConnect]
      else onError t = [OfTransport] \<and> onConnect t = [])"

definition untouched :: "tcp \<Rightarrow> bool" where
  "untouched t \<longleftrightarrow> resumes t = 0 \<and> \<not> pendingConnect t \<and> answer t = None"

text \<open>Between the call of \<open>tcpHandler->connect\<close> and the resumption of the coroutine.\<close>

definition attempting :: "int \<Rightarrow> tcp \<Rightarrow> bool" where
  "attempting rc t \<longleftrightarrow>
     (case answer t of
        None \<Rightarrow> resumes t = 0 \<and> err t = rc \<and> (pendingConnect t \<longleftrightarrow> rc = 0) \<and> \<not> established t
      | Some a \<Rightarrow> rc = 0 \<and> resumes t = 1 \<and> err t = code_of a \<and> \<not> pendingConnect t \<and>
          (established t \<longleftrightarrow> is_connected a))"

definition finished_with :: "bool \<Rightarrow> int \<Rightarrow> int \<Rightarrow> tcp \<Rightarrow> bool" where
  "finished_with resolved rc v t \<longleftrightarrow>
     resumes t = 0 \<and> \<not> pendingConnect t \<and>
     (case answer t of
        None \<Rightarrow> \<not> resolved \<and> v = - 1 \<and> \<not> established t
      | Some a \<Rightarrow> resolved \<and> rc = 0 \<and> v = code_of a \<and> (established t \<longleftrightarrow> is_connected a))"

definition attempt_part :: "bool \<Rightarrow> int \<Rightarrow> tcp \<Rightarrow> bool" where
  "attempt_part resolved rc t \<longleftrightarrow>
     (case cpc t of
        NotCalled \<Rightarrow> untouched t
      | Resolving \<Rightarrow> untouched t \<and> \<not> established t
      | Connecting \<Rightarrow> untouched t \<and> \<not> established t \<and> resolved
      | Unsuspended \<Rightarrow> attempting rc t \<and> resolved
      | Asleep \<Rightarrow> attempting rc t \<and> resolved
      | Returned v \<Rightarrow> finished_with resolved rc v t
      | Taken v \<Rightarrow> finished_with resolved rc v t)"

definition names_part :: "bool \<Rightarrow> int \<Rightarrow> socket \<Rightarrow> tcp \<Rightarrow> bool" where
  "names_part resolved rc s0 t \<longleftrightarrow>
     peerAddress (sock t) = peerAddress (snd (socket_connect resolved rc (answer t) s0)) \<and>
     bindAddress (sock t) = bindAddress (snd (socket_connect resolved rc (answer t) s0))"

definition tcp_inv :: "bool \<Rightarrow> int \<Rightarrow> socket \<Rightarrow> tcp \<Rightarrow> bool" where
  "tcp_inv resolved rc s0 t \<longleftrightarrow>
     socket_part t \<and> listeners_part resolved t \<and> attempt_part resolved rc t \<and> names_part resolved rc s0 t"

lemmas attempt_parts = requested_def listeners_part_def untouched_def attempting_def
  finished_with_def attempt_part_def quiet_def frame_gone_def

lemmas tcp_parts = attempt_parts socket_part_def names_part_def

lemma socket_part_cong:
  "socket_part t \<Longrightarrow> sock u = sock t \<Longrightarrow> (established t \<Longrightarrow> established u) \<Longrightarrow> (quiet t \<Longrightarrow> quiet u) \<Longrightarrow>
     socket_part u"
  by (auto simp: socket_part_def)

lemma names_part_cong:
  "names_part resolved rc s0 t \<Longrightarrow> sock u = sock t \<Longrightarrow> answer u = answer t \<Longrightarrow> names_part resolved rc s0 u"
  by (simp add: names_part_def)

lemma names_part_error:
  "names_part resolved rc s0 t \<Longrightarrow> answer t = None \<Longrightarrow> sock u = sock t \<Longrightarrow> answer u = Some (ConnectError c) \<Longrightarrow>
     names_part resolved rc s0 u"
  by (simp add: names_part_def socket_connect_def)

lemma tcp_inv_fresh:
  assumes "emitter on"
  shows "tcp_inv resolved rc (sock (setup_handler on (fresh_handle est (socket_new a b m ps))))
    (setup_handler on (fresh_handle est (socket_new a b m ps)))"
proof -
  from emitterD [OF assms, of "[]"] have "on [] OfTransport = [OfTransport]" by auto
  then show ?thesis
    using sock_inv_new [of a b m ps]
    by (simp add: tcp_inv_def tcp_parts setup_handler_def fresh_handle_def socket_new_def socket_connect_def)
qed

lemma connect_step_inv:
  assumes "emitter on" "tcp_inv resolved rc s0 t" "connect_step on resolved rc t = Some u"
  shows "tcp_inv resolved rc s0 u"
proof -
  from emitterD [OF assms(1), of "[]" OfConnect] emitterD [OF assms(1), of "[OfTransport]" OfConnect]
  have on: "on [] OfConnect = [OfConnect]"
    "on [OfTransport] OfConnect = [OfConnect] \<or> on [OfTransport] OfConnect = [OfTransport, OfConnect]"
    by simp_all
  from assms(2) have p: "socket_part t" "listeners_part resolved t" "attempt_part resolved rc t"
    "names_part resolved rc s0 t" by (simp_all add: tcp_inv_def)
  from p(3) have r: "cpc t = Connecting \<Longrightarrow> resolved" by (simp add: attempt_part_def)
  from assms(3) have "sock u = sock t \<and> answer u = answer t \<and> established u = established t \<and> \<not> quiet t"
    by (cases "cpc t") (auto simp: connect_step_def request_connect_def quiet_def frame_gone_def)
  then have "socket_part u" "names_part resolved rc s0 u"
    using socket_part_cong [OF p(1)] names_part_cong [OF p(4)] by simp_all
  moreover have "listeners_part resolved u"
    using p(2) assms(3) on r
    by (cases "cpc t")
      (auto simp: listeners_part_def requested_def connect_step_def request_connect_def split: if_splits)
  moreover have "attempt_part resolved rc u"
    using p(3) assms(3)
    by (cases "cpc t"; cases "answer t")
      (auto simp: attempt_part_def untouched_def attempting_def finished_with_def connect_step_def
        request_connect_def split: if_splits)
  ultimately show ?thesis by (simp add: tcp_inv_def)
qed

lemma resume_connect_cases:
  assumes "tcp_inv resolved rc s0 t" "resume_connect t = Some (r, u)"
  shows "cpc t = Asleep \<and> r = Inr () \<and> tcp_inv resolved rc s0 u \<or>
    cpc t = Unsuspended \<and> r = Inl (UB ResumeRunning)"
proof -
  from assms(1) have p: "socket_part t" "listeners_part resolved t" "attempt_part resolved rc t"
    "names_part resolved rc s0 t" by (simp_all add: tcp_inv_def)
  from assms(2) have n: "resumes t \<noteq> 0" by (simp add: resume_connect_def split: if_splits)
  show ?thesis
  proof (cases "cpc t")
    case Asleep
    with assms(2) n have u: "r = Inr ()" "u = t\<lparr>resumes := resumes t - 1, cpc := Returned (err t)\<rparr>"
      by (simp_all add: resume_connect_def Let_def)
    have "socket_part u" by (rule socket_part_cong [OF p(1)]) (simp_all add: u quiet_def frame_gone_def Asleep)
    moreover have "names_part resolved rc s0 u" by (rule names_part_cong [OF p(4)]) (simp_all add: u)
    moreover have "listeners_part resolved u" using p(2) Asleep by (simp add: u listeners_part_def requested_def)
    moreover have "attempt_part resolved rc u"
      using p(3) n Asleep by (cases "answer t") (simp_all add: u attempt_part_def attempting_def finished_with_def)
    ultimately show ?thesis using Asleep u(1) by (simp add: tcp_inv_def)
  qed (use p(3) n assms(2) in \<open>auto simp: attempt_part_def untouched_def finished_with_def resume_connect_def Let_def\<close>)
qed

lemma on_sock_run: "m (sock t) = (r, s) \<Longrightarrow> on_sock m t = (r, t\<lparr>sock := s\<rparr>)"
  by (simp add: on_sock_def)

text \<open>A step of the socket alone keeps the rest of the invariant.\<close>

lemma tcp_inv_sock:
  assumes "tcp_inv resolved rc s0 t" "socket_part (t\<lparr>sock := s\<rparr>)"
    and "peerAddress s = peerAddress (sock t)" "bindAddress s = bindAddress (sock t)"
  shows "tcp_inv resolved rc s0 (t\<lparr>sock := s\<rparr>)"
  using assms
  by (auto simp: tcp_inv_def listeners_part_def requested_def attempt_part_def untouched_def
      attempting_def finished_with_def names_part_def cong: if_cong option.case_cong connect_pc.case_cong)

lemma sock_event_run:
  assumes "tcp_inv resolved rc s0 t" "sock_event_allowed e t" "nobufs <s 0"
  shows "\<exists>s. sock_do nobufs e (sock t) = (sock_result e (sock t), s) \<and>
    (sock_result e (sock t) = Inr () \<longrightarrow> tcp_inv resolved rc s0 (t\<lparr>sock := s\<rparr>))"
proof -
  from assms(1) have p: "socket_part t" by (simp add: tcp_inv_def)
  from assms(2) have a: "sock_allowed e (sock t)" by (simp add: sock_event_allowed_def)
  have "\<exists>s. sock_do nobufs e (sock t) = (sock_result e (sock t), s) \<and>
    (sock_result e (sock t) = Inr () \<longrightarrow> alive (sock t) \<longrightarrow> sock_inv s)"
  proof (cases "alive (sock t)")
    case True
    with p have "sock_inv (sock t)" by (simp add: socket_part_def)
    from sock_do_result [OF this a assms(3)] show ?thesis by (auto simp: step_ok_def)
  next
    case False
    with p assms(2) a show ?thesis
      by (cases e) (auto simp: sock_event_allowed_def socket_part_def chunk_fits_def end_event_def
          close_event_def reader_result_def on_promise_def set_caller_coroutine_def andthen_def
          assert_that_run modify_run)
  qed
  then obtain s where s: "sock_do nobufs e (sock t) = (sock_result e (sock t), s)"
    "sock_result e (sock t) = Inr () \<Longrightarrow> alive (sock t) \<Longrightarrow> sock_inv s" by blast
  have n: "peerAddress s = peerAddress (sock t)" "bindAddress s = bindAddress (sock t)" "alive s = alive (sock t)"
    using start_read_names sock_do_names [OF s(1)] s(1) by (cases e; fastforce simp: same_names_def)+
  have "socket_part (t\<lparr>sock := s\<rparr>)" if ok: "sock_result e (sock t) = Inr ()"
  proof (cases "\<exists>h p n. e = EvRead h p n")
    case True
    with assms(2) s(2) [OF ok] n(3) p show ?thesis
      by (auto simp: sock_event_allowed_def socket_part_def quiet_def frame_gone_def)
  next
    case False
    with sock_do_names [OF s(1)] s(2) [OF ok] p show ?thesis
      by (auto simp: socket_part_def same_names_def quiet_def frame_gone_def)
  qed
  with tcp_inv_sock [OF assms(1) _ n(1,2)] s(1) show ?thesis by blast
qed

lemma publish_sock_run:
  assumes "listeners_part resolved t" "sock_do nobufs e (sock t) = (r, s)"
  shows "publish_sock nobufs e t = (r, t\<lparr>sock := s\<rparr>)"
  using assms
  by (cases e; cases r) (simp_all add: publish_sock_def listeners_part_def andthen_def on_sock_run ret_run)

lemma error_event_run:
  assumes "tcp_inv resolved rc s0 t" "alive (sock t)"
  shows "\<exists>s. error_event (sock t) = (reader_result (sock t), s) \<and>
    (reader_result (sock t) = Inr () \<longrightarrow> tcp_inv resolved rc s0 (t\<lparr>sock := s\<rparr>) \<and> alive s)"
proof -
  from assms have p: "socket_part t" by (simp add: tcp_inv_def)
  then have "sock_inv (sock t)" using assms(2) by (simp add: socket_part_def)
  from on_close_result [OF this] obtain s where
    s: "on_close (sock t) = (reader_result (sock t), s)" "step_ok s (reader_result (sock t))" by blast
  note n = on_close_names [OF s(1)]
  have "socket_part (t\<lparr>sock := s\<rparr>)" if "reader_result (sock t) = Inr ()"
    using n s(2) that p assms(2) unfolding step_ok_def
    by (auto simp: socket_part_def same_names_def quiet_def frame_gone_def)
  with tcp_inv_sock [OF assms(1)] n s(1) assms(2) show ?thesis
    by (auto simp: error_event_def same_names_def)
qed

lemma destroy_run:
  assumes "tcp_inv resolved rc s0 t" "alive (sock t)" "quiet t"
  shows "\<exists>s. destroy_socket (sock t) = (reader_result (sock t), s) \<and>
    (reader_result (sock t) = Inr () \<longrightarrow> tcp_inv resolved rc s0 (t\<lparr>sock := s\<rparr>))"
proof -
  let ?s = "(sock t)\<lparr>alive := False\<rparr>"
  from assms have i: "sock_inv (sock t)" by (simp add: tcp_inv_def socket_part_def)
  have "\<exists>s. on_close ?s = (reader_result (sock t), s) \<and> (reader_result (sock t) = Inr () \<longrightarrow>
    readPromiseHandle s = None \<and> \<not> reading s \<and> \<not> alive s)"
  proof (cases "readPromiseHandle (sock t)")
    case None
    then show ?thesis by (simp add: on_close_idle reader_result_def)
  next
    case (Some h)
    from i have b: "sock_base (sock t)" by (simp add: sock_inv_def)
    show ?thesis
    proof (cases "callerCoroutine (promises (sock t) h) = None")
      case True
      with sock_base_reader [OF b Some] Some raise_closed_throws [of ?s h] show ?thesis
        by (auto simp: on_close_def andthen_Inl reader_result_def)
    next
      case False
      with sock_base_reader [OF b Some] raise_and_schedule [of ?s h]
      have "andthen (raise_closed h) (\<lambda>_. schedule_resume h) ?s = (Inr (), closed_reader h ?s)" by simp
      with Some False show ?thesis
        by (simp add: on_close_def andthen_Inr tcp_close_def modify_run closed_reader_def reader_result_def)
    qed
  qed
  then obtain s where s: "on_close ?s = (reader_result (sock t), s)"
    "reader_result (sock t) = Inr () \<Longrightarrow> readPromiseHandle s = None \<and> \<not> reading s \<and> \<not> alive s"
    by blast
  have "socket_part (t\<lparr>sock := s\<rparr>)" if "reader_result (sock t) = Inr ()"
    using s(2) [OF that] assms(3) by (auto simp: socket_part_def quiet_def frame_gone_def)
  with tcp_inv_sock [OF assms(1)] on_close_names [OF s(1)] s(1) show ?thesis
    by (auto simp: destroy_socket_def same_names_def andthen_def modify_run)
qed

text \<open>The answer to an attempt: it comes once, before or after the coroutine has suspended.\<close>

lemma pending_pc:
  "tcp_inv resolved rc s0 t \<Longrightarrow> pendingConnect t \<Longrightarrow>
     (cpc t = Unsuspended \<or> cpc t = Asleep) \<and> answer t = None \<and> rc = 0 \<and> resolved \<and> alive (sock t)"
  by (cases "cpc t") (auto simp: tcp_inv_def tcp_parts split: option.splits if_splits)

lemma connected_run:
  assumes "tcp_inv resolved rc s0 t" "pendingConnect t"
  shows "\<exists>u. publish_connect p b (t\<lparr>pendingConnect := False, answer := Some (Connected p b), established := True\<rparr>)
    = (Inr (), u) \<and> tcp_inv resolved rc s0 u"
proof -
  note q = pending_pc [OF assms]
  let ?u = "t\<lparr>pendingConnect := False, answer := Some (Connected p b), established := True,
    sock := (sock t)\<lparr>peerAddress := p, bindAddress := b\<rparr>, resumes := Suc 0\<rparr>"
  from assms(1) have p: "socket_part t" "listeners_part resolved t" "attempt_part resolved rc t"
    by (simp_all add: tcp_inv_def)
  from p(2) q have l: "listeners_part resolved ?u" "onConnect t = [OfConnect]" "\<not> frame_gone t"
    by (auto simp: listeners_part_def requested_def frame_gone_def)
  from p(3) q have a: "attempt_part resolved rc ?u" "resumes t = 0"
    by (auto simp: attempt_part_def attempting_def)
  have "sock_inv ((sock t)\<lparr>peerAddress := p, bindAddress := b\<rparr>)" if "sock_inv (sock t)"
    using that by (auto simp: sock_inv_def sock_base_def waiting_for_def Sockets.idle_def split: option.splits)
  with p(1) q have s: "socket_part ?u"
    by (simp add: socket_part_def quiet_def frame_gone_def)
  have "publish_connect p b (t\<lparr>pendingConnect := False, answer := Some (Connected p b), established := True\<rparr>)
      = (Inr (), ?u)"
    using q l(2,3) a(2)
    by (simp add: publish_connect_def andthen_def ret_run connected_listener_def Let_def frame_gone_def)
  moreover have "names_part resolved rc s0 ?u" using q by (simp add: names_part_def socket_connect_def)
  ultimately show ?thesis using s l(1) a(1) by (simp add: tcp_inv_def)
qed

lemma answered_error_inv:
  assumes "tcp_inv resolved rc s0 t" "pendingConnect t"
    and "u = t\<lparr>pendingConnect := False, answer := Some (ConnectError c), err := c, resumes := Suc 0\<rparr>"
  shows "tcp_inv resolved rc s0 u"
proof -
  note q = pending_pc [OF assms(1,2)]
  from assms(1) have p: "socket_part t" "listeners_part resolved t" "attempt_part resolved rc t"
    "names_part resolved rc s0 t" by (simp_all add: tcp_inv_def)
  have "socket_part u"
    by (rule socket_part_cong [OF p(1)]) (simp_all add: assms(3) quiet_def frame_gone_def)
  moreover have "names_part resolved rc s0 u"
    using q by (intro names_part_error [OF p(4)]) (simp_all add: assms(3))
  moreover have "listeners_part resolved u" using p(2) by (simp add: assms(3) listeners_part_def requested_def)
  moreover have "attempt_part resolved rc u"
    using p(3) q by (auto simp: assms(3) attempt_part_def attempting_def)
  ultimately show ?thesis by (simp add: tcp_inv_def)
qed

lemma connect_error_run:
  assumes "tcp_inv resolved rc s0 t" "pendingConnect t"
  shows "\<exists>u. publish_error c (t\<lparr>pendingConnect := False, answer := Some (ConnectError c)\<rparr>)
    = (Inr (), u) \<and> tcp_inv resolved rc s0 u"
proof -
  note p = pending_pc [OF assms]
  from assms(1) p have "reader_result (sock t) = Inr ()"
    by (cases "cpc t") (auto simp: tcp_inv_def socket_part_def quiet_def frame_gone_def reader_result_def
        split: option.splits)
  with error_event_run [OF assms(1)] p obtain s where
    s: "error_event (sock t) = (Inr (), s)" "tcp_inv resolved rc s0 (t\<lparr>sock := s\<rparr>)" by auto
  let ?u = "t\<lparr>pendingConnect := False, answer := Some (ConnectError c), err := c, resumes := Suc 0\<rparr>"
  from p assms(1) have "resumes t = 0" "\<not> frame_gone t" "onError t = [OfConnect] \<or> onError t = [OfTransport, OfConnect]"
    by (auto simp: tcp_inv_def attempt_parts)
  with s(1) have "publish_error c (t\<lparr>pendingConnect := False, answer := Some (ConnectError c)\<rparr>) = (Inr (), ?u) \<or>
      publish_error c (t\<lparr>pendingConnect := False, answer := Some (ConnectError c)\<rparr>) = (Inr (), ?u\<lparr>sock := s\<rparr>)"
    by (auto simp: publish_error_def andthen_def ret_run error_listener_def on_sock_def frame_gone_def)
  moreover have "tcp_inv resolved rc s0 ?u" by (rule answered_error_inv [OF assms refl])
  moreover have "tcp_inv resolved rc s0 (?u\<lparr>sock := s\<rparr>)"
    by (rule answered_error_inv [OF s(2), where c = c]) (use assms(2) in simp_all)
  ultimately show ?thesis by metis
qed

text \<open>
  The failures of the transport: a second read, a read of a handle that is closing, and an exception
  for a reader whose caller has not registered.
\<close>

definition unawaited :: "socket \<Rightarrow> bool" where
  "unawaited s \<longleftrightarrow>
     (case readPromiseHandle s of None \<Rightarrow> False | Some h \<Rightarrow> callerCoroutine (promises s h) = None)"

definition socket_fault :: "tcp_event \<Rightarrow> socket \<Rightarrow> err option" where
  "socket_fault e s =
     (case e of
        OnSocket (EvRead h p n) \<Rightarrow>
          if readPromiseHandle s \<noteq> None then Some (AssertFailed ''simultaneous read on tcp socket'')
          else if n \<noteq> 0 \<and> closing s then Some (raise ClosedTransportException) else None
      | _ \<Rightarrow>
          if e \<in> {OnSocket EvEnd, OnSocket EvClosed, Destroy} \<union> range ReadError \<and> unawaited s
          then Some (raise ClosedTransportException) else None)"

lemma reader_fault:
  "reader_result s = (if unawaited s then Inl (raise ClosedTransportException) else Inr ())"
  by (simp add: reader_result_def unawaited_def split: option.split)

lemma socket_fault_simps [simp]:
  "socket_fault (OnSocket EvEnd) s = (if unawaited s then Some (raise ClosedTransportException) else None)"
  "socket_fault (OnSocket EvClosed) s = (if unawaited s then Some (raise ClosedTransportException) else None)"
  "socket_fault Destroy s = (if unawaited s then Some (raise ClosedTransportException) else None)"
  "socket_fault (ReadError c) s = (if unawaited s then Some (raise ClosedTransportException) else None)"
  "socket_fault (OnSocket (EvData bs)) s = None" "socket_fault (OnSocket (EvAwait h k)) s = None"
  "socket_fault (OnSocket EvCallClose) s = None" "socket_fault CallConnect s = None"
  "socket_fault Connector s = None" "socket_fault PoolThread s = None" "socket_fault (Answer a) s = None"
  by (auto simp: socket_fault_def)

lemma sock_result_fault:
  assumes "tcp_inv resolved rc s0 t" "sock_event_allowed e t"
  shows "sock_result e (sock t) =
    (case socket_fault (OnSocket e) (sock t) of None \<Rightarrow> Inr () | Some x \<Rightarrow> Inl x)"
proof (cases e)
  case (EvRead h p n)
  with assms have "sock_base (sock t)"
    by (simp add: tcp_inv_def socket_part_def sock_event_allowed_def sock_inv_def)
  with EvRead sock_base_flag [of "sock t"] show ?thesis by (simp add: socket_fault_def)
qed (use assms(2) in \<open>auto simp: reader_fault sock_event_allowed_def\<close>)

text \<open>An error while the handle reads.\<close>

lemma read_error_accepted:
  assumes "tcp_inv resolved rc s0 t" "reading (sock t)" "cpc t = NotCalled"
  shows "\<exists>u. publish_error c t = (reader_result (sock t), u) \<and>
    (reader_result (sock t) = Inr () \<longrightarrow> tcp_inv resolved rc s0 u)"
proof -
  from assms have "alive (sock t)" "onError t = [OfTransport]"
    by (auto simp: tcp_inv_def tcp_parts split: if_splits)
  with error_event_run [OF assms(1)] show ?thesis
    by (cases "reader_result (sock t)") (auto simp: publish_error_def andthen_def on_sock_def ret_run)
qed

lemma read_error_connected:
  assumes "tcp_inv resolved rc s0 t" "reading (sock t)" "cpc t \<noteq> NotCalled"
  shows "cpc t = Taken 0 \<and> (\<exists>x u. publish_error c t = (Inl x, u) \<and>
    (x = UB UseAfterErase \<or> reader_result (sock t) = Inl x))"
proof -
  from assms have a: "alive (sock t)" by (auto simp: tcp_inv_def socket_part_def split: if_splits)
  from assms have t: "cpc t = Taken 0" "onError t = [OfConnect] \<or> onError t = [OfTransport, OfConnect]"
    by (cases "cpc t"; cases "the (answer t)"; auto simp: tcp_inv_def tcp_parts split: option.splits)+
  from error_event_run [OF assms(1) a] obtain s where "error_event (sock t) = (reader_result (sock t), s)"
    by blast
  with t show ?thesis
    by (cases "reader_result (sock t)")
      (auto simp: publish_error_def andthen_def on_sock_def ret_run error_listener_def frame_gone_def)
qed

lemma tcp_step:
  assumes "emitter on" "nobufs <s 0" "tcp_inv resolved rc s0 t"
    and "tcp_do on nobufs resolved rc e t = Some (r, u)"
  shows "r = Inr () \<and> tcp_inv resolved rc s0 u \<and> socket_fault e (sock t) = None \<or>
    e = PoolThread \<and> cpc t = Unsuspended \<and> r = Inl (UB ResumeRunning) \<or>
    (\<exists>c. e = ReadError c) \<and> cpc t = Taken 0 \<and> r = Inl (UB UseAfterErase) \<or>
    (\<exists>x. r = Inl x \<and> socket_fault e (sock t) = Some x)"
proof (cases e)
  case CallConnect
  with assms(3,4) show ?thesis
    by (auto simp: tcp_do_def tcp_inv_def tcp_parts split: if_splits)
next
  case Connector
  with assms(4) connect_step_inv [OF assms(1,3)] show ?thesis by (auto simp: tcp_do_def)
next
  case PoolThread
  with assms(4) resume_connect_cases [OF assms(3)] show ?thesis by (auto simp: tcp_do_def)
next
  case (Answer a)
  show ?thesis
  proof (cases a)
    case (Connected p b)
    with Answer assms(4) connected_run [OF assms(3), of p b] show ?thesis
      by (auto simp: tcp_do_def Let_def split: if_splits)
  next
    case (ConnectError c)
    with Answer assms(4) connect_error_run [OF assms(3), of c] show ?thesis
      by (auto simp: tcp_do_def Let_def split: if_splits)
  qed
next
  case (ReadError c)
  with assms(4) have rd: "reading (sock t)" "publish_error c t = (r, u)"
    by (auto simp: tcp_do_def split: if_splits)
  show ?thesis
  proof (cases "cpc t = NotCalled")
    case True
    from read_error_accepted [OF assms(3) rd(1) True, of c] rd(2) ReadError show ?thesis
      by (auto simp: reader_fault split: if_splits)
  next
    case False
    from read_error_connected [OF assms(3) rd(1) False, of c] rd(2) ReadError show ?thesis
      by (auto simp: reader_fault split: if_splits)
  qed
next
  case (OnSocket se)
  with assms(4) have a: "sock_event_allowed se t" "(r, u) = publish_sock nobufs se t"
    by (auto simp: tcp_do_def split: if_splits)
  from sock_event_run [OF assms(3) a(1) assms(2)] obtain s where
    s: "sock_do nobufs se (sock t) = (sock_result se (sock t), s)"
    "sock_result se (sock t) = Inr () \<longrightarrow> tcp_inv resolved rc s0 (t\<lparr>sock := s\<rparr>)" by blast
  have "(r, u) = (sock_result se (sock t), t\<lparr>sock := s\<rparr>)"
    using a(2) publish_sock_run [of resolved, OF _ s(1)] assms(3) by (simp add: tcp_inv_def)
  with s(2) sock_result_fault [OF assms(3) a(1)] OnSocket show ?thesis by (auto split: option.splits)
next
  case Destroy
  with assms(4) destroy_run [OF assms(3)] show ?thesis
    by (fastforce simp: tcp_do_def on_sock_def reader_fault split: if_splits)
qed

lemma tcp_reach_inv:
  assumes "emitter on" "nobufs <s 0" "tcp_reach on nobufs resolved rc t0 t"
    and "tcp_inv resolved rc (sock t0) t0"
  shows "tcp_inv resolved rc (sock t0) t"
  using assms(3)
proof induction
  case init
  show ?case by (rule assms(4))
next
  case (step t e u)
  with tcp_step [OF assms(1,2) step.IH step.hyps(2)] show ?case by blast
qed

lemma client_inv:
  assumes "emitter on" "nobufs <s 0" "tcp_reach on nobufs resolved rc (create_client on a b m ps) t"
  shows "tcp_inv resolved rc (socket_new a b m ps) t"
  using tcp_reach_inv [OF assms] tcp_inv_fresh [OF assms(1), of resolved rc False a b m ps]
  by (simp add: create_client_def setup_handler_def fresh_handle_def)

lemma accepted_inv:
  assumes "emitter on" "nobufs <s 0" "tcp_reach on nobufs resolved rc (create_accepted on a b m ps) t"
  shows "tcp_inv resolved rc (socket_new a b m ps) t"
  using tcp_reach_inv [OF assms] tcp_inv_fresh [OF assms(1), of resolved rc True a b m ps]
  by (simp add: create_accepted_def setup_handler_def fresh_handle_def)

subsection \<open>What the two kinds of transport guarantee\<close>

text \<open>
  C18: the result of \<open>connect\<close>.  However the coroutine, the pool, the event loop and the users of the
  transport interleave, if \<open>connect\<close> returns then with what \<open>socket_connect\<close> of \<open>Sockets\<close> gives in one
  step: \<open>-1\<close> if the name did not resolve, \<open>0\<close> if the connection was made, the code of the error
  otherwise; and the two addresses of the transport are those the event reported, or unchanged.
\<close>

theorem connect_result:
  assumes "emitter on" "nobufs <s 0" "tcp_reach on nobufs resolved rc (create_client on a b m ps) t"
    and "cpc t = Returned v \<or> cpc t = Taken v"
  shows "\<exists>s. socket_connect resolved rc (answer t) (socket_new a b m ps) = (Some v, s) \<and>
    peerAddress (sock t) = peerAddress s \<and> bindAddress (sock t) = bindAddress s \<and>
    (if resolved then rc = 0 \<and> (\<exists>e. answer t = Some e \<and> v = code_of e) else v = - 1 \<and> answer t = None)"
proof -
  from client_inv [OF assms(1-3)] assms(4) have "finished_with resolved rc v t"
    "names_part resolved rc (socket_new a b m ps) t"
    by (auto simp: tcp_inv_def attempt_part_def)
  then show ?thesis
    by (cases "answer t"; cases "the (answer t)")
      (auto simp: finished_with_def names_part_def socket_connect_def)
qed


text \<open>The two kinds of transport: one is never the other.\<close>

lemma each_frame:
  "(\<And>l t. f' (snd (f l t)) = f' t) \<Longrightarrow> f' (snd (each f ls t)) = f' t"
proof (induction ls arbitrary: t)
  case (Cons l ls)
  from Cons.prems [of l t] Cons.IH [OF Cons.prems, of "snd (f l t)"] show ?case
    by (auto simp: andthen_def split: prod.split sum.split)
qed (simp add: ret_run)

lemma publish_frames:
  "(cpc (snd (publish_connect p b t)), established (snd (publish_connect p b t))) = (cpc t, established t)"
  "(cpc (snd (publish_error c t)), established (snd (publish_error c t))) = (cpc t, established t)"
  "(cpc (snd (publish_sock nobufs e t)), established (snd (publish_sock nobufs e t))) = (cpc t, established t)"
proof -
  note fr = each_frame [where f' = "\<lambda>t. (cpc t, established t)"]
  show "(cpc (snd (publish_connect p b t)), established (snd (publish_connect p b t))) = (cpc t, established t)"
    unfolding publish_connect_def
    by (rule fr) (simp add: connected_listener_def ret_run Let_def split: listener.split)
  show "(cpc (snd (publish_error c t)), established (snd (publish_error c t))) = (cpc t, established t)"
    unfolding publish_error_def
    by (rule fr) (simp add: error_listener_def on_sock_def split: listener.split prod.split)
  have s: "(cpc (snd (on_sock m t)), established (snd (on_sock m t))) = (cpc t, established t)" for m t
    by (simp add: on_sock_def split: prod.split)
  have o: "(cpc (snd (each (\<lambda>l. case l of OfTransport \<Rightarrow> on_sock m | OfConnect \<Rightarrow> ret ()) ls t)),
      established (snd (each (\<lambda>l. case l of OfTransport \<Rightarrow> on_sock m | OfConnect \<Rightarrow> ret ()) ls t))) =
      (cpc t, established t)" for m ls t
    by (rule fr) (use s in \<open>simp add: ret_run split: listener.split\<close>)
  show "(cpc (snd (publish_sock nobufs e t)), established (snd (publish_sock nobufs e t))) = (cpc t, established t)"
    using s o by (cases e) (simp_all add: publish_sock_def)
qed

lemma tcp_do_kind:
  assumes "tcp_do on nobufs resolved rc e t = Some (Inr (), u)"
  shows "(cpc u = NotCalled \<longleftrightarrow> cpc t = NotCalled \<and> e \<noteq> CallConnect) \<and>
    (\<not> pendingConnect t \<longrightarrow> established u = established t)"
proof -
  have f: "(cpc u, established u) = (cpc t', established t')"
    if "publish_connect p b t' = (r, u) \<or> publish_error c t' = (r, u) \<or> publish_sock nobufs se t' = (r, u)"
    for p b c se r t'
    using that publish_frames(1) [of p b t'] publish_frames(2) [of c t'] publish_frames(3) [of nobufs se t']
    by (elim disjE) simp_all
  show ?thesis
  proof (cases e)
    case Connector
    with assms show ?thesis
      by (cases "cpc t") (auto simp: tcp_do_def connect_step_def request_connect_def split: if_splits)
  next
    case PoolThread
    with assms show ?thesis
      by (cases "cpc t") (auto simp: tcp_do_def resume_connect_def Let_def split: if_splits)
  next
    case (Answer a)
    with assms f show ?thesis
      by (cases a) (force simp: tcp_do_def Let_def split: if_splits)+
  next
    case (ReadError c)
    with assms f [where c = c and t' = t and r = "Inr ()"] show ?thesis by (auto simp: tcp_do_def split: if_splits)
  next
    case (OnSocket se)
    with assms f [where se = se and t' = t and r = "Inr ()"] show ?thesis by (auto simp: tcp_do_def split: if_splits)
  qed (use assms in \<open>auto simp: tcp_do_def on_sock_def split: if_splits prod.splits\<close>)
qed

lemma client_kind:
  assumes "emitter on" "nobufs <s 0" "tcp_reach on nobufs resolved rc (create_client on a b m ps) t"
  shows "established t \<longrightarrow> cpc t \<noteq> NotCalled"
  using assms(3)
proof induction
  case init
  show ?case by (simp add: create_client_def setup_handler_def fresh_handle_def)
next
  case (step t e u)
  from client_inv [OF assms(1,2) step.hyps(1)] have "pendingConnect t \<Longrightarrow> cpc t \<noteq> NotCalled"
    using pending_pc by fastforce
  with tcp_do_kind [OF step.hyps(2)] step.IH show ?case by blast
qed

lemma accepted_kind:
  assumes "emitter on" "nobufs <s 0" "tcp_reach on nobufs resolved rc (create_accepted on a b m ps) t"
  shows "established t \<and> cpc t = NotCalled"
  using assms(3)
proof induction
  case init
  show ?case by (simp add: create_accepted_def setup_handler_def fresh_handle_def)
next
  case (step t e u)
  from accepted_inv [OF assms(1,2) step.hyps(1)] step.IH have "\<not> pendingConnect t"
    using pending_pc by fastforce
  moreover from step.hyps(2) step.IH have "e \<noteq> CallConnect" by (auto simp: tcp_do_def)
  ultimately show ?case using tcp_do_kind [OF step.hyps(2)] step.IH by blast
qed

text \<open>
  No error of reading on a connection made by \<open>connect\<close> is handled.
\<close>

lemma connected_error_unsafe:
  assumes "emitter on" "nobufs <s 0" "tcp_reach on nobufs resolved rc (create_client on a b m ps) t"
    and "reading (sock t)"
  shows "\<exists>x u. tcp_do on nobufs resolved rc (ReadError c) t = Some (Inl x, u) \<and>
    (unawaited (sock t) \<or> x = UB UseAfterErase)"
proof -
  note i = client_inv [OF assms(1-3)]
  from i assms(4) have "established t" by (simp add: tcp_inv_def socket_part_def)
  with client_kind [OF assms(1-3)] read_error_connected [OF i assms(4), of c] assms(4)
  show ?thesis by (auto simp: tcp_do_def reader_fault split: if_splits)
qed


text \<open>
  When \<open>connect\<close> does not return.  If the coroutine cannot go on by itself, no thread of the pool
  has it to resume and no answer is awaited, then it has returned and its result was taken, or it was
  never called, or \<open>tcpHandler->connect\<close> had failed at once and it is suspended; and in that last
  case no run from there makes it return.
\<close>

lemma connect_hangs:
  assumes "emitter on" "nobufs <s 0" "tcp_reach on nobufs resolved rc (create_client on a b m ps) t"
  shows "(tcp_do on nobufs resolved rc Connector t = None \<and> tcp_do on nobufs resolved rc PoolThread t = None \<and>
      \<not> pendingConnect t \<longrightarrow>
        cpc t = NotCalled \<or> (\<exists>v. cpc t = Taken v) \<or> cpc t = Asleep \<and> resolved \<and> rc \<noteq> 0) \<and>
    (resolved \<and> rc \<noteq> 0 \<longrightarrow> (\<forall>v. cpc t \<noteq> Returned v \<and> cpc t \<noteq> Taken v))"
proof -
  from client_inv [OF assms] have "attempt_part resolved rc t" by (simp add: tcp_inv_def)
  then show ?thesis
    by (cases "cpc t"; cases "answer t")
      (auto simp: attempt_part_def attempting_def finished_with_def tcp_do_def connect_step_def
        resume_connect_def Let_def)
qed

subsection \<open>Runs\<close>

abbreviation replacing :: subscribe where
  "replacing \<equiv> \<lambda>ls l. [l]"

lemma emitter_replacing: "emitter replacing"
  by (simp add: emitter_def)

definition sample_client :: tcp where
  "sample_client = create_client replacing (''a'', 1) (''b'', 2) (\<lambda>_. 0) (\<lambda>_. promise_new ())"

definition sample_accepted :: tcp where
  "sample_accepted = create_accepted replacing (''a'', 1) (''b'', 2) (\<lambda>_. 0)
     (\<lambda>_. promise_new ())"

lemmas tcp_run_simps = sample_client_def sample_accepted_def create_client_def create_accepted_def
  setup_handler_def fresh_handle_def socket_new_def tcp_do_def connect_step_def request_connect_def
  resume_connect_def Let_def publish_connect_def publish_error_def publish_sock_def connected_listener_def
  error_listener_def on_sock_def andthen_def ret_run frame_gone_def sock_event_allowed_def quiet_def
  start_read_def raw_read_def modify_run assert_that_run on_promise_def set_caller_coroutine_def

lemma nobufs_sample: "(- 105 :: u64) <s 0"
  by (simp add: word_sless_alt)

definition answered_early :: "tcp_event list" where
  "answered_early = [CallConnect, Connector, Connector, Answer (Connected (''p'', 3) (''q'', 4))]"

theorem connect_result_witness:
  "\<exists>t s. tcp_run replacing (- 105) True 0 (answered_early @ [Connector, PoolThread]) sample_client = Some (Inr (), t) \<and>
     socket_connect True 0 (answer t) (socket_new (''a'', 1) (''b'', 2) (\<lambda>_. 0) (\<lambda>_. promise_new ())) = (Some 0, s) \<and>
     peerAddress (sock t) = peerAddress s \<and> peerAddress (sock t) = (''p'', 3)"
proof -
  obtain t where t: "tcp_run replacing (- 105) True 0 (answered_early @ [Connector, PoolThread]) sample_client
      = Some (Inr (), t)" "cpc t = Returned 0" "peerAddress (sock t) = (''p'', 3)"
    by (simp add: answered_early_def tcp_run_simps)
  from tcp_run_reach [OF t(1) tcp_reach.init]
  have "tcp_reach replacing (- 105) True 0
      (create_client replacing (''a'', 1) (''b'', 2) (\<lambda>_. 0) (\<lambda>_. promise_new ())) t"
    by (simp only: sample_client_def)
  from connect_result [OF emitter_replacing nobufs_sample this, of 0] t show ?thesis by blast
qed


lemma connected_error_unsafe_witness:
  "\<exists>t u. tcp_run replacing (- 105) True 0
       (answered_early @ [Connector, PoolThread, Connector, OnSocket (EvRead 5 0 3), OnSocket (EvAwait 5 9)])
       (create_client replacing (''a'', 1) (''b'', 2) (\<lambda>_. 0) (\<lambda>_. promise_new ()))
       = Some (Inr (), t) \<and>
     tcp_do replacing (- 105) True 0 (ReadError (- 104)) t = Some (Inl (UB UseAfterErase), u)"
  by (simp add: answered_early_def tcp_run_simps awaited_def promise_new_def)


lemma connect_hangs_witness:
  "\<exists>t. tcp_run replacing (- 105) True (- 111) [CallConnect, Connector, Connector, Connector] sample_client
       = Some (Inr (), t) \<and> cpc t = Asleep \<and> (\<forall>v. cpc t \<noteq> Returned v)"
proof -
  obtain t where t: "tcp_run replacing (- 105) True (- 111) [CallConnect, Connector, Connector, Connector]
      sample_client = Some (Inr (), t)"
    "tcp_do replacing (- 105) True (- 111) Connector t = None"
    "tcp_do replacing (- 105) True (- 111) PoolThread t = None" "\<not> pendingConnect t" "cpc t \<noteq> NotCalled"
    by (simp add: tcp_run_simps)
  from tcp_run_reach [OF t(1) tcp_reach.init]
  have "tcp_reach replacing (- 105) True (- 111)
      (create_client replacing (''a'', 1) (''b'', 2) (\<lambda>_. 0) (\<lambda>_. promise_new ())) t"
    by (simp only: sample_client_def)
  from connect_hangs [OF emitter_replacing nobufs_sample this] t show ?thesis by auto
qed

end
