(* ===== verification/Main_Program.thy ===== *)
theory Main_Program
  imports Void_Waiters Thread_Pool Loop_Control Socket_Servers
begin

section \<open>The main program\<close>

text \<open>
  \<open>main\<close> of \<open>main.cpp\<close>: the start of the thread pool and of the event loop, a node that serves while
  the main thread waits for the coroutine \<open>test\<close>, and the shutdown.  The state is the product of the
  models of the parts; the main thread goes through them in the order of the code, and between its
  steps the workers, the loop thread, the coroutine with its helper and the connections of the node
  take steps of their own, and the threads that run coroutines acquire and release the lock of the
  event loop (\<open>LockCall\<close>, \<open>LockStep\<close>).  \<open>main\<close> makes 16 workers; here their number is a parameter.
\<close>

subsection \<open>State\<close>

text \<open>
  The statement the main thread is at; \<open>AtExit\<close> has the value \<open>main\<close> returned.  \<open>Terminated\<close> is the end of
  the process when a worker has popped a coroutine that is already done and its assertion fails.
\<close>

datatype main_at =
    AtStart          \<comment> \<open>the call of \<open>run\<close>\<close>
  | AtRun            \<comment> \<open>inside \<open>run\<close>\<close>
  | AtScope          \<comment> \<open>\<open>ctx\<close>, \<open>addServer\<close>, \<open>test()\<close> and the call of \<open>wait\<close>\<close>
  | AtWait           \<comment> \<open>inside \<open>wait\<close>\<close>
  | AtDestructor     \<comment> \<open>the end of the scope of \<open>ctx\<close>\<close>
  | AtWaitEmpty      \<comment> \<open>inside \<open>waitEmpty\<close>\<close>
  | AtStop           \<comment> \<open>inside \<open>stop\<close>\<close>
  | AtBlockingStop   \<comment> \<open>inside \<open>blockingStop\<close>\<close>
  | AtExit int
  | Terminated

record program =
  pool :: tpool
  eventLoop :: ctl
  ctx :: node_net
  test :: "unit sync_wait option"
  mainAt :: main_at

definition program_init :: "nat \<Rightarrow> program" where
  "program_init threadNum =
     \<lparr>pool = pool_init threadNum, eventLoop = ctl_init, ctx = node_net_new, test = None, mainAt = AtStart\<rparr>"

subsection \<open>The main thread\<close>

definition leave_scope :: "program \<Rightarrow> (err + unit) \<times> program" where
  "leave_scope s =
     (case destroy_members (ctx s) of
        (Inl x, c) \<Rightarrow> (Inl x, s\<lparr>ctx := c\<rparr>)
      | (Inr _, c) \<Rightarrow>
          (Inr (), s\<lparr>ctx := c, pool := (pool s)\<lparr>waiter := Evaluating\<rparr>, mainAt := AtWaitEmpty\<rparr>))"

definition on_event_loop :: "(ctl \<Rightarrow> ctl option) \<Rightarrow> program \<Rightarrow> ((err + unit) \<times> program) option" where
  "on_event_loop f s = map_option (\<lambda>l. (Inr (), s\<lparr>eventLoop := l\<rparr>)) (f (eventLoop s))"

definition on_ctx :: "net_event \<Rightarrow> program \<Rightarrow> ((err + unit) \<times> program) option" where
  "on_ctx e s = map_option (\<lambda>(r, c). (r, s\<lparr>ctx := c\<rparr>)) (net_do e (ctx s))"

text \<open>
  The result of \<open>addServer\<close> is not looked at.  \<open>w\<close> is the call of \<open>wait\<close> on what \<open>test()\<close> has become
  when it first returns to \<open>main\<close>.
\<close>

definition main_step ::
    "bool \<Rightarrow> int \<Rightarrow> int \<Rightarrow> unit sync_wait \<Rightarrow> program \<Rightarrow> ((err + unit) \<times> program) option" where
  "main_step pipe_ok bind_err listen_err w s =
     (case mainAt s of
        AtStart \<Rightarrow>
          (let l = run_call pipe_ok (eventLoop s) in
           Some (Inr (), s\<lparr>eventLoop := l, mainAt := (if mainPc l = RunFailed then AtExit (- 1) else AtRun)\<rparr>))
      | AtRun \<Rightarrow>
          if mainPc (eventLoop s) = MUp then Some (Inr (), s\<lparr>mainAt := AtScope\<rparr>)
          else on_event_loop run_step s
      | AtScope \<Rightarrow>
          Some (case add_server bind_err listen_err (ctx s) of
             (Inl x, c) \<Rightarrow> (Inl x, s\<lparr>ctx := c\<rparr>)
           | (Inr _, c) \<Rightarrow> (Inr (), s\<lparr>ctx := c, test := Some w, mainAt := AtWait\<rparr>))
      | AtWait \<Rightarrow>
          (case test s of
             None \<Rightarrow> None
           | Some v \<Rightarrow>
               if fate v \<noteq> Going then None
               else if waiterPc v = WReturned then Some (Inr (), s\<lparr>mainAt := AtDestructor\<rparr>)
               else map_option (\<lambda>u. (Inr (), s\<lparr>test := Some u\<rparr>)) (waiter_step v))
      | AtDestructor \<Rightarrow>
          if dtor (net_ctx (ctx s)) = DDone then Some (leave_scope s) else on_ctx (Context Destructor) s
      | AtWaitEmpty \<Rightarrow>
          (case waiter (pool s) of
             empty_waiter.Returned \<Rightarrow>
               Some (Inr (), s\<lparr>eventLoop := stop_call (eventLoop s), mainAt := AtStop\<rparr>)
           | Asleep \<Rightarrow> None
           | _ \<Rightarrow> Some (Inr (), s\<lparr>pool := wait_empty_step (pool s)\<rparr>))
      | AtStop \<Rightarrow>
          (case mainPc (eventLoop s) of
             StopReturned r \<Rightarrow> Some (Inr (), s\<lparr>mainAt := AtBlockingStop\<rparr>)
           | _ \<Rightarrow> on_event_loop stop_step s)
      | AtBlockingStop \<Rightarrow>
          if stopper (pool s) \<noteq> Joining then Some (Inr (), s\<lparr>pool := blocking_stop_step (pool s)\<rparr>)
          else if list_all (\<lambda>x. x = Exited) (workers (pool s)) then Some (Inr (), s\<lparr>mainAt := AtExit 0\<rparr>)
          else None
      | AtExit v \<Rightarrow> None
      | Terminated \<Rightarrow> None)"

subsection \<open>The other threads\<close>

fun by_others :: "pool_event \<Rightarrow> bool" where
  "by_others PCallWait = False" | "by_others PWait = False" | "by_others PStop = False"
| "by_others _ = True"

fun by_connections :: "net_event \<Rightarrow> bool" where
  "by_connections (Connection i n at_once) = True"
| "by_connections (Context e) = (e \<noteq> Destructor)"
| "by_connections _ = False"

datatype test_party = TestItself | TestHelper | SpuriousWakeup

definition test_step :: "test_party \<Rightarrow> unit sync_wait \<Rightarrow> unit sync_wait option" where
  "test_step p w =
     (if fate w \<noteq> Going then None
      else
        (case p of
           TestItself \<Rightarrow> inner_step w
         | TestHelper \<Rightarrow> void_helper_step w
         | SpuriousWakeup \<Rightarrow> if waiterPc w = WAsleep then Some (w\<lparr>waiterPc := WTest\<rparr>) else None))"

datatype prog_event =
    MainThread bool int int "unit sync_wait"
  | LoopThread bool int
  | LockCall thread
  | LockStep thread
  | PoolEvent pool_event
  | TestEvent test_party
  | NodeEvent net_event

fun has_exited :: "main_at \<Rightarrow> bool" where
  "has_exited (AtExit v) = True"
| "has_exited Terminated = True"
| "has_exited _ = False"

definition prog_do :: "prog_event \<Rightarrow> program \<Rightarrow> ((err + unit) \<times> program) option" where
  "prog_do e s =
     (if has_exited (mainAt s) then None
      else
        (case e of
           MainThread pipe_ok b l w \<Rightarrow> main_step pipe_ok b l w s
         | LoopThread ev rc \<Rightarrow> on_event_loop (loop_turn ev rc) s
         | LockCall c \<Rightarrow> on_event_loop (other_call c) s
         | LockStep c \<Rightarrow> on_event_loop (other_step c) s
         | PoolEvent pe \<Rightarrow>
             if by_others pe \<and> pool_enabled pe (pool s)
             then
               (let p = pool_do pe (pool s) in
                Some (Inr (), s\<lparr>pool := p, mainAt := (if aborted p then Terminated else mainAt s)\<rparr>))
             else None
         | TestEvent p \<Rightarrow>
             (case test s of
                None \<Rightarrow> None
              | Some w \<Rightarrow> map_option (\<lambda>u. (Inr (), s\<lparr>test := Some u\<rparr>)) (test_step p w))
         | NodeEvent ne \<Rightarrow>
             if by_connections ne \<and> (mainAt s = AtWait \<or> mainAt s = AtDestructor) then on_ctx ne s else None))"

text \<open>The coroutine \<open>main\<close> waits for is one that can be waited for.\<close>

fun legal :: "prog_event \<Rightarrow> bool" where
  "legal (MainThread pipe_ok b l w) = (\<exists>p pc out. startable p pc out \<and> w = wait_call p pc out)"
| "legal _ = True"

inductive prog_reach :: "nat \<Rightarrow> program \<Rightarrow> bool" for n where
  init: "prog_reach n (program_init n)"
| step: "prog_reach n s \<Longrightarrow> legal e \<Longrightarrow> prog_do e s = Some (Inr (), t) \<Longrightarrow> prog_reach n t"

fun prog_exec :: "prog_event list \<Rightarrow> program \<Rightarrow> program option" where
  "prog_exec [] s = Some s"
| "prog_exec (e # es) s =
     (case prog_do e s of Some (Inr _, t) \<Rightarrow> prog_exec es t | _ \<Rightarrow> None)"

lemma prog_exec_reach:
  "prog_exec es s = Some t \<Longrightarrow> prog_reach n s \<Longrightarrow> list_all legal es \<Longrightarrow> prog_reach n t"
proof (induction es arbitrary: s)
  case (Cons e es)
  then obtain u where "prog_do e s = Some (Inr (), u)" "prog_exec es u = Some t"
    by (auto split: option.splits sum.splits)
  moreover from this(1) Cons.prems(2,3) have "prog_reach n u" by (intro prog_reach.step [of n s e u]) simp_all
  ultimately show ?case using Cons.IH Cons.prems(3) by simp
qed simp

subsection \<open>Steps of the parts\<close>

lemma pool_others_frame:
  assumes "by_others e" "pool_enabled e s"
  shows "stopper (pool_do e s) = stopper s \<and>
    (aborted s \<longrightarrow> aborted (pool_do e s)) \<and>
    (waiter (pool_do e s) = waiter s \<or> waiter s = Asleep \<and> waiter (pool_do e s) = Evaluating)"
  using assms by (cases e) (auto simp: worker_step_def pool_defs Let_def split: worker.splits option.splits if_splits)

lemma loop_turn_frame:
  assumes "loop_turn ev rc s = Some t"
  shows "mainPc t = mainPc s \<and> stopping (lp t) = stopping (lp s)"
proof -
  from assms obtain l where l: "loop_step (lp s) = Some l"
    "t = s\<lparr>lp := l, loopRunResult := (if loopPc (lp s) = LRun then rc else loopRunResult s)\<rparr>"
    by (rule loop_turn_cases)
  then show ?thesis by (cases "loopPc (lp s)"; clarsimp simp: loop_step_def split: if_splits)
qed

lemma run_step_frame:
  assumes "run_step s = Some t"
  shows "mainPc t \<in> {RunAcquire, RunRelease, MUp} \<and> stopping (lp t) = stopping (lp s)"
proof (cases "mainPc s")
  case RunAcquire
  with assms acquire_client_pc(4) show ?thesis by (auto simp: run_step_def on_loop_def split: if_splits)
next
  case RunRelease
  with assms unlock_client_pc(3) show ?thesis by (auto simp: run_step_def on_loop_def split: if_splits)
qed (use assms in \<open>simp_all add: run_step_def\<close>)

text \<open>A thread that uses the lock of the event loop.\<close>

definition by_lock_user :: "(ctl \<Rightarrow> ctl option) \<Rightarrow> bool" where
  "by_lock_user f \<longleftrightarrow> (\<exists>c. f = other_call c \<or> f = other_step c)"

lemma lock_user_frame:
  assumes "by_lock_user f" "f s = Some t" "ctl_reach s"
  shows "ctl_reach t \<and> mainPc t = mainPc s \<and> stopping (lp t) = stopping (lp s)"
proof -
  obtain c where c: "other_call c s = Some t \<or> other_step c s = Some t"
    using assms(1,2) by (auto simp: by_lock_user_def)
  have "ctl_reach t"
    using c ctl_reach.step [OF assms(3), of "OtherCall c" t] ctl_reach.step [OF assms(3), of "OtherStep c" t]
    by (auto simp: ctl_do_def)
  moreover from ctl_inv_reach [OF assms(3)] c have "mainPc t = mainPc s \<and> stopping (lp t) = stopping (lp s)"
    by (rule other_cases) simp
  ultimately show ?thesis by blast
qed

lemma lock_user_idle: "by_lock_user f \<Longrightarrow> f ctl_init = None \<and> f (ctl_init\<lparr>mainPc := pc\<rparr>) = None"
  by (auto simp: by_lock_user_def other_call_def other_step_def on_loop_def client_step_def acquire_step_def
      unlock_event_loop_step_def ctl_init_def eloop_init_def)

fun stop_pc :: "main_pc \<Rightarrow> bool" where
  "stop_pc StopSet = True" | "stop_pc (StopReturned r) = True" | "stop_pc p = in_stop p"

lemma stop_step_frame: "stop_step s = Some t \<Longrightarrow> stop_pc (mainPc t)"
  by (cases "mainPc s") (auto simp: stop_step_def on_loop_def split: if_splits)

lemma main_ctl_reach:
  "ctl_reach s \<Longrightarrow> run_step s = Some t \<Longrightarrow> ctl_reach t"
  "ctl_reach s \<Longrightarrow> stop_step s = Some t \<Longrightarrow> run_step s = None \<Longrightarrow> ctl_reach t"
  "ctl_reach s \<Longrightarrow> loop_turn ev rc s = Some t \<Longrightarrow> ctl_reach t"
  using ctl_reach.step [of s Main t] ctl_reach.step [of s "Turn ev rc" t] by (simp_all add: ctl_do_def)

subsection \<open>The order of start and shutdown\<close>

definition test_returned :: "program \<Rightarrow> bool" where
  "test_returned s \<longleftrightarrow>
     (\<exists>w. test s = Some w \<and> void_wait_reach w \<and> fate w = Going \<and> waiterPc w = WReturned)"

definition node_gone :: "program \<Rightarrow> bool" where
  "node_gone s \<longleftrightarrow> phases (net_ctx (ctx s)) = Map.empty \<and> (\<forall>v\<in>set (servers (ctx s)). srvClosed v)"

text \<open>Before \<open>waitEmpty\<close> nobody stops anything.\<close>

definition up :: "program \<Rightarrow> bool" where
  "up s \<longleftrightarrow> waiter (pool s) = NotWaiting \<and> stopper (pool s) = NotStopping \<and> \<not> stopping (lp (eventLoop s))"

definition order_ok :: "program \<Rightarrow> bool" where
  "order_ok s \<longleftrightarrow>
     (stopping (lp (eventLoop s)) \<longrightarrow> test_returned s \<and> node_gone s \<and> waiter (pool s) = empty_waiter.Returned) \<and>
     (stopper (pool s) \<noteq> NotStopping \<longrightarrow> (\<exists>r. mainPc (eventLoop s) = StopReturned r))"

definition phase_ok :: "program \<Rightarrow> bool" where
  "phase_ok s \<longleftrightarrow>
     (case mainAt s of
        AtStart \<Rightarrow> up s \<and> eventLoop s = ctl_init \<and> test s = None \<and> ctx s = node_net_new
      | AtRun \<Rightarrow> up s \<and> mainPc (eventLoop s) \<in> {RunAcquire, RunRelease, MUp} \<and> test s = None \<and>
          ctx s = node_net_new
      | AtScope \<Rightarrow> up s \<and> mainPc (eventLoop s) = MUp \<and> test s = None \<and> ctx s = node_net_new
      | AtWait \<Rightarrow> up s \<and> mainPc (eventLoop s) = MUp \<and> net_reach (ctx s) \<and>
          (\<exists>w. test s = Some w \<and> void_wait_reach w)
      | AtDestructor \<Rightarrow> up s \<and> mainPc (eventLoop s) = MUp \<and> net_reach (ctx s) \<and> test_returned s
      | AtWaitEmpty \<Rightarrow> stopper (pool s) = NotStopping \<and> waiter (pool s) \<noteq> NotWaiting \<and>
          \<not> stopping (lp (eventLoop s)) \<and> mainPc (eventLoop s) = MUp \<and> test_returned s \<and> node_gone s
      | AtStop \<Rightarrow> stopper (pool s) = NotStopping \<and> waiter (pool s) = empty_waiter.Returned \<and>
          stop_pc (mainPc (eventLoop s)) \<and> test_returned s \<and> node_gone s
      | AtBlockingStop \<Rightarrow> waiter (pool s) = empty_waiter.Returned \<and>
          (\<exists>r. mainPc (eventLoop s) = StopReturned r) \<and> test_returned s \<and> node_gone s
      | AtExit v \<Rightarrow>
          v = - 1 \<and> up s \<and> eventLoop s = ctl_init\<lparr>mainPc := RunFailed\<rparr> \<and> test s = None \<and> ctx s = node_net_new \<or>
          v = 0 \<and> waiter (pool s) = empty_waiter.Returned \<and> stopper (pool s) = Joining \<and>
          list_all (\<lambda>x. x = Exited) (workers (pool s)) \<and>
          (\<exists>r. mainPc (eventLoop s) = StopReturned r) \<and> test_returned s \<and> node_gone s
      | Terminated \<Rightarrow> order_ok s)"

lemma phase_ok_order: "phase_ok s \<Longrightarrow> order_ok s"
  by (cases "mainAt s") (auto simp: phase_ok_def order_ok_def up_def ctl_init_def eloop_init_def)

definition prog_ok :: "nat \<Rightarrow> program \<Rightarrow> bool" where
  "prog_ok n s \<longleftrightarrow> pool_reach n (pool s) \<and> ctl_reach (eventLoop s) \<and>
     (aborted (pool s) \<longleftrightarrow> mainAt s = Terminated) \<and> phase_ok s"

lemma prog_ok_init: "prog_ok n (program_init n)"
  by (simp add: prog_ok_def program_init_def phase_ok_def up_def pool_reach.init ctl_reach.init)
    (simp add: pool_init_def ctl_init_def eloop_init_def)

text \<open>Destroying a coroutine removes its frame; all frames of a node have an owner in its lists.\<close>

lemma destroy_items_phases:
  "destroy_items cs s = (Inr (), t) \<Longrightarrow> phases t = phases s |` (- set (held cs))"
proof (induction cs arbitrary: s)
  case Nil
  then show ?case by (simp add: ret_run)
next
  case (Cons c cs)
  from Cons.prems obtain u where u: "destroy_coroutine (coroutine c) s = (Inr (), u)"
    "destroy_items cs u = (Inr (), t)"
    by (auto simp: andthen_def split: prod.splits sum.splits)
  show ?case
  proof (cases "coroutine c")
    case None
    with u Cons.IH show ?thesis by (simp add: destroy_coroutine_def ret_run)
  next
    case (Some h)
    with u(1) have "phases u = (phases s)(h := None)"
      by (auto simp: destroy_coroutine_def andthen_def assert_that_run on_prom_def modify_run
          split: prod.splits sum.splits if_splits)
    with Some Cons.IH [OF u(2)] show ?thesis by (auto simp: restrict_map_def fun_eq_iff)
  qed
qed

lemma leave_scope_gone:
  assumes "net_reach (ctx s)" "dtor (net_ctx (ctx s)) = DDone" "leave_scope s = (Inr (), t)"
  shows "node_gone t \<and> (\<exists>c. t = s\<lparr>ctx := c, pool := (pool s)\<lparr>waiter := Evaluating\<rparr>, mainAt := AtWaitEmpty\<rparr>)"
proof -
  let ?c = "net_ctx (ctx s)"
  from assms(3) obtain c where c: "destroy_members (ctx s) = (Inr (), c)"
    "t = s\<lparr>ctx := c, pool := (pool s)\<lparr>waiter := Evaluating\<rparr>, mainAt := AtWaitEmpty\<rparr>"
    by (auto simp: leave_scope_def split: prod.splits sum.splits)
  then obtain u v where u: "destroy_items (finishedHandlers ?c) ?c = (Inr (), u)"
    "destroy_items (map snd (serverHandlers ?c)) u = (Inr (), v)" "net_ctx c = v"
    "servers c = map socket_server_destroy (servers (ctx s))"
    by (auto simp: destroy_members_def Let_def andthen_def split: prod.splits sum.splits)
  from net_reach_ok [OF assms(1)] have "ctx_ok ?c" by (auto intro: ctx_reach_ok)
  from ctx_okD(3) [OF this] assms(2)
  have "dom (phases ?c) = set (held (map snd (serverHandlers ?c))) \<union> set (held (finishedHandlers ?c))"
    by (auto simp: owner_list_def)
  with destroy_items_phases [OF u(1)] destroy_items_phases [OF u(2)]
  have "phases v = Map.empty" by (auto simp: restrict_map_def fun_eq_iff dom_def)
  with u(3,4) c(2) show ?thesis by (auto simp: node_gone_def socket_server_destroy_def)
qed

lemma on_event_loop_run:
  "on_event_loop f s = Some (r, t) \<longleftrightarrow> r = Inr () \<and> (\<exists>l. f (eventLoop s) = Some l \<and> t = s\<lparr>eventLoop := l\<rparr>)"
  by (auto simp: on_event_loop_def)

lemma on_ctx_reach:
  assumes "net_reach (ctx s)" "on_ctx e s = Some (Inr (), t)" "e \<noteq> DestroyMembers"
  shows "\<exists>c. t = s\<lparr>ctx := c\<rparr> \<and> net_reach c"
  using assms by (auto simp: on_ctx_def intro: net_reach.step)

lemma prog_ok_start:
  assumes "prog_ok n s" "mainAt s = AtStart" "main_step ok b l w s = Some (Inr (), t)"
  shows "prog_ok n t"
proof -
  from assms(1,2) have s: "pool_reach n (pool s)" "up s" "eventLoop s = ctl_init" "test s = None"
    "ctx s = node_net_new" "\<not> aborted (pool s)" by (simp_all add: prog_ok_def phase_ok_def)
  have r: "ctl_reach (run_call ok ctl_init)"
    using ctl_reach.step [OF ctl_reach.init, of "Run ok"] by (simp add: ctl_do_def ctl_init_def)
  have call: "mainPc (run_call True ctl_init) = RunAcquire" "\<not> stopping (lp (run_call True ctl_init))"
    "run_call False ctl_init = ctl_init\<lparr>mainPc := RunFailed\<rparr>"
    using call_main_pc [OF el_reach.init]
    by (simp_all add: run_call_def ctl_init_def eloop_init_def set_client_def)
  from assms(2,3) s(3) have t: "t = s\<lparr>eventLoop := run_call ok ctl_init,
      mainAt := (if mainPc (run_call ok ctl_init) = RunFailed then AtExit (- 1) else AtRun)\<rparr>"
    by (simp add: main_step_def Let_def)
  show ?thesis
  proof (cases ok)
    case True
    with r t s call show ?thesis by (simp add: prog_ok_def phase_ok_def up_def)
  next
    case False
    with r t s call show ?thesis by (simp add: prog_ok_def phase_ok_def up_def)
  qed
qed

lemma prog_ok_run:
  assumes "prog_ok n s" "mainAt s = AtRun" "main_step ok b l w s = Some (Inr (), t)"
  shows "prog_ok n t"
proof (cases "mainPc (eventLoop s) = MUp")
  case True
  with assms show ?thesis by (auto simp: main_step_def prog_ok_def phase_ok_def up_def)
next
  case False
  with assms(2,3) obtain c where c: "run_step (eventLoop s) = Some c" "t = s\<lparr>eventLoop := c\<rparr>"
    by (auto simp: main_step_def on_event_loop_run)
  from assms(1) have r: "ctl_reach (eventLoop s)" by (simp add: prog_ok_def)
  from run_step_frame [OF c(1)] main_ctl_reach(1) [OF r c(1)] assms(1,2) c(2)
  show ?thesis by (auto simp: prog_ok_def phase_ok_def up_def)
qed

lemma prog_ok_scope:
  assumes "prog_ok n s" "mainAt s = AtScope" "main_step ok b l w s = Some (Inr (), t)"
    and "legal (MainThread ok b l w)"
  shows "prog_ok n t"
proof -
  from assms(1,2) have c: "ctx s = node_net_new" by (simp add: prog_ok_def phase_ok_def)
  have "net_reach (snd (add_server b l node_net_new))"
    using net_reach.step [OF net_reach.init, of "AddServer b l"]
    by (simp add: net_do_def node_net_new_def context_new_def add_server_run)
  moreover from assms(2,3) c have "t = s\<lparr>ctx := snd (add_server b l node_net_new), test := Some w, mainAt := AtWait\<rparr>"
    by (simp add: main_step_def add_server_run)
  moreover from assms(4) have "void_wait_reach w" by (auto intro: void_wait_reach.call)
  ultimately show ?thesis using assms(1,2) by (simp add: prog_ok_def phase_ok_def up_def)
qed

lemma prog_ok_wait:
  assumes "prog_ok n s" "mainAt s = AtWait" "main_step ok b l w s = Some (Inr (), t)"
  shows "prog_ok n t"
proof -
  from assms(1,2) obtain v where v: "test s = Some v" "void_wait_reach v"
    by (auto simp: prog_ok_def phase_ok_def)
  from assms(2,3) v(1) have f: "fate v = Going" by (auto simp: main_step_def split: if_splits)
  show ?thesis
  proof (cases "waiterPc v = WReturned")
    case True
    with assms v f show ?thesis
      by (auto simp: main_step_def prog_ok_def phase_ok_def up_def test_returned_def)
  next
    case False
    with assms(2,3) v f obtain u where u: "waiter_step v = Some u" "t = s\<lparr>test := Some u\<rparr>"
      by (auto simp: main_step_def)
    with v f have "void_wait_reach u" by (blast intro: void_wait_reach.step void_wait_step.waiter)
    with assms(1,2) u(2) show ?thesis by (auto simp: prog_ok_def phase_ok_def up_def)
  qed
qed

lemma prog_ok_destructor:
  assumes "prog_ok n s" "mainAt s = AtDestructor" "main_step ok b l w s = Some (Inr (), t)"
  shows "prog_ok n t"
proof -
  from assms(1,2) have s: "net_reach (ctx s)" "up s" "test_returned s" "pool_reach n (pool s)"
    "ctl_reach (eventLoop s)" "mainPc (eventLoop s) = MUp" "\<not> aborted (pool s)"
    by (simp_all add: prog_ok_def phase_ok_def)
  show ?thesis
  proof (cases "dtor (net_ctx (ctx s)) = DDone")
    case True
    with assms(2,3) leave_scope_gone [OF s(1)] obtain c where t: "node_gone t"
      "t = s\<lparr>ctx := c, pool := (pool s)\<lparr>waiter := Evaluating\<rparr>, mainAt := AtWaitEmpty\<rparr>"
      by (auto simp: main_step_def)
    from assms(1,2) have a: "\<not> aborted (pool s)" by (simp add: prog_ok_def)
    with s(2,4) have "pool_reach n ((pool s)\<lparr>waiter := Evaluating\<rparr>)"
      by (auto simp: up_def intro: pool_reach.step pool_step.call_wait_empty)
    with a s t show ?thesis by (simp add: prog_ok_def phase_ok_def up_def test_returned_def)
  next
    case False
    with assms(2,3) have "on_ctx (Context Destructor) s = Some (Inr (), t)" by (simp add: main_step_def)
    from on_ctx_reach [OF s(1) this] s assms(2) show ?thesis
      by (auto simp: prog_ok_def phase_ok_def up_def test_returned_def)
  qed
qed

lemma prog_ok_wait_empty:
  assumes "prog_ok n s" "mainAt s = AtWaitEmpty" "main_step ok b l w s = Some (Inr (), t)"
  shows "prog_ok n t"
proof (cases "waiter (pool s) = empty_waiter.Returned")
  case True
  from assms(1,2) have m: "mainPc (eventLoop s) = MUp" "ctl_reach (eventLoop s)"
    by (simp_all add: prog_ok_def phase_ok_def)
  then have "created (eventLoop s)"
    using ctl_inv_reach [OF m(2)] by (simp add: ctl_inv_def pc_agrees_def)
  with m ctl_reach.step [OF m(2), of Stop] True assms show ?thesis
    by (auto simp: main_step_def prog_ok_def phase_ok_def ctl_do_def stop_call_def loop_alive_def test_returned_def node_gone_def)
next
  case False
  with assms(1-3) have t: "waiter (pool s) \<in> {Evaluating, FoundTasks}" "t = s\<lparr>pool := wait_empty_step (pool s)\<rparr>"
    by (cases "waiter (pool s)"; auto simp: main_step_def prog_ok_def phase_ok_def)+
  from assms(1,2) pool_reach.step [OF _ _ pool_step.wait_empty [OF t(1)]]
  have "pool_reach n (wait_empty_step (pool s))" by (simp add: prog_ok_def)
  moreover have "waiter (wait_empty_step (pool s)) \<noteq> NotWaiting \<and>
      aborted (wait_empty_step (pool s)) = aborted (pool s) \<and>
      stopper (wait_empty_step (pool s)) = stopper (pool s)"
    using t(1) by (auto simp: wait_empty_step_def)
  ultimately show ?thesis
    using assms(1,2) t(2) by (simp add: prog_ok_def phase_ok_def test_returned_def node_gone_def)
qed

lemma prog_ok_stop:
  assumes "prog_ok n s" "mainAt s = AtStop" "main_step ok b l w s = Some (Inr (), t)"
  shows "prog_ok n t"
proof (cases "\<exists>r. mainPc (eventLoop s) = StopReturned r")
  case True
  with assms show ?thesis
    by (auto simp: main_step_def prog_ok_def phase_ok_def test_returned_def node_gone_def)
next
  case False
  with assms(2,3) obtain c where c: "stop_step (eventLoop s) = Some c" "t = s\<lparr>eventLoop := c\<rparr>"
    by (cases "mainPc (eventLoop s)") (auto simp: main_step_def on_event_loop_run)
  from assms(1,2) have r: "ctl_reach (eventLoop s)" "stop_pc (mainPc (eventLoop s))"
    by (simp_all add: prog_ok_def phase_ok_def)
  from r(2) have "run_step (eventLoop s) = None" by (cases "mainPc (eventLoop s)") (simp_all add: run_step_def)
  from main_ctl_reach(2) [OF r(1) c(1) this] stop_step_frame [OF c(1)] assms(1,2) c(2) show ?thesis
    by (auto simp: prog_ok_def phase_ok_def test_returned_def node_gone_def)
qed

lemma prog_ok_blocking_stop:
  assumes "prog_ok n s" "mainAt s = AtBlockingStop" "main_step ok b l w s = Some (Inr (), t)"
  shows "prog_ok n t"
proof (cases "stopper (pool s) = Joining")
  case True
  with assms show ?thesis
    by (auto simp: main_step_def prog_ok_def phase_ok_def test_returned_def node_gone_def split: if_splits)
next
  case False
  have w: "waiter (blocking_stop_step p) = waiter p \<and> aborted (blocking_stop_step p) = aborted p" for p
    by (auto simp: blocking_stop_step_def push_task_def split: stopper.split nat.split)
  from False assms(2,3) have "t = s\<lparr>pool := blocking_stop_step (pool s)\<rparr>" by (simp add: main_step_def)
  with False assms(1,2) w pool_reach.step [OF _ _ pool_step.stop [OF False]] show ?thesis
    by (auto simp: prog_ok_def phase_ok_def test_returned_def node_gone_def)
qed

text \<open>The steps of the other threads.\<close>

lemma prog_ok_loop:
  assumes "prog_ok n s" "on_event_loop (loop_turn ev rc) s = Some (Inr (), t)" "\<not> has_exited (mainAt s)"
    and "mainAt s \<noteq> AtStart"
  shows "prog_ok n t"
proof -
  from assms(2) obtain c where c: "loop_turn ev rc (eventLoop s) = Some c" "t = s\<lparr>eventLoop := c\<rparr>"
    by (auto simp: on_event_loop_run)
  from main_ctl_reach(3) [OF _ c(1)] loop_turn_frame [OF c(1)] assms(1,3,4) c(2) show ?thesis
    by (cases "mainAt s") (auto simp: prog_ok_def phase_ok_def up_def test_returned_def node_gone_def)
qed

lemma prog_ok_lock_user:
  assumes "prog_ok n s" "on_event_loop f s = Some (Inr (), t)" "by_lock_user f" "\<not> has_exited (mainAt s)"
  shows "prog_ok n t"
proof -
  from assms(2) obtain c where c: "f (eventLoop s) = Some c" "t = s\<lparr>eventLoop := c\<rparr>"
    by (auto simp: on_event_loop_run)
  from assms(1) have r: "ctl_reach (eventLoop s)" by (simp add: prog_ok_def)
  have "mainAt s \<noteq> AtStart"
    using assms(1) c(1) lock_user_idle [OF assms(3)] by (auto simp: prog_ok_def phase_ok_def)
  with lock_user_frame [OF assms(3) c(1) r] assms(1,4) c(2) show ?thesis
    by (cases "mainAt s") (auto simp: prog_ok_def phase_ok_def up_def test_returned_def node_gone_def)
qed

lemma prog_ok_pool:
  assumes "prog_ok n s" "by_others e" "pool_enabled e (pool s)" "\<not> has_exited (mainAt s)"
    and "t = s\<lparr>pool := pool_do e (pool s),
      mainAt := (if aborted (pool_do e (pool s)) then Terminated else mainAt s)\<rparr>"
  shows "prog_ok n t"
proof -
  let ?u = "s\<lparr>pool := pool_do e (pool s)\<rparr>"
  from assms(1,4) have a: "\<not> aborted (pool s)" by (auto simp: prog_ok_def)
  with assms(1) pool_reach.step [OF _ _ pool_enabled_step [OF assms(3)]]
  have p: "pool_reach n (pool_do e (pool s))" "ctl_reach (eventLoop s)" by (simp_all add: prog_ok_def)
  have u: "phase_ok ?u"
    using pool_others_frame [OF assms(2,3)] assms(1,4)
    by (cases "mainAt s") (auto simp: prog_ok_def phase_ok_def up_def test_returned_def node_gone_def)
  show ?thesis
  proof (cases "aborted (pool_do e (pool s))")
    case True
    with phase_ok_order [OF u] p assms(5) show ?thesis
      by (simp add: prog_ok_def phase_ok_def order_ok_def test_returned_def node_gone_def)
  next
    case False
    with assms(1,4) u p assms(5) show ?thesis by (auto simp: prog_ok_def)
  qed
qed

lemma test_step_reach:
  assumes "void_wait_reach w" "test_step p w = Some u"
  shows "void_wait_reach u \<and> \<not> (fate w = Going \<and> waiterPc w = WReturned)"
proof
  from assms(2) have f: "fate w = Going" by (auto simp: test_step_def split: if_splits)
  have "void_wait_step w u"
    using assms(2) f void_wait_step.inner [OF f] void_wait_step.helper [OF f] void_wait_step.spurious [OF f]
    by (cases p) (simp_all add: test_step_def split: if_splits)
  then show "void_wait_reach u" by (rule void_wait_reach.step [OF assms(1)])
  show "\<not> (fate w = Going \<and> waiterPc w = WReturned)"
  proof
    assume r: "fate w = Going \<and> waiterPc w = WReturned"
    with void_wait_returns [OF assms(1)] have "inner w = IDone" "helper w = HDone" by simp_all
    with assms(2) r show False
      by (cases p) (simp_all add: test_step_def inner_step_def void_helper_step_def helper_step_def)
  qed
qed

lemma prog_ok_test:
  assumes "prog_ok n s" "test s = Some w" "test_step p w = Some u" "\<not> has_exited (mainAt s)"
  shows "prog_ok n (s\<lparr>test := Some u\<rparr>)"
proof -
  have "mainAt s = AtWait \<and> void_wait_reach w"
    using assms test_step_reach [of w p u]
    by (cases "mainAt s") (auto simp: prog_ok_def phase_ok_def test_returned_def)
  with test_step_reach [of w p u] assms(1,3) show ?thesis by (simp add: prog_ok_def phase_ok_def up_def)
qed

lemma prog_ok_node:
  assumes "prog_ok n s" "on_ctx e s = Some (Inr (), t)" "by_connections e"
    and "mainAt s = AtWait \<or> mainAt s = AtDestructor"
  shows "prog_ok n t"
proof -
  from assms(1,4) have "net_reach (ctx s)" by (auto simp: prog_ok_def phase_ok_def)
  moreover from assms(3) have "e \<noteq> DestroyMembers" by auto
  ultimately obtain c where "t = s\<lparr>ctx := c\<rparr>" "net_reach c" using on_ctx_reach assms(2) by blast
  with assms(1,4) show ?thesis by (auto simp: prog_ok_def phase_ok_def up_def test_returned_def)
qed

lemma prog_ok_do:
  assumes "prog_ok n s" "legal e" "prog_do e s = Some (Inr (), t)"
  shows "prog_ok n t"
proof -
  from assms(3) have x: "\<not> has_exited (mainAt s)" by (auto simp: prog_do_def split: if_splits)
  show ?thesis
  proof (cases e)
    case (MainThread ok b l w)
    with assms(3) x have m: "main_step ok b l w s = Some (Inr (), t)" by (simp add: prog_do_def)
    show ?thesis
    proof (cases "mainAt s")
      case AtStart
      from prog_ok_start [OF assms(1) this m] show ?thesis .
    next
      case AtRun
      from prog_ok_run [OF assms(1) this m] show ?thesis .
    next
      case AtScope
      from prog_ok_scope [OF assms(1) this m] assms(2) MainThread show ?thesis by blast
    next
      case AtWait
      from prog_ok_wait [OF assms(1) this m] show ?thesis .
    next
      case AtDestructor
      from prog_ok_destructor [OF assms(1) this m] show ?thesis .
    next
      case AtWaitEmpty
      from prog_ok_wait_empty [OF assms(1) this m] show ?thesis .
    next
      case AtStop
      from prog_ok_stop [OF assms(1) this m] show ?thesis .
    next
      case AtBlockingStop
      from prog_ok_blocking_stop [OF assms(1) this m] show ?thesis .
    qed (use x in simp_all)
  next
    case (LoopThread ev rc)
    with assms(3) x have l: "on_event_loop (loop_turn ev rc) s = Some (Inr (), t)" by (simp add: prog_do_def)
    then have "mainAt s \<noteq> AtStart"
      using assms(1) by (auto simp: prog_ok_def phase_ok_def on_event_loop_run loop_turn_def ctl_init_def)
    with prog_ok_loop [OF assms(1) l x] show ?thesis by blast
  next
    case (LockCall c)
    with assms(3) x have "on_event_loop (other_call c) s = Some (Inr (), t)" by (simp add: prog_do_def)
    from prog_ok_lock_user [OF assms(1) this _ x] show ?thesis by (auto simp: by_lock_user_def)
  next
    case (LockStep c)
    with assms(3) x have "on_event_loop (other_step c) s = Some (Inr (), t)" by (simp add: prog_do_def)
    from prog_ok_lock_user [OF assms(1) this _ x] show ?thesis by (auto simp: by_lock_user_def)
  next
    case (PoolEvent pe)
    with assms(3) x have "by_others pe" "pool_enabled pe (pool s)"
      "t = s\<lparr>pool := pool_do pe (pool s),
        mainAt := (if aborted (pool_do pe (pool s)) then Terminated else mainAt s)\<rparr>"
      by (simp_all add: prog_do_def Let_def split: if_splits)
    with prog_ok_pool [OF assms(1) _ _ x] show ?thesis by blast
  next
    case (TestEvent p)
    with assms(3) x obtain w u where "test s = Some w" "test_step p w = Some u" "t = s\<lparr>test := Some u\<rparr>"
      by (auto simp: prog_do_def split: option.splits)
    with prog_ok_test [OF assms(1)] x show ?thesis by blast
  next
    case (NodeEvent ne)
    with assms x prog_ok_node show ?thesis by (auto simp: prog_do_def split: if_splits)
  qed
qed

lemma prog_ok_reach: "prog_reach n s \<Longrightarrow> prog_ok n s"
  by (induction rule: prog_reach.induct) (blast intro: prog_ok_init prog_ok_do)+

subsection \<open>Properties\<close>


text \<open>
  C26: the parts are taken down in the right order.  The event loop is told to stop only after the
  coroutine \<open>test\<close> has ended, the node is gone and \<open>waitEmpty\<close> has returned; the workers are told to
  stop only after the loop thread has ended, so no callback hands a coroutine to a pool that is being
  stopped.
\<close>

theorem main_shutdown_order:
  assumes "prog_reach n s"
  shows "(stopping (lp (eventLoop s)) \<longrightarrow>
      (\<exists>w. test s = Some w \<and> inner w = IDone \<and> innerEnds w = outcome.Returned ()) \<and>
      phases (net_ctx (ctx s)) = Map.empty \<and> (\<forall>x\<in>set (servers (ctx s)). srvClosed x) \<and>
      waiter (pool s) = empty_waiter.Returned) \<and>
    (stopFlag (pool s) \<longrightarrow> loopPc (lp (eventLoop s)) = LDone)"
proof -
  note ok = prog_ok_reach [OF assms]
  then have r: "ctl_inv (eventLoop s)" "stop_supply (pool s)"
    by (auto simp: prog_ok_def intro: ctl_inv_reach stop_supply_reach)
  have t: "\<exists>w. test s = Some w \<and> inner w = IDone \<and> innerEnds w = outcome.Returned ()" if "test_returned s"
    using that void_wait_returns by (auto simp: test_returned_def)
  from ok have "order_ok s" by (simp add: prog_ok_def phase_ok_order)
  with t r show ?thesis
    by (auto simp: order_ok_def node_gone_def ctl_inv_def pc_agrees_def stop_supply_def)
qed

text \<open>
  C27: the shutdown is not deadlocked.  From the moment \<open>waitEmpty\<close> has returned until \<open>main\<close> returns, the
  main thread can go on, or the loop thread can, without an event of libuv, or a thread that is
  acquiring or holding the lock of the event loop, or a worker can, or a notification of the pool is
  still to be delivered.  (The step may be the repeated \<open>try_write\<close> of a thread that finds the pipe of
  the loop full.)
\<close>

theorem main_shutdown_progress:
  assumes "prog_reach n s" "mainAt s = AtStop \<or> mainAt s = AtBlockingStop"
  shows "(\<exists>t. prog_do (MainThread ok b l w) s = Some (Inr (), t)) \<or>
    (\<exists>t. prog_do (LoopThread False rc) s = Some (Inr (), t)) \<or>
    (\<exists>c t. prog_do (LockStep c) s = Some (Inr (), t)) \<or>
    (\<exists>i t. prog_do (PoolEvent (PWork i)) s = Some (Inr (), t)) \<or>
    (\<exists>i t. prog_do (PoolEvent (PNotify i)) s = Some (Inr (), t)) \<or>
    (\<exists>t. prog_do (PoolEvent PMiss) s = Some (Inr (), t))"
proof -
  note ok = prog_ok_reach [OF assms(1)]
  then have r: "ctl_inv (eventLoop s)" "pool_reach n (pool s)"
    by (auto simp: prog_ok_def intro: ctl_inv_reach)
  show ?thesis
  proof (cases "mainAt s = AtStop")
    case True
    with ok have p: "stop_pc (mainPc (eventLoop s))" by (simp add: prog_ok_def phase_ok_def)
    have "(\<exists>t. main_step ok b l w s = Some (Inr (), t)) \<or>
        (\<exists>t. on_event_loop (loop_turn False rc) s = Some (Inr (), t)) \<or>
        (\<exists>c t. on_event_loop (other_step c) s = Some (Inr (), t))"
    proof (cases "in_stop (mainPc (eventLoop s))")
      case in_stop: True
      from stop_not_stuck [OF r(1) in_stop, of rc]
      consider t where "stop_step (eventLoop s) = Some t" | t where "loop_turn False rc (eventLoop s) = Some t"
        | c t where "other_step c (eventLoop s) = Some t" by blast
      then show ?thesis
      proof cases
        case 1
        with True in_stop have "\<exists>t. main_step ok b l w s = Some (Inr (), t)"
          by (cases "mainPc (eventLoop s)") (auto simp: main_step_def on_event_loop_run)
        then show ?thesis by blast
      qed (use on_event_loop_run in blast)+
    next
      case False
      with p True show ?thesis
        by (cases "mainPc (eventLoop s)") (auto simp: main_step_def on_event_loop_run stop_step_def)
    qed
    with True show ?thesis by (auto simp: prog_do_def)
  next
    case False
    with assms(2) have b: "mainAt s = AtBlockingStop" by simp
    show ?thesis
    proof (cases "stopper (pool s) = Joining \<and> \<not> list_all (\<lambda>x. x = Exited) (workers (pool s))")
      case False
      with b show ?thesis by (auto simp: prog_do_def main_step_def)
    next
      case True
      then obtain i where i: "i < length (workers (pool s))" "workers (pool s) ! i \<noteq> Exited"
        by (auto simp: list_all_length)
      show ?thesis
      proof (cases "num (\<lambda>w. w = Blocked) (workers (pool s)) = 0")
        case n: True
        with i(1) have "workers (pool s) ! i \<noteq> Blocked" by (simp add: num_0_iff)
        with i(2) have "worker_step i (pool s) \<noteq> None"
          by (cases "workers (pool s) ! i") (auto simp: worker_step_def)
        with i(1) b have "\<exists>t. prog_do (PoolEvent (PWork i)) s = Some (Inr (), t)" by (simp add: prog_do_def Let_def)
        then show ?thesis by blast
      next
        case n: False
        then obtain j where "j < length (workers (pool s))" "workers (pool s) ! j = Blocked"
          by (auto simp: num_0_iff)
        moreover from n joining_awake [OF r(2)] True have "0 < notifies (pool s)" by auto
        ultimately have "\<exists>t. prog_do (PoolEvent (PNotify j)) s = Some (Inr (), t)"
          using b by (simp add: prog_do_def Let_def)
        then show ?thesis by blast
      qed
    qed
  qed
qed

text \<open>
  What \<open>waitEmpty\<close> does not wait for.  It returns when the queue is empty, not when the workers are
  idle; a coroutine one of them still runs can schedule another afterwards, and \<open>blockingStop\<close> lets the
  workers exit with it in the queue: it is never resumed.
\<close>

lemma stop_drops_tasks:
  "\<exists>s. pool_reach 1 s \<and> waiter s = empty_waiter.Returned \<and> stopper s = Joining \<and>
     list_all (\<lambda>x. x = Exited) (workers s) \<and> Some 7 \<in> set (tasks s)"
proof -
  let ?es = "[PSchedule 5, PWork 0, PWork 0, PCallWait, PWait, PSchedule 7, PStop, PStop, PStop, PWork 0, PWork 0]"
  obtain s where "pool_exec ?es (pool_init 1) = Some s" "waiter s = empty_waiter.Returned" "stopper s = Joining"
    "list_all (\<lambda>x. x = Exited) (workers s)" "Some 7 \<in> set (tasks s)"
    by (simp add: pool_run)
  with pool_exec_init show ?thesis by blast
qed

subsection \<open>A whole run\<close>

definition sample_wait :: "unit sync_wait" where
  "sample_wait = wait_call (promise_new ()) IRunning (outcome.Returned ())"

abbreviation main_move :: prog_event where
  "main_move \<equiv> MainThread True 0 0 sample_wait"

lemma legal_main_move: "legal main_move"
  by (simp add: sample_wait_def) (blast intro: startable_running)

text \<open>From the start into \<open>wait\<close>, through the node, to \<open>stop\<close>, and to the end.\<close>

definition run_to_wait :: "prog_event list" where
  "run_to_wait = replicate 12 main_move"

definition run_to_stop :: "prog_event list" where
  "run_to_stop = run_to_wait @
     [TestEvent TestHelper, TestEvent TestHelper, main_move, main_move, TestEvent TestItself,
      TestEvent TestItself, TestEvent TestHelper, TestEvent TestHelper, TestEvent TestHelper,
      TestEvent TestHelper, TestEvent TestHelper] @ replicate 11 main_move"

definition run_to_exit :: "prog_event list" where
  "run_to_exit = run_to_stop @ [LoopThread False 0, LoopThread False 0] @ replicate 5 main_move @
     [LoopThread False 7, LoopThread False 0] @ replicate 7 main_move @ replicate 3 (LoopThread False 0) @
     replicate 5 main_move @ [PoolEvent (PWork 0), main_move]"

lemma run_legal: "list_all legal run_to_exit" "list_all legal (run_to_stop @ [main_move])"
  using legal_main_move by (simp_all del: legal.simps(1) add: run_to_exit_def run_to_stop_def run_to_wait_def list_all_iff)


theorem main_shutdown_order_witness:
  "\<exists>s. prog_exec (run_to_stop @ [main_move]) (program_init 1) = Some s \<and> stopping (lp (eventLoop s)) \<and>
     phases (net_ctx (ctx s)) = Map.empty \<and> waiter (pool s) = empty_waiter.Returned"
proof -
  have "map_option (\<lambda>s. stopping (lp (eventLoop s))) (prog_exec (run_to_stop @ [main_move]) (program_init 1))
      = Some True" by code_simp
  then obtain s where s: "prog_exec (run_to_stop @ [main_move]) (program_init 1) = Some s"
    "stopping (lp (eventLoop s))" by auto
  from main_shutdown_order [OF prog_exec_reach [OF s(1) prog_reach.init run_legal(2)]] s show ?thesis by blast
qed

theorem main_shutdown_progress_witness:
  "\<exists>s. prog_exec (run_to_stop @ [main_move]) (program_init 1) = Some s \<and> mainAt s = AtStop \<and>
     (\<exists>e t. prog_do e s = Some (Inr (), t))"
proof -
  have "map_option mainAt (prog_exec (run_to_stop @ [main_move]) (program_init 1)) = Some AtStop" by code_simp
  then obtain s where s: "prog_exec (run_to_stop @ [main_move]) (program_init 1) = Some s"
    "mainAt s = AtStop" by auto
  from main_shutdown_progress [OF prog_exec_reach [OF s(1) prog_reach.init run_legal(2)] disjI1 [OF s(2)]] s
  show ?thesis by blast
qed

end
