(* ===== verification/Demonstration.thy ===== *)
theory Demonstration
  imports Calls
begin

section \<open>The demonstration coroutine\<close>

text \<open>
  The coroutine \<open>test\<close> of \<open>main.cpp\<close>: it connects \<open>n\<close> clients to the server of its own process one
  after the other, sends two Pings with \<open>sendSmallRequest\<close> on each, both from one \<open>RequestBuffer\<close>, and
  awaits the responses.  A step of \<open>test\<close> is one round of one of its loops; between the steps headers
  of responses arrive at the clients, and woken senders go on.  In the code \<open>n\<close> is 4096.  The results
  of \<open>connect\<close> are parameters; what they can be is the subject of \<open>Connections\<close>.
\<close>

subsection \<open>The coroutine\<close>

text \<open>
  \<open>Connecting i\<close>: before round \<open>i\<close> of the first loop; \<open>Sending k\<close>: before request \<open>k\<close> of the second, two
  to a round; \<open>Awaiting k\<close>: before or inside the \<open>co_await\<close> of \<open>coros[k]\<close>.
\<close>

datatype test_at = Connecting nat | Sending nat | Awaiting nat | TestReturned

record demo =
  testAt :: test_at
  clients :: "client list"
  req :: buffer               \<comment> \<open>the \<open>RequestBuffer\<close> of the current round\<close>
  ended :: "nat list"         \<comment> \<open>the coroutines \<open>coros[k]\<close> that have ended\<close>

definition demo_init :: demo where
  "demo_init =
     \<lparr>testAt = Connecting 0, clients = [], req = buffer_default, ended = []\<rparr>"

text \<open>
  \<open>client[k / 2]->sendSmallRequest(CommandId_Ping, req, 0)\<close> up to its first suspension; the coroutine
  \<open>coros[k]\<close> is its handle.
\<close>

definition send_ping :: "(nat \<Rightarrow> u8) \<Rightarrow> nat \<Rightarrow> demo \<Rightarrow> ((err + unit) \<times> demo) option" where
  "send_ping fresh k d =
     (let b = (if even k then request_buffer fresh 0 else req d) in
      case send_request k CommandId_Ping b 0 (clients d ! (k div 2)) of
        None \<Rightarrow> None
      | Some (Inl x, s) \<Rightarrow> Some (Inl x, d\<lparr>clients := (clients d)[k div 2 := s]\<rparr>)
      | Some (Inr _, s) \<Rightarrow>
          Some (Inr (), d\<lparr>clients := (clients d)[k div 2 := s],
            req := snd (set_header \<lparr>requestLength = blen b - of_nat request_header_size,
                     methodId = CommandId_Ping, tag = the (senders s k)\<rparr> b),
            testAt := Sending (Suc k)\<rparr>))"

definition test_round :: "nat \<Rightarrow> (nat \<Rightarrow> u8) \<Rightarrow> int \<Rightarrow> demo \<Rightarrow> ((err + unit) \<times> demo) option" where
  "test_round n fresh conn d =
     (case testAt d of
        Connecting i \<Rightarrow>
          if i = n then Some (Inr (), d\<lparr>testAt := Sending 0\<rparr>)
          else if conn \<noteq> 0 then Some (Inr (), d\<lparr>testAt := TestReturned\<rparr>)
          else Some (Inr (), d\<lparr>clients := clients d @ [client_new], testAt := Connecting (Suc i)\<rparr>)
      | Sending k \<Rightarrow>
          if k = 2 * n then Some (Inr (), d\<lparr>testAt := Awaiting 0\<rparr>) else send_ping fresh k d
      | Awaiting k \<Rightarrow>
          if k = 2 * n then Some (Inr (), d\<lparr>testAt := TestReturned\<rparr>)
          else if k \<in> set (ended d) then Some (Inr (), d\<lparr>testAt := Awaiting (Suc k)\<rparr>)
          else None
      | TestReturned \<Rightarrow> None)"

subsection \<open>What else happens\<close>

text \<open>
  A header arrives at a client, or its transport fails; or the sender \<open>k\<close>, woken by a response, goes
  on to the end of \<open>sendSmallRequest\<close>.
\<close>

datatype demo_event =
    TestRound int | Arrival nat response_header | Disconnect nat | SenderGoesOn nat bytes

definition client_event_at :: "nat \<Rightarrow> client_event \<Rightarrow> demo \<Rightarrow> ((err + unit) \<times> demo) option" where
  "client_event_at j e d =
     (if j < length (clients d)
      then map_option (\<lambda>(r, s). (r, d\<lparr>clients := (clients d)[j := s]\<rparr>)) (client_do e (clients d ! j))
      else None)"

definition sender_goes_on :: "(nat \<Rightarrow> u8) \<Rightarrow> nat \<Rightarrow> bytes \<Rightarrow> demo \<Rightarrow> ((err + unit) \<times> demo) option" where
  "sender_goes_on fresh k body d =
     (let j = k div 2; s = clients d ! j in
      if j < length (clients d) \<and> k \<in> set (woken s)
      then
        (case send_small_finish fresh body (the (senders s k)) (s\<lparr>woken := remove1 k (woken s)\<rparr>) of
           None \<Rightarrow> None
         | Some (Inl x, t) \<Rightarrow> Some (Inl x, d\<lparr>clients := (clients d)[j := t]\<rparr>)
         | Some (Inr _, t) \<Rightarrow> Some (Inr (), d\<lparr>clients := (clients d)[j := t], ended := k # ended d\<rparr>))
      else None)"

definition demo_do :: "nat \<Rightarrow> (nat \<Rightarrow> u8) \<Rightarrow> demo_event \<Rightarrow> demo \<Rightarrow> ((err + unit) \<times> demo) option" where
  "demo_do n fresh e d =
     (case e of
        TestRound conn \<Rightarrow> test_round n fresh conn d
      | Arrival j rh \<Rightarrow> client_event_at j (Response rh) d
      | Disconnect j \<Rightarrow> client_event_at j ReadFailed d
      | SenderGoesOn k body \<Rightarrow> sender_goes_on fresh k body d)"

inductive demo_reach :: "nat \<Rightarrow> (nat \<Rightarrow> u8) \<Rightarrow> demo \<Rightarrow> bool" for n fresh where
  init: "demo_reach n fresh demo_init"
| step: "demo_reach n fresh d \<Longrightarrow> demo_do n fresh e d = Some (Inr (), d') \<Longrightarrow> demo_reach n fresh d'"

fun demo_exec :: "nat \<Rightarrow> (nat \<Rightarrow> u8) \<Rightarrow> demo_event list \<Rightarrow> demo \<Rightarrow> demo option" where
  "demo_exec n fresh [] d = Some d"
| "demo_exec n fresh (e # es) d =
     (case demo_do n fresh e d of Some (Inr _, d') \<Rightarrow> demo_exec n fresh es d' | _ \<Rightarrow> None)"

lemma demo_exec_reach:
  "demo_exec n fresh es d = Some d' \<Longrightarrow> demo_reach n fresh d \<Longrightarrow> demo_reach n fresh d'"
proof (induction es arbitrary: d)
  case (Cons e es)
  then obtain u where "demo_do n fresh e d = Some (Inr (), u)" "demo_exec n fresh es u = Some d'"
    by (auto split: option.splits sum.splits)
  with Cons.IH Cons.prems(2) show ?case by (blast intro: demo_reach.step)
qed simp

subsection \<open>The clients\<close>

definition ping_message :: "nat \<Rightarrow> bytes" where
  "ping_message t = request_message (\<lparr>requestLength = 0, methodId = CommandId_Ping, tag = of_nat t\<rparr>, [])"

text \<open>Client \<open>j\<close> has sent \<open>c\<close> of its requests, and none has been answered completely.\<close>

definition has_sent :: "nat \<Rightarrow> nat \<Rightarrow> client \<Rightarrow> bool" where
  "has_sent j c s \<longleftrightarrow>
     client_reach s \<and> \<not> lock s \<and> written s = concat (map ping_message [0..<c]) \<and>
     (\<forall>t. map_of (pendingRequests s) t \<noteq> None \<longleftrightarrow> unat t < c) \<and>
     (\<forall>h. senders s h \<noteq> None \<longrightarrow> h < 2 * j + c)"

lemma sent_new: "has_sent j 0 client_new"
  by (simp add: has_sent_def client_reach.init) (simp add: client_new_def)

lemma sent_zero:
  assumes "has_sent j 0 s"
  shows "currentWait s = None"
proof -
  from assms have n: "map_of (pendingRequests s) t = None" for t by (simp add: has_sent_def)
  have "pendingRequests s = []"
  proof (cases "pendingRequests s")
    case (Cons x xs)
    with n [of "fst x"] show ?thesis by (cases x) simp
  qed
  with assms client_invD(3) [OF client_inv_reach] show ?thesis by (simp add: has_sent_def)
qed

definition header_only :: "buffer \<Rightarrow> bool" where
  "header_only b \<longleftrightarrow> (\<exists>m. bdata b = Some m \<and> length m = 7) \<and> blen b = 7 \<and> boffset b = 7"

lemma header_only_new: "header_only (request_buffer fresh 0)"
  by (simp add: header_only_def request_buffer_shape)

lemma header_only_ready: "header_only b \<Longrightarrow> request_ready b"
  by (auto simp: header_only_def request_ready_def buf_ok_def content_def request_header_size_def)

lemma header_only_stamped: "header_only b \<Longrightarrow> header_only (snd (set_header hdr b))"
  by (auto simp: header_only_def set_header_def request_header_size_def)

lemma ping_stamped:
  "header_only b \<Longrightarrow> stamped (sent_header CommandId_Ping b (of_nat t)) b = ping_message t"
  by (auto simp: header_only_def stamped_def sent_header_def ping_message_def request_message_def poke_def
      content_def request_header_size_def)

lemma sent_free:
  assumes "has_sent j c s" "first_free (pendingRequests s) 0 = Some k" "c < 3"
  shows "k = c"
proof -
  note f = first_free_least [OF assms(2)]
  then have k: "unat (of_nat k :: u16) = k" by (simp add: UINT16_MAX_def unat_of_nat)
  have "c \<le> k"
  proof (rule ccontr)
    assume "\<not> c \<le> k"
    with assms(1) k have "map_of (pendingRequests s) (of_nat k) \<noteq> None" by (simp add: has_sent_def)
    with f show False by blast
  qed
  moreover have "\<not> c < k"
  proof
    assume "c < k"
    with f have "map_of (pendingRequests s) (of_nat c) \<noteq> None" by blast
    moreover have "unat (of_nat c :: u16) = c" using assms(3) by (simp add: unat_of_nat)
    ultimately show False using assms(1) by (simp add: has_sent_def)
  qed
  ultimately show ?thesis by simp
qed

lemma sent_request:
  assumes "has_sent j c s" "c < 2" "header_only b" "k = 2 * j + c"
    and "send_request k CommandId_Ping b 0 s = Some (r, t)"
  shows "r = Inr () \<and> has_sent j (Suc c) t"
proof -
  from assms(1) have s: "client_reach s" "senders s k = None"
    using assms(4) by (auto simp: has_sent_def)
  note ready = header_only_ready [OF assms(3)]
  from send_request_cases [OF client_inv_reach [OF s(1)] ready assms(5)] assms(3)
  obtain f where f: "r = Inr ()" "first_free (pendingRequests s) 0 = Some f"
    "t = after_send k CommandId_Ping b 0 (of_nat f) s"
    by (auto simp: header_only_def)
  from sent_free [OF assms(1) f(2)] assms(2) have "f = c" by simp
  have "client_do (Send k CommandId_Ping b 0) s = Some (r, t)"
    using s(2) ready assms(5) by (simp add: client_do_def)
  then have "client_reach t" by (rule client_reach.step [OF s(1)])
  moreover have "map_of (pendingRequests t) u \<noteq> None \<longleftrightarrow> unat u < Suc c" for u
  proof -
    have "unat (of_nat c :: u16) = c" using assms(2) by (simp add: unat_of_nat)
    then have "u = of_nat c \<or> unat u < c \<longleftrightarrow> unat u < Suc c"
      by (metis less_Suc_eq word_unat_eq_iff)
    with assms(1) om.find_put [OF client_invD(1) [OF client_inv_reach [OF s(1)]]] f(3) \<open>f = c\<close>
    show ?thesis by (auto simp: has_sent_def after_send_def)
  qed
  moreover have "\<not> lock t" "written t = concat (map ping_message [0..<Suc c])"
    using assms(1) f(3) \<open>f = c\<close> ping_stamped [OF assms(3), of c] by (simp_all add: has_sent_def after_send_def)
  moreover have "senders t h \<noteq> None \<longrightarrow> h < 2 * j + Suc c" for h
    using assms(1,4) f(3) by (auto simp: has_sent_def after_send_def dest: less_SucI)
  ultimately show ?thesis using f(1) by (simp add: has_sent_def)
qed

text \<open>A response changes nothing a later request depends on; a failed read is thrown.\<close>

lemma has_sent_event:
  assumes "has_sent j c s" "client_do e s = Some (Inr (), t)" "e = Response rh \<or> e = ReadFailed"
  shows "has_sent j c t \<and> 0 < c"
proof -
  have r: "client_reach s" using assms(1) by (simp add: has_sent_def)
  note i = client_inv_reach [OF r]
  from assms(2,3) have w: "currentWait s = Some Reading" and
    e: "e = Response rh" "on_response_header rh s = (Inr (), t)"
    by (auto simp: client_do_def wait_failed_run split: if_splits)
  have "map_of (pendingRequests s) (rtag rh) \<noteq> None"
    using on_response_header_run(1) [OF i, of rh] e(2) by fastforce
  then obtain st where "map_of (pendingRequests s) (rtag rh) = Some st" by blast
  from on_response_header_run(2) [OF i this] e(2) obtain h where t: "t = responded rh h s" by auto
  have "client_reach t" using client_reach.step [OF r assms(2)] .
  moreover have "c \<noteq> 0"
  proof
    assume "c = 0"
    with assms(1) have "has_sent j 0 s" by simp
    from sent_zero [OF this] w show False by simp
  qed
  ultimately show ?thesis using assms(1) by (auto simp: has_sent_def t responded_def)
qed

lemma sender_fails:
  assumes "has_sent j c (clients d ! (k div 2))"
  shows "sender_goes_on fresh k body d \<noteq> Some (Inr (), d')"
proof
  let ?s = "clients d ! (k div 2)"
  assume a: "sender_goes_on fresh k body d = Some (Inr (), d')"
  from a have k: "k \<in> set (woken ?s)" by (auto simp: sender_goes_on_def Let_def split: if_splits)
  with small_request_fails [of ?s k fresh body] assms
  obtain x t where "send_small_finish fresh body (the (senders ?s k)) (?s\<lparr>woken := remove1 k (woken ?s)\<rparr>) = Some (Inl x, t)"
    by (auto simp: has_sent_def)
  with a show False by (auto simp: sender_goes_on_def Let_def split: if_splits)
qed

subsection \<open>The invariant\<close>

text \<open>How many requests client \<open>j\<close> has sent.\<close>

fun sent_by :: "nat \<Rightarrow> test_at \<Rightarrow> nat" where
  "sent_by j (Sending k) = min 2 (k - 2 * j)"
| "sent_by j (Awaiting k) = 2"
| "sent_by j _ = 0"

definition demo_ok :: "nat \<Rightarrow> demo \<Rightarrow> bool" where
  "demo_ok n d \<longleftrightarrow>
     (\<forall>j<length (clients d). has_sent j (sent_by j (testAt d)) (clients d ! j)) \<and> ended d = [] \<and>
     (case testAt d of
        Connecting i \<Rightarrow> length (clients d) = i \<and> i \<le> n
      | Sending k \<Rightarrow> length (clients d) = n \<and> k \<le> 2 * n \<and> (odd k \<longrightarrow> header_only (req d))
      | Awaiting k \<Rightarrow> length (clients d) = n \<and> k = 0
      | TestReturned \<Rightarrow> length (clients d) < n \<or> n = 0)"

lemma demo_ok_sending:
  assumes "demo_ok n d" "testAt d = Sending k" "k < 2 * n" "send_ping fresh k d = Some (Inr (), d')"
  shows "demo_ok n d'"
proof -
  let ?j = "k div 2"
  from assms(1,2) have d: "length (clients d) = n" "odd k \<longrightarrow> header_only (req d)" "ended d = []"
    "\<And>j. j < n \<Longrightarrow> has_sent j (min 2 (k - 2 * j)) (clients d ! j)"
    by (simp_all add: demo_ok_def)
  obtain b where b: "header_only b" "b = (if even k then request_buffer fresh 0 else req d)"
    using d(2) header_only_new by auto
  have j: "?j < n" using assms(3) by linarith
  have k: "k = 2 * ?j + k mod 2" "k mod 2 < 2" by simp_all
  then have m: "min 2 (k - 2 * ?j) = k mod 2" by linarith
  from assms(4) obtain s hdr where s: "send_request k CommandId_Ping b 0 (clients d ! ?j) = Some (Inr (), s)"
    and d': "d' = d\<lparr>clients := (clients d)[?j := s],
      req := snd (set_header hdr b), testAt := Sending (Suc k)\<rparr>"
    by (auto simp: send_ping_def Let_def b(2) [symmetric] split: option.splits sum.splits prod.splits)
  have new: "has_sent ?j (Suc (k mod 2)) s"
    using sent_request [OF _ k(2) b(1) k(1) s] d(4) [OF j] m by simp
  have "has_sent i (min 2 (Suc k - 2 * i)) ((clients d)[?j := s] ! i)" if i: "i < n" for i
  proof (cases "i = ?j")
    case True
    have "min 2 (Suc k - 2 * ?j) = Suc (k mod 2)" using k by linarith
    with True new j d(1) show ?thesis by simp
  next
    case False
    then have "min 2 (Suc k - 2 * i) = min 2 (k - 2 * i)" using k by linarith
    with False d(4) [OF i] show ?thesis by simp
  qed
  moreover have "header_only (req d')" using header_only_stamped [OF b(1), of hdr] by (simp add: d')
  ultimately show ?thesis
    using d(1,3) assms(3) unfolding demo_ok_def by (simp add: d')
qed

lemma demo_ok_round:
  assumes "demo_ok n d" "test_round n fresh conn d = Some (Inr (), d')"
  shows "demo_ok n d'"
proof (cases "testAt d")
  case (Connecting i)
  with assms show ?thesis
    using sent_new by (auto simp: demo_ok_def test_round_def nth_append less_Suc_eq split: if_splits)
next
  case (Sending k)
  with assms demo_ok_sending [OF assms(1) Sending] show ?thesis
    by (cases "k = 2 * n") (auto simp: test_round_def demo_ok_def)
next
  case (Awaiting k)
  with assms show ?thesis by (auto simp: test_round_def demo_ok_def split: if_splits)
qed (use assms(2) in \<open>simp add: test_round_def\<close>)

lemma demo_ok_event:
  assumes "demo_ok n d" "client_event_at j e d = Some (Inr (), d')" "e = Response rh \<or> e = ReadFailed"
  shows "demo_ok n d'"
proof -
  from assms(2) obtain s where s: "j < length (clients d)" "client_do e (clients d ! j) = Some (Inr (), s)"
    "d' = d\<lparr>clients := (clients d)[j := s]\<rparr>"
    by (auto simp: client_event_at_def split: if_splits)
  from assms(1) s(1) have "has_sent j (sent_by j (testAt d)) (clients d ! j)" by (simp add: demo_ok_def)
  from has_sent_event [OF this s(2) assms(3)] assms(1) s(1,3) show ?thesis
    by (cases "testAt d") (auto simp: demo_ok_def nth_list_update)
qed

lemma demo_ok_reach: "demo_reach n fresh d \<Longrightarrow> demo_ok n d"
proof (induction rule: demo_reach.induct)
  case init
  show ?case by (simp add: demo_ok_def demo_init_def)
next
  case (step d e d')
  show ?case
  proof (cases e)
    case (SenderGoesOn k body)
    with step.hyps(2) have a: "sender_goes_on fresh k body d = Some (Inr (), d')" by (simp add: demo_do_def)
    then have "k div 2 < length (clients d)" by (auto simp: sender_goes_on_def Let_def split: if_splits)
    with step.IH have "has_sent (k div 2) (sent_by (k div 2) (testAt d)) (clients d ! (k div 2))"
      by (simp add: demo_ok_def)
    from sender_fails [OF this] a show ?thesis by blast
  next
    case (TestRound conn)
    with step.hyps(2) have "test_round n fresh conn d = Some (Inr (), d')" by (simp add: demo_do_def)
    from demo_ok_round [OF step.IH this] show ?thesis .
  next
    case (Arrival j rh)
    with step.hyps(2) have "client_event_at j (Response rh) d = Some (Inr (), d')" by (simp add: demo_do_def)
    from demo_ok_event [OF step.IH this] show ?thesis by blast
  next
    case (Disconnect j)
    with step.hyps(2) have "client_event_at j ReadFailed d = Some (Inr (), d')" by (simp add: demo_do_def)
    from demo_ok_event [OF step.IH this] show ?thesis by blast
  qed
qed

subsection \<open>Properties\<close>


text \<open>
  C28: what \<open>test\<close> sends.  When it awaits the responses, every client has written exactly two Pings
  without payload, with tags 0 and 1, although both were built in one buffer, and both tags are
  pending.
\<close>

theorem test_requests:
  assumes "demo_reach n fresh d" "testAt d = Awaiting k" "s \<in> set (clients d)"
  shows "length (clients d) = n \<and> written s = ping_message 0 @ ping_message 1 \<and>
    dom (map_of (pendingRequests s)) = {0, 1}"
proof -
  have ok: "demo_ok n d" using demo_ok_reach [OF assms(1)] .
  with assms(2,3) obtain j where s: "has_sent j 2 s" by (auto simp: demo_ok_def in_set_conv_nth)
  then have "map_of (pendingRequests s) t \<noteq> None \<longleftrightarrow> t = 0 \<or> t = 1" for t
    by (auto simp: has_sent_def word_unat_eq_iff less_2_cases_iff)
  with s ok assms(2) show ?thesis
    by (auto simp: has_sent_def demo_ok_def numeral_2_eq_2 dom_def)
qed

subsection \<open>Runs\<close>

text \<open>Without interference all the requests go out.\<close>

lemma send_request_possible:
  assumes "has_sent j c s" "c < 2" "header_only b" "k = 2 * j + c"
  shows "\<exists>t. send_request k CommandId_Ping b 0 s = Some (Inr (), t)"
proof -
  from assms(1) have i: "client_inv s" "\<not> lock s" by (simp_all add: has_sent_def client_inv_reach)
  have "dom (map_of (pendingRequests s)) \<subseteq> {0, 1}"
  proof
    fix t assume "t \<in> dom (map_of (pendingRequests s))"
    then have "map_of (pendingRequests s) t \<noteq> None" by blast
    with assms(1) have "unat t < c" by (simp only: has_sent_def)
    with assms(2) show "t \<in> {0, 1}" by (auto simp: word_unat_eq_iff)
  qed
  then have "card (dom (map_of (pendingRequests s))) \<le> card {0, 1 :: u16}" by (intro card_mono) simp_all
  with om.size_dom [OF client_invD(1) [OF i(1)]] have l: "length (pendingRequests s) < UINT16_MAX"
    by (simp add: UINT16_MAX_def)
  with first_free_some [OF client_invD(1) [OF i(1)]] obtain f where "first_free (pendingRequests s) 0 = Some f"
    by blast
  with i(2) l assms(3) have "send_request k CommandId_Ping b 0 s \<noteq> None"
    by (auto simp: send_request_def assert_fully_used_def reserve_request_state_def Let_def header_only_def
        split: option.splits sum.splits prod.splits)
  then obtain r t where "send_request k CommandId_Ping b 0 s = Some (r, t)" by auto
  with sent_request [OF assms(1,2,3,4) this] show ?thesis by blast
qed

lemma sending_moves:
  assumes "demo_ok n d" "testAt d = Sending k" "k < 2 * n"
  shows "\<exists>d'. test_round n fresh conn d = Some (Inr (), d') \<and> testAt d' = Sending (Suc k)"
proof -
  from assms obtain b where b: "header_only b" "b = (if even k then request_buffer fresh 0 else req d)"
    using header_only_new by (auto simp: demo_ok_def)
  have k: "k = 2 * (k div 2) + k mod 2" "k mod 2 < 2" "k div 2 < n" using assms(3) by simp_all
  then have m: "min 2 (k - 2 * (k div 2)) = k mod 2" by linarith
  from assms(1,2) have "\<forall>j<n. has_sent j (min 2 (k - 2 * j)) (clients d ! j)" by (simp add: demo_ok_def)
  with k(3) have "has_sent (k div 2) (min 2 (k - 2 * (k div 2))) (clients d ! (k div 2))" by blast
  then have "has_sent (k div 2) (k mod 2) (clients d ! (k div 2))" unfolding m .
  from send_request_possible [OF this k(2) b(1) k(1)] obtain t where
    "send_request k CommandId_Ping b 0 (clients d ! (k div 2)) = Some (Inr (), t)" by blast
  with assms(2,3) show ?thesis by (simp add: test_round_def send_ping_def Let_def b(2) [symmetric])
qed

lemma round_reach:
  "demo_reach n fresh d \<Longrightarrow> test_round n fresh conn d = Some (Inr (), d') \<Longrightarrow> demo_reach n fresh d'"
  by (rule demo_reach.step [where e = "TestRound conn"]) (simp_all add: demo_do_def)

lemma all_connect: "i \<le> n \<Longrightarrow> \<exists>d. demo_reach n fresh d \<and> testAt d = Connecting i"
proof (induction i)
  case 0
  show ?case using demo_reach.init [of n fresh] by (intro exI [of _ demo_init]) (simp add: demo_init_def)
next
  case (Suc i)
  then obtain d where d: "demo_reach n fresh d" "testAt d = Connecting i" by auto
  with Suc.prems round_reach [OF d(1), of 0] show ?case by (auto simp: test_round_def)
qed

lemma all_sent: "k \<le> 2 * n \<Longrightarrow> \<exists>d. demo_reach n fresh d \<and> testAt d = Sending k"
proof (induction k)
  case 0
  obtain d where d: "demo_reach n fresh d" "testAt d = Connecting n" using all_connect [of n n] by blast
  with round_reach [OF d(1), of 0] show ?case by (auto simp: test_round_def)
next
  case (Suc k)
  then obtain d where d: "demo_reach n fresh d" "testAt d = Sending k" by auto
  with sending_moves [OF demo_ok_reach [OF d(1)] d(2), of fresh 0] Suc.prems round_reach [OF d(1), of 0]
  show ?case by fastforce
qed

lemma all_awaited: "\<exists>d. demo_reach n fresh d \<and> testAt d = Awaiting 0"
proof -
  obtain d where d: "demo_reach n fresh d" "testAt d = Sending (2 * n)" using all_sent by blast
  with round_reach [OF d(1), of 0] show ?thesis by (auto simp: test_round_def)
qed


theorem test_requests_witness:
  "\<exists>d s. demo_reach 4096 (\<lambda>_. 0) d \<and> s \<in> set (clients d) \<and>
     written s = ping_message 0 @ ping_message 1"
proof -
  obtain d where d: "demo_reach 4096 (\<lambda>_. 0) d" "testAt d = Awaiting 0" using all_awaited by blast
  then have "length (clients d) = 4096" using demo_ok_reach [OF d(1)] by (simp add: demo_ok_def)
  then have "clients d ! 0 \<in> set (clients d)" by (intro nth_mem) simp
  with test_requests [OF d this] d(1) show ?thesis by blast
qed

end
