(* ===== verification/Thread_Names.thy ===== *)
theory Thread_Names
  imports Prelude
begin

section \<open>Thread names\<close>

text \<open>
  \<open>core/Thread.cpp\<close> and its two calls, at the start of a worker (\<open>async/ThreadPool.cpp\<close>) and of the
  loop thread (\<open>async/EventLoop.cpp\<close>).  \<open>pthread_setname_np\<close> is a parameter: from the name asked for
  and the name the thread has, it gives the result and the name the thread has afterwards.
\<close>

type_synonym setname = "string \<Rightarrow> string \<Rightarrow> int \<times> string"

text \<open>The result is ignored.\<close>

definition set_thread_name :: "setname \<Rightarrow> string \<Rightarrow> string \<Rightarrow> string" where
  "set_thread_name pthread_setname_np name current = snd (pthread_setname_np name current)"

text \<open>\<open>std::to_string\<close> of an unsigned integer.\<close>

fun to_string :: "nat \<Rightarrow> string" where
  "to_string n =
     (if n < 10 then [char_of (48 + n)] else to_string (n div 10) @ [char_of (48 + n mod 10)])"

declare to_string.simps [simp del]

definition worker_name :: "nat \<Rightarrow> string" where
  "worker_name i = ''RingSwarm - worker thread '' @ to_string i"

definition loop_thread_name :: string where
  "loop_thread_name = ''RingSwarm - libuv event loop''"

text \<open>The names of \<open>n\<close> workers and the loop thread, all started from a thread named \<open>inherited\<close>.\<close>

definition thread_names :: "setname \<Rightarrow> nat \<Rightarrow> string \<Rightarrow> string list" where
  "thread_names f n inherited =
     map (\<lambda>i. set_thread_name f (worker_name i) inherited) [0..<n] @ [set_thread_name f loop_thread_name inherited]"

text \<open>
  What the manual says of the call: a name has at most 15 characters and the terminating null; a longer
  one is refused with \<open>ERANGE\<close>.
\<close>

definition setname_documented :: "setname \<Rightarrow> bool" where
  "setname_documented f \<longleftrightarrow> (\<forall>name current. f name current = (if length name < 16 then (0, name) else (34, current)))"

subsection \<open>Properties\<close>

definition digits_value :: "string \<Rightarrow> nat" where
  "digits_value s = foldl (\<lambda>a c. 10 * a + (of_char c - 48)) 0 s"

lemma to_string_value: "digits_value (to_string n) = n"
proof (induction n rule: to_string.induct)
  case (1 n)
  then show ?case
    by (subst to_string.simps) (auto simp: digits_value_def)
qed

lemma worker_names_differ: "inj worker_name"
proof (rule injI)
  fix i j assume "worker_name i = worker_name j"
  then have "digits_value (to_string i) = digits_value (to_string j)" by (simp add: worker_name_def)
  then show "i = j" by (simp add: to_string_value)
qed

text \<open>
  The names made are different for different workers, but all of them are too long: the call refuses
  every one, nobody looks at its result, and all threads keep the name of the one that started them.
\<close>

lemma thread_names_refused:
  assumes "setname_documented f"
  shows "inj worker_name \<and> thread_names f n inherited = replicate (Suc n) inherited"
proof -
  have "set_thread_name f (worker_name i) inherited = inherited" for i
    using assms by (simp add: set_thread_name_def setname_documented_def worker_name_def)
  moreover have "set_thread_name f loop_thread_name inherited = inherited"
    using assms by (simp add: set_thread_name_def setname_documented_def loop_thread_name_def)
  ultimately have "thread_names f n inherited = replicate n inherited @ [inherited]"
    by (simp add: thread_names_def map_replicate_const)
  then show ?thesis using worker_names_differ by (simp add: replicate_append_same)
qed

lemma thread_names_refused_witness:
  "thread_names (\<lambda>name current. if length name < 16 then (0, name) else (34, current)) 16 ''ringswarm'' =
   replicate 17 ''ringswarm''"
proof -
  have "setname_documented (\<lambda>name current. if length name < 16 then (0, name) else (34, current))"
    by (simp add: setname_documented_def)
  from thread_names_refused [OF this, of 16 "''ringswarm''"] show ?thesis by simp
qed

end
