(* ===== verification/Spec2Isabelle.thy ===== *)
theory Spec2Isabelle
  imports Errors Ordered_Maps Ids Buffers Buffer_Ownership Codecs Message_Types Messages Headers Crypto Nodes Promises Awaiting
    Coroutine_Frames Waiters Void_Waiters Thread_Pool Event_Loop Loop_Control Sockets Overlays Servers Closing Clients Rpc Calls
    Node_Contexts Socket_Servers Connections Main_Program
    Demonstration Thread_Names
begin

text \<open>
  \<^bold>\<open>RingSwarm: a model of its core and what it guarantees\<close>

  RingSwarm (C++20, under \<open>src/src\<close>) is a peer-to-peer node built on coroutines.  A thread pool
  (\<open>async/ThreadPool\<close>) resumes suspended coroutines; one thread runs the libuv event loop
  (\<open>async/EventLoop\<close>) and is stopped by a lock when other threads touch libuv objects; transports
  (\<open>transport/\<close>) turn the callbacks of a TCP handle into coroutines that read and write bytes; over a
  transport runs a request/response protocol (\<open>proto/\<close>), whose messages are laid out by
  \<open>transport/Buffer\<close> from the data types of \<open>core/\<close> and \<open>crypto/\<close>.

  \<^bold>\<open>Theories, in the order of their dependencies\<close>

  \<^item> \<open>Prelude\<close>: fixed-width integers, little-endian images, parts of byte arrays, counting threads.
  \<^item> \<open>Errors\<close>: the exception classes with their inheritance, failed assertions and undefined
    behaviour (\<open>fault\<close>) as the three ways an operation fails, and the state transformers \<open>act\<close>.  A
    failed operation returns the state it left behind.
  \<^item> \<open>Ordered_Maps\<close>: \<open>std::map\<close> as a sorted association list, behind the locale \<open>std_map\<close>.
  \<^item> \<open>Ids\<close> (\<open>core/Id\<close>), \<open>Buffers\<close> and \<open>Codecs\<close> (\<open>transport/Buffer\<close>): the reads and writes of a
    buffer with their checks in 32-bit arithmetic; the locales \<open>codec\<close> and \<open>codec_pair\<close> state the
    round trip of one value once, and are interpreted for the integers, ids, signatures, strings,
    vectors and maps of the code.  \<open>Buffer_Ownership\<close>: which blocks are freed, once, and which are lost.
  \<^item> \<open>Message_Types\<close>: the C++ types that select an overload of \<open>read\<close> and \<open>write\<close>, nested vectors
    and maps included, as a datatype; the locale \<open>typed_codec\<close> adds to \<open>codec\<close> that a read returns a
    value of its type, and every type of the datatype has one.  \<open>Messages\<close>: several values in one
    buffer, and the size \<open>calcSize\<close> computes for them.
  \<^item> \<open>Headers\<close> (\<open>proto/*Header.h\<close>, \<open>*Buffer.h\<close>, \<open>CommandId.h\<close>): the packed headers as bytes.
  \<^item> \<open>Crypto\<close> (\<open>crypto/\<close>, \<open>core/PublicKey\<close>): every call of OpenSSL in the order of the code, each with
    the errors it may answer and the objects it creates, which the state keeps count of.  OpenSSL is
    a record of functions; the laws a property needs are its named hypotheses, and a sample instance
    satisfies them.
  \<^item> \<open>Nodes\<close> (\<open>core/Node\<close> and its \<open>read\<close> and \<open>write\<close> in \<open>transport/Buffer.cpp\<close>).
  \<^item> \<open>Promises\<close> (\<open>async/Promise.h\<close>, \<open>Coroutine.h\<close>, the await objects): how a result or an exception
    travels from a coroutine to the one awaiting it, and who owns a frame.  \<open>Awaiting\<close>: \<open>co_await\<close> by the
    kind of its operand, and the specialisations of \<open>AwaitResumeResult\<close>.  \<open>Coroutine_Frames\<close>: one coroutine
    and the one that awaits it from the call to the destruction of the frame, in every interleaving,
    refining a result that is delivered once.
  \<^item> \<open>Waiters\<close> (\<open>async/SyncCoroutineWaiter.h\<close>): a thread waiting for a coroutine, in every interleaving
    of the thread, the helper coroutine and the coroutine waited for.  \<open>Void_Waiters\<close>: the specialisation
    for coroutines without a value, as a quotient of it.
  \<^item> \<open>Thread_Pool\<close>, \<open>Event_Loop\<close>: step relations over all interleavings of the threads involved, with
    mutexes and condition variables, and a replay function for concrete schedules.  \<open>Loop_Control\<close> adds
    \<open>run\<close>, \<open>stop\<close> and the creation of handles to the lock protocol of \<open>Event_Loop\<close>, with any number
    of other threads using the lock.
  \<^item> \<open>Sockets\<close> (\<open>transport/PlainSocketTransport\<close>): the fields of the object and of its TCP handle, the
    memory the destinations of reads point into, every callback, and writing.  \<open>Connections\<close>: its
    creation and \<open>connect\<close>, step by step, with the listeners of the handle, in every interleaving with
    reads, events and destruction.
  \<^item> \<open>Overlays\<close> (\<open>transport/Transport\<close>, \<open>TransportWrapper\<close>, \<open>SecureOverlayTransport\<close>): the interface
    as a record of operations, its contract as the locale \<open>byte_stream\<close>, interpreted on the plain
    socket with a network around it, on the wrapper and on the secure overlay over it.
  \<^item> \<open>Servers\<close> (\<open>proto/ServerHandler\<close>, \<open>proto/shadow\<close>) and \<open>Clients\<close> (\<open>proto/ClientTransport\<close>): the
    two sides of the protocol as state machines whose steps are the stretches of code between two
    points where another coroutine or thread can interfere.  \<open>Closing\<close>: the last loop of
    \<open>ServerHandler::listen\<close>, step by step, while handlers are queued or running on other threads.
  \<^item> \<open>Rpc\<close>: a client and a server joined by their two streams, any interleaving of both being a run;
    \<open>Calls\<close>: the abstract specification of calls (a call is requested, served, its response read, and
    it returns), which \<open>Rpc\<close> refines, and \<open>sendSmallRequest\<close>.
  \<^item> \<open>Node_Contexts\<close> (\<open>core/NodeContext\<close>): the lists of connections and who owns their coroutines;
    \<open>Socket_Servers\<close> (\<open>transport/PlainSocketServer\<close>) the listening sockets, \<open>addServer\<close>, and the
    destruction of the members of a node.
  \<^item> \<open>Main_Program\<close> (\<open>main.cpp\<close>): the product of the pool, the event loop, the node and the waiting
    thread, with \<open>main\<close> going through them, and its shutdown.  \<open>Demonstration\<close>: the coroutine \<open>test\<close> it
    waits for, over \<open>Clients\<close>.  \<open>Thread_Names\<close> (\<open>core/Thread\<close>): the names the threads are given.

  \<^bold>\<open>How code is represented\<close>

  A class is a record with its fields under their own names; a reference to a map node is the key or
  the address of the node, so that using it after the node was erased is visible (\<open>UseAfterErase\<close>);
  a coroutine handle is an address, \<open>None\<close> when null.  Fields of the records marked as ghosts or
  history (\<open>begun\<close>, \<open>requests\<close>, \<open>sent\<close>, \<open>answered\<close>, \<open>ended\<close>, \<open>got\<close>, \<open>senders\<close>, \<open>scheduled\<close>, \<open>resumed\<close>, \<open>caught\<close>) are not in
  the code and influence no step.  Integers keep their width.  libuv is represented by parameters: the
  chunks it delivers, the answers of \<open>try_write\<close>, the codes of its errors, of which only the sign is
  used.  The build is one with assertions, where a failed \<open>Assert\<close> aborts.

  \<^bold>\<open>What the lemmas show\<close>

  The properties C1 to C40 are theorems of the theories above, each under its number.  In order of
  importance:

  \<^item> The protocol as a whole: client and server refine the specification of calls, tags are conserved,
    no call hangs, and every run without new calls ends, as long as the server does not fail.
  \<^item> Its two sides: mutual exclusion and exact answers of the server, the single reader and the
    messages of the client, framing across the network, and the end of
    a connection: what is done when \<open>listen\<close> returns, how it can fail or hang, that it terminates.
  \<^item> The socket transport: exact delivery, bounds, order of resumption; the result of \<open>connect\<close>, and the
    two ways a connection can fail.
  \<^item> The program: what has ended when \<open>main\<close> returns, the order of the shutdown, and that it does not
    hang once \<open>waitEmpty\<close> has returned; what \<open>test\<close> sends, and that it is never answered.
  \<^item> Serialisation: reads of any type on any bytes are type-safe, and invert writes; a message of several
    values fills exactly a buffer of its computed size.
  \<^item> The event loop: its lock refines a mutex, termination of \<open>stop\<close>.  The thread pool: it refines a bag
    of coroutines, and its shutdown.
  \<^item> Coroutines: a frame refines a result delivered once, when waiting for it ends, waiting from a thread,
    the connections of a node and its destructor.  Cryptography: round trip of the cypher, ownership of library objects.

  Several state what the code does where that is not what it is meant to do, and lemmas beside them
  others: references to erased nodes in \<open>ServerHandler::listen\<close> and \<open>ClientTransport::sendRequest\<close>,
  a window of \<open>co_await\<close> in which a wake-up is lost, null coroutines on closing and at the end of a body (so that \<open>sendSmallRequest\<close> never returns), the
  unlock of a free mutex on invalid requests, which a conforming client can provoke by reusing a tag,
  the write lock released by handlers that never took it, a race of the event loop lock, lost
  wake-ups in \<open>waitEmpty\<close> and \<open>SyncCoroutineWaiter::wait\<close>, a clean-up of connections that checks
  coroutines which have not ended, a window at the end of \<open>~NodeContext\<close>, key pairs with empty keys,
  signatures that never verify, blocks leaked by an assignment or a failed read, names no thread gets, an overlay without encryption, listeners of \<open>connect\<close> that outlive its
  frame, tasks dropped by \<open>blockingStop\<close>.

  \<^bold>\<open>Bounds and termination\<close>

  No fuel is used.  The loop of \<open>rawWrite\<close> may spin for ever and is a partial function (\<open>None\<close>), shown
  to return exactly when an attempt gets an answer other than \<open>UV_EAGAIN\<close>; the search for a free tag
  is a function with a termination proof, shown to succeed below 65535 requests; the busy wait for a
  free tag and the waits on mutexes are steps that are not possible yet.  Interleavings are unbounded.

  Progress is stated with ranks: a natural number that every step of the parties concerned decreases
  (\<open>link_rank\<close>, \<open>life_rank\<close>, \<open>stop_rank\<close>, \<open>wait_rank\<close>, \<open>ctx_rank\<close>, \<open>close_rank\<close>), together with a step that is possible.

  \<^bold>\<open>What is not modelled\<close>

  Logging has no state to model.  In \<open>Main_Program\<close> the
  coroutine \<open>test\<close> is represented by how it ends, and the threads that take the lock of the event loop
  are not tied to the coroutines they run.  libuv and OpenSSL are parameters.  In \<open>Node_Contexts\<close> the serving of one connection (the overlay and \<open>ServerHandler::listen\<close>) is
  one phase that ends normally or with an exception.  The specialisation of \<open>SyncCoroutineWaiter\<close> for
  one value cannot be instantiated as written.
\<close>

end
